(* ===== verification/Prelude.thy ===== *)
theory Prelude
  imports Main "HOL-Library.Word" "HOL-Library.Signed_Division"
begin

text \<open>
  What every component shares: the outcome of a C++ call (\<open>outcome\<close>), 64-bit signed
  arithmetic with its undefined cases (\<open>int64\<close>), and the decimal conversions of the standard
  library (\<open>std::to_string\<close>, \<open>std::stoll\<close>, \<open>std::stoi\<close>, \<open>std::getline\<close>) together with the
  facts about them that the components use.
\<close>

section \<open>Collections of facts\<close>

named_theorems outcome_simps \<open>binding and inspecting outcomes\<close>
named_theorems frame_simps \<open>what an operation leaves unchanged\<close>
named_theorems account_defs \<open>definitions unfolded when an account operation is evaluated\<close>

section \<open>Outcomes of a call\<close>

text \<open>
  A call returns a value, throws one of the standard exceptions the sources name, runs into
  undefined behaviour (signed overflow, a dangling or null pointer), or blocks on a lock another
  holder has. The first non-return ends the computation, as unwinding does.
\<close>

datatype exn =
    Invalid_argument string
  | Logic_error string
  | Out_of_range string

datatype 'a outcome =
    Returns 'a
  | Throws exn
  | Undefined
  | Blocks

fun obind :: "'a outcome \<Rightarrow> ('a \<Rightarrow> 'b outcome) \<Rightarrow> 'b outcome" where
  "obind (Returns x) f = f x"
| "obind (Throws e) f = Throws e"
| "obind Undefined f = Undefined"
| "obind Blocks f = Blocks"

text \<open>The same with a state: an early end keeps the state reached so far.\<close>

fun with_outcome :: "'a outcome \<Rightarrow> ('a \<Rightarrow> 's \<Rightarrow> 'b outcome \<times> 's) \<Rightarrow> 's \<Rightarrow> 'b outcome \<times> 's" where
  "with_outcome (Returns x) f s = f x s"
| "with_outcome (Throws e) f s = (Throws e, s)"
| "with_outcome Undefined f s = (Undefined, s)"
| "with_outcome Blocks f s = (Blocks, s)"

lemma obind_Returns_iff [outcome_simps]:
  "obind m f = Returns y \<longleftrightarrow> (\<exists>x. m = Returns x \<and> f x = Returns y)"
  by (cases m) auto

lemma obind_assoc: "obind (obind m f) g = obind m (\<lambda>x. obind (f x) g)"
  by (cases m) auto

lemma obind_Returns_id [simp]: "obind m Returns = m"
  by (cases m) auto

lemma with_outcome_keeps:
  assumes "R s s" and "\<And>x. m = Returns x \<Longrightarrow> R s (snd (f x s))"
  shows "R s (snd (with_outcome m f s))"
  using assms by (cases m) auto

lemma with_outcome_split:
  "P (with_outcome m f s) \<longleftrightarrow>
     (\<forall>x. m = Returns x \<longrightarrow> P (f x s)) \<and> (\<forall>e. m = Throws e \<longrightarrow> P (Throws e, s)) \<and>
     (m = Undefined \<longrightarrow> P (Undefined, s)) \<and> (m = Blocks \<longrightarrow> P (Blocks, s))"
  by (cases m) auto

section \<open>64-bit signed integers\<close>

text \<open>
  \<open>std::int64_t\<close> is a 64-bit two's complement value read by \<open>sint\<close>. Signed overflow is undefined
  behaviour in C++, so an arithmetic operation whose exact result does not fit has the outcome
  \<open>Undefined\<close> instead of a wrapped value.
\<close>

type_synonym int64 = "64 word"

abbreviation int64_min :: int where "int64_min \<equiv> - 9223372036854775808"
abbreviation int64_max :: int where "int64_max \<equiv> 9223372036854775807"

definition in_int64 :: "int \<Rightarrow> bool" where
  "in_int64 i \<longleftrightarrow> int64_min \<le> i \<and> i \<le> int64_max"

definition checked64 :: "int \<Rightarrow> int64 outcome" where
  "checked64 i = (if in_int64 i then Returns (word_of_int i) else Undefined)"

definition add64 :: "int64 \<Rightarrow> int64 \<Rightarrow> int64 outcome" where
  "add64 a b = checked64 (sint a + sint b)"

definition sub64 :: "int64 \<Rightarrow> int64 \<Rightarrow> int64 outcome" where
  "sub64 a b = checked64 (sint a - sint b)"

definition mul64 :: "int64 \<Rightarrow> int64 \<Rightarrow> int64 outcome" where
  "mul64 a b = checked64 (sint a * sint b)"

lemma sint_int64_range [simp]: "int64_min \<le> sint (a :: int64)" "sint (a :: int64) \<le> int64_max"
  using sint_ge [of a] sint_lt [of a] by simp_all

lemma in_int64_sint [simp]: "in_int64 (sint (a :: int64))"
  by (simp add: in_int64_def)

lemma in_int64_zero [simp]: "in_int64 0"
  by (simp add: in_int64_def)

lemma in_int64_diff: "0 \<le> sint a \<Longrightarrow> sint a \<le> sint b \<Longrightarrow> in_int64 (sint (b :: int64) - sint (a :: int64))"
  unfolding in_int64_def using sint_int64_range [of b] by linarith

lemma in_int64_neg: "int64_min < sint a \<Longrightarrow> in_int64 (- sint (a :: int64))"
  unfolding in_int64_def using sint_int64_range [of a] by linarith

lemma sint_word_of_int64 [simp]: "in_int64 i \<Longrightarrow> sint (word_of_int i :: int64) = i"
  by (simp add: in_int64_def sint_sbintrunc' signed_take_bit_int_eq_self)

lemma checked64_Returns:
  "checked64 i = Returns w \<longleftrightarrow> sint w = i"
  by (auto simp: checked64_def)

lemma checked64_cases:
  obtains w where "checked64 i = Returns w" "sint w = i" "in_int64 i"
  | "checked64 i = Undefined" "\<not> in_int64 i"
  by (cases "in_int64 i") (auto simp: checked64_def)

lemma checked64_in_range: "in_int64 i \<Longrightarrow> \<exists>w. checked64 i = Returns w \<and> sint w = i"
  by (simp add: checked64_def)

lemma sint_inject64: "sint (a :: int64) = sint b \<longleftrightarrow> a = b"
  by (rule word_eq_iff_signed [symmetric])

section \<open>Decimal text\<close>

text \<open>\<open>std::to_string\<close> on unsigned and signed integers.\<close>

definition decimal_digits :: string where
  "decimal_digits = ''0123456789''"

fun show_nat :: "nat \<Rightarrow> string" where
  "show_nat n = (if n < 10 then [decimal_digits ! n]
                 else show_nat (n div 10) @ [decimal_digits ! (n mod 10)])"

declare show_nat.simps [simp del]

definition show_int :: "int \<Rightarrow> string" where
  "show_int i = (if i < 0 then CHR ''-'' # show_nat (nat (- i)) else show_nat (nat i))"

definition digit_value :: "char \<Rightarrow> nat option" where
  "digit_value = map_of (zip decimal_digits [0, 1, 2, 3, 4, 5, 6, 7, 8, 9])"

definition is_digit :: "char \<Rightarrow> bool" where
  "is_digit c \<longleftrightarrow> c \<in> set decimal_digits"

definition is_space :: "char \<Rightarrow> bool" where
  "is_space c \<longleftrightarrow> c \<in> {CHR '' '', CHR 0x09, CHR 0x0A, CHR 0x0B, CHR 0x0C, CHR 0x0D}"

fun digits_value :: "nat \<Rightarrow> string \<Rightarrow> nat" where
  "digits_value acc [] = acc"
| "digits_value acc (c # cs) =
     digits_value (10 * acc + (case digit_value c of Some d \<Rightarrow> d | None \<Rightarrow> 0)) cs"

text \<open>
  \<open>strtoll\<close>: leading white space, one optional sign, then the longest run of digits; what follows
  the run is ignored. \<open>None\<close> when there is no digit to convert.
\<close>

definition parse_integer :: "string \<Rightarrow> int option" where
  "parse_integer s =
     (let s1 = dropWhile is_space s;
          neg = (s1 \<noteq> [] \<and> hd s1 = CHR ''-'');
          s2 = (if s1 \<noteq> [] \<and> hd s1 \<in> {CHR ''-'', CHR ''+''} then tl s1 else s1);
          ds = takeWhile is_digit s2
      in if ds = [] then None
         else Some (if neg then - int (digits_value 0 ds) else int (digits_value 0 ds)))"

definition stoll :: "string \<Rightarrow> int64 outcome" where
  "stoll s = (case parse_integer s of
       None \<Rightarrow> Throws (Invalid_argument ''stoll'')
     | Some i \<Rightarrow> if in_int64 i then Returns (word_of_int i) else Throws (Out_of_range ''stoll''))"

definition in_int32 :: "int \<Rightarrow> bool" where
  "in_int32 i \<longleftrightarrow> - 2147483648 \<le> i \<and> i \<le> 2147483647"

definition stoi :: "string \<Rightarrow> int outcome" where
  "stoi s = (case parse_integer s of
       None \<Rightarrow> Throws (Invalid_argument ''stoi'')
     | Some i \<Rightarrow> if in_int32 i then Returns i else Throws (Out_of_range ''stoi''))"

lemma show_nat_small: "n < 10 \<Longrightarrow> show_nat n = [decimal_digits ! n]"
  by (subst show_nat.simps) simp

lemma show_nat_large: "\<not> n < 10 \<Longrightarrow> show_nat n = show_nat (n div 10) @ [decimal_digits ! (n mod 10)]"
  by (subst show_nat.simps) simp

lemma less_10_cases:
  "(n :: nat) < 10 \<Longrightarrow> n = 0 \<or> n = 1 \<or> n = 2 \<or> n = 3 \<or> n = 4 \<or> n = 5 \<or> n = 6 \<or> n = 7 \<or> n = 8 \<or> n = 9"
  by auto

lemma digit_value_nth [simp]: "n < 10 \<Longrightarrow> digit_value (decimal_digits ! n) = Some n"
  by (drule less_10_cases) (auto simp: digit_value_def decimal_digits_def)

lemma is_digit_nth [simp]: "n < 10 \<Longrightarrow> is_digit (decimal_digits ! n)"
  by (drule less_10_cases) (auto simp: is_digit_def decimal_digits_def)

lemma show_nat_nonempty [simp]: "show_nat n \<noteq> []"
  by (subst show_nat.simps) simp

lemma show_nat_digits: "c \<in> set (show_nat n) \<Longrightarrow> is_digit c"
proof (induction n rule: show_nat.induct)
  case (1 n)
  then show ?case
    by (cases "n < 10") (auto simp: show_nat_small show_nat_large)
qed

lemma digits_value_append: "digits_value a (s @ t) = digits_value (digits_value a s) t"
  by (induction s arbitrary: a) auto

lemma digits_value_show_nat: "digits_value 0 (show_nat n) = n"
proof (induction n rule: show_nat.induct)
  case (1 n)
  then show ?case
    by (cases "n < 10") (simp_all add: show_nat_small show_nat_large digits_value_append)
qed

lemma show_nat_inject [simp]: "show_nat m = show_nat n \<longleftrightarrow> m = n"
  by (metis digits_value_show_nat)

lemma is_digit_not_special: "is_digit c \<Longrightarrow> c \<noteq> CHR ''-'' \<and> c \<noteq> CHR ''+'' \<and> \<not> is_space c"
  by (auto simp: is_digit_def is_space_def decimal_digits_def)

lemma show_nat_hd: "is_digit (hd (show_nat n))"
  by (rule show_nat_digits [of _ n]) simp

lemma takeWhile_show_nat [simp]: "takeWhile is_digit (show_nat n) = show_nat n"
  by (simp add: takeWhile_eq_all_conv show_nat_digits)

lemma dropWhile_space_show_nat [simp]: "dropWhile is_space (show_nat n) = show_nat n"
  using is_digit_not_special [OF show_nat_hd [of n]] by (cases "show_nat n") auto

lemma parse_integer_show_nat: "parse_integer (show_nat n) = Some (int n)"
  using is_digit_not_special [OF show_nat_hd [of n]]
  by (simp add: parse_integer_def digits_value_show_nat)

lemma parse_integer_minus_show_nat: "parse_integer (CHR ''-'' # show_nat n) = Some (- int n)"
  by (simp add: parse_integer_def digits_value_show_nat is_space_def)

lemma parse_integer_show_int [simp]: "parse_integer (show_int i) = Some i"
  by (simp add: show_int_def parse_integer_show_nat parse_integer_minus_show_nat)

lemma show_int_inject [simp]: "show_int i = show_int j \<longleftrightarrow> i = j"
  by (metis option.inject parse_integer_show_int)

lemma stoll_show_int [simp]: "stoll (show_int (sint w)) = Returns w"
  by (simp add: stoll_def)

lemma stoi_show_int [simp]: "in_int32 i \<Longrightarrow> stoi (show_int i) = Returns i"
  by (simp add: stoi_def)

lemma show_int_nonempty [simp]: "show_int i \<noteq> []"
  by (simp add: show_int_def)

lemma show_int_chars: "c \<in> set (show_int i) \<Longrightarrow> c = CHR ''-'' \<or> is_digit c"
  by (auto simp: show_int_def show_nat_digits split: if_splits)

lemma show_int_no_layout [simp]:
  "CHR 0x09 \<notin> set (show_int i)" "CHR 0x0A \<notin> set (show_int i)"
  by (auto dest!: show_int_chars simp: is_digit_def decimal_digits_def)

section \<open>Reading delimited text\<close>

text \<open>
  \<open>std::getline\<close> on a stream that still holds the given characters: it fails when nothing is left
  to extract, otherwise it extracts up to and including the delimiter and yields what came before.
\<close>

definition getline :: "char \<Rightarrow> string \<Rightarrow> (string \<times> string) option" where
  "getline d s = (if s = [] then None else Some (takeWhile (\<lambda>c. c \<noteq> d) s, tl (dropWhile (\<lambda>c. c \<noteq> d) s)))"

lemma getline_Nil [simp]: "getline d [] = None"
  by (simp add: getline_def)

lemma getline_delimited: "d \<notin> set f \<Longrightarrow> getline d (f @ d # rest) = Some (f, rest)"
  by (simp add: getline_def takeWhile_append dropWhile_append takeWhile_eq_all_conv)

lemma getline_last: "d \<notin> set f \<Longrightarrow> f \<noteq> [] \<Longrightarrow> getline d f = Some (f, [])"
proof -
  assume "d \<notin> set f" "f \<noteq> []"
  then have all: "takeWhile (\<lambda>c. c \<noteq> d) f = f" "dropWhile (\<lambda>c. c \<noteq> d) f = []"
    by (auto simp: takeWhile_eq_all_conv dropWhile_eq_Nil_conv)
  from \<open>f \<noteq> []\<close> show ?thesis unfolding getline_def all by simp
qed

lemma getline_shorter: "getline d s = Some (f, rest) \<Longrightarrow> length rest < length s"
  using length_dropWhile_le [of "\<lambda>c. c \<noteq> d" s]
  by (auto simp: getline_def split: if_splits) (cases s; simp)

end
