(* ===== verification/Enums.thy ===== *)
theory Enums
  imports Prelude
begin

text \<open>
  The scoped enumerations of \<open>common/Enums.hpp\<close> and their string conversions. A C++ \<open>enum class\<close>
  is an \<open>int\<close> with named values: \<open>static_cast\<close> of any \<open>int\<close> is a value of it, named or not. The
  enumerations that the file repository casts from text (\<open>Currency\<close>, \<open>PaymentMethod\<close>,
  \<open>TxnStatus\<close>) therefore carry one more constructor for the unnamed values, and the \<open>of_int\<close>
  functions below are the \<open>static_cast\<close>s in both directions.
\<close>

section \<open>Currency\<close>

datatype Currency = INR | USD | EUR | OtherCurrency int

fun toCode :: "Currency \<Rightarrow> string" where
  "toCode INR = ''INR''"
| "toCode USD = ''USD''"
| "toCode EUR = ''EUR''"
| "toCode (OtherCurrency _) = ''???''"

fun int_of_Currency :: "Currency \<Rightarrow> int" where
  "int_of_Currency INR = 0"
| "int_of_Currency USD = 1"
| "int_of_Currency EUR = 2"
| "int_of_Currency (OtherCurrency i) = i"

definition Currency_of_int :: "int \<Rightarrow> Currency" where
  "Currency_of_int i =
     (if i = 0 then INR else if i = 1 then USD else if i = 2 then EUR else OtherCurrency i)"

fun named_currency :: "Currency \<Rightarrow> bool" where
  "named_currency (OtherCurrency _) = False"
| "named_currency _ = True"

section \<open>Payment method\<close>

datatype PaymentMethod = CARD_method | UPI | WALLET | NET_BANKING | OtherMethod int

fun toString_method :: "PaymentMethod \<Rightarrow> string" where
  "toString_method CARD_method = ''CARD''"
| "toString_method UPI = ''UPI''"
| "toString_method WALLET = ''WALLET''"
| "toString_method NET_BANKING = ''NET_BANKING''"
| "toString_method (OtherMethod _) = ''UNKNOWN''"

fun int_of_method :: "PaymentMethod \<Rightarrow> int" where
  "int_of_method CARD_method = 0"
| "int_of_method UPI = 1"
| "int_of_method WALLET = 2"
| "int_of_method NET_BANKING = 3"
| "int_of_method (OtherMethod i) = i"

definition method_of_int :: "int \<Rightarrow> PaymentMethod" where
  "method_of_int i =
     (if i = 0 then CARD_method else if i = 1 then UPI else if i = 2 then WALLET
      else if i = 3 then NET_BANKING else OtherMethod i)"

fun named_method :: "PaymentMethod \<Rightarrow> bool" where
  "named_method (OtherMethod _) = False"
| "named_method _ = True"

section \<open>Transaction status\<close>

datatype TxnStatus =
    INITIATED | AUTHORIZED | CAPTURED | SETTLED | FAILED | REFUNDED | OtherStatus int

fun toString_status :: "TxnStatus \<Rightarrow> string" where
  "toString_status INITIATED = ''INITIATED''"
| "toString_status AUTHORIZED = ''AUTHORIZED''"
| "toString_status CAPTURED = ''CAPTURED''"
| "toString_status SETTLED = ''SETTLED''"
| "toString_status FAILED = ''FAILED''"
| "toString_status REFUNDED = ''REFUNDED''"
| "toString_status (OtherStatus _) = ''UNKNOWN''"

fun int_of_status :: "TxnStatus \<Rightarrow> int" where
  "int_of_status INITIATED = 0"
| "int_of_status AUTHORIZED = 1"
| "int_of_status CAPTURED = 2"
| "int_of_status SETTLED = 3"
| "int_of_status FAILED = 4"
| "int_of_status REFUNDED = 5"
| "int_of_status (OtherStatus i) = i"

definition status_of_int :: "int \<Rightarrow> TxnStatus" where
  "status_of_int i =
     (if i = 0 then INITIATED else if i = 1 then AUTHORIZED else if i = 2 then CAPTURED
      else if i = 3 then SETTLED else if i = 4 then FAILED else if i = 5 then REFUNDED
      else OtherStatus i)"

fun named_status :: "TxnStatus \<Rightarrow> bool" where
  "named_status (OtherStatus _) = False"
| "named_status _ = True"

section \<open>Direction and account type\<close>

datatype Direction = DEBIT | CREDIT

fun toString_direction :: "Direction \<Rightarrow> string" where
  "toString_direction DEBIT = ''DEBIT''"
| "toString_direction CREDIT = ''CREDIT''"

datatype AccountType = USER_WALLET | MERCHANT | SYSTEM_ESCROW | BANK_GATEWAY

fun toString_account_type :: "AccountType \<Rightarrow> string" where
  "toString_account_type USER_WALLET = ''USER_WALLET''"
| "toString_account_type MERCHANT = ''MERCHANT''"
| "toString_account_type SYSTEM_ESCROW = ''SYSTEM_ESCROW''"
| "toString_account_type BANK_GATEWAY = ''BANK_GATEWAY''"

section \<open>Casts and names\<close>

lemma Currency_of_int_of_Currency [simp]: "named_currency c \<Longrightarrow> Currency_of_int (int_of_Currency c) = c"
  by (cases c) (simp_all add: Currency_of_int_def)

lemma method_of_int_of_method [simp]: "named_method m \<Longrightarrow> method_of_int (int_of_method m) = m"
  by (cases m) (simp_all add: method_of_int_def)

lemma status_of_int_of_status [simp]: "named_status s \<Longrightarrow> status_of_int (int_of_status s) = s"
  by (cases s) (simp_all add: status_of_int_def)

lemma int_of_Currency_int32 [simp]: "named_currency c \<Longrightarrow> in_int32 (int_of_Currency c)"
  by (cases c) (simp_all add: in_int32_def)

lemma int_of_method_int32 [simp]: "named_method m \<Longrightarrow> in_int32 (int_of_method m)"
  by (cases m) (simp_all add: in_int32_def)

lemma int_of_status_int32 [simp]: "named_status s \<Longrightarrow> in_int32 (int_of_status s)"
  by (cases s) (simp_all add: in_int32_def)

lemma toCode_length [simp]: "length (toCode c) = 3"
  by (cases c) simp_all

lemma toCode_inject: "named_currency c \<Longrightarrow> named_currency d \<Longrightarrow> toCode c = toCode d \<longleftrightarrow> c = d"
  by (cases c; cases d) simp_all

lemma toString_status_inject:
  "named_status s \<Longrightarrow> named_status t \<Longrightarrow> toString_status s = toString_status t \<longleftrightarrow> s = t"
  by (cases s; cases t) simp_all

lemma named_of_int [simp]:
  "named_currency (Currency_of_int i) \<longleftrightarrow> i \<in> {0, 1, 2}"
  "named_method (method_of_int i) \<longleftrightarrow> i \<in> {0, 1, 2, 3}"
  "named_status (status_of_int i) \<longleftrightarrow> i \<in> {0, 1, 2, 3, 4, 5}"
  by (auto simp: Currency_of_int_def method_of_int_def status_of_int_def)

end
