(* ===== verification/Money.thy ===== *)
theory Money
  imports Enums
begin

text \<open>
  \<open>common/Money.hpp\<close>: the value object. The amount is a 64-bit signed count of minor units; mixing
  currencies throws \<open>std::invalid_argument\<close>, and arithmetic that does not fit is undefined.
  \<open>fromMajor\<close> (a \<open>double\<close> conversion) is not modelled.
\<close>

record Money =
  minorUnits :: int64
  currency :: Currency

abbreviation units :: "Money \<Rightarrow> int" where
  "units m \<equiv> sint (minorUnits m)"

definition fromMinor :: "int64 \<Rightarrow> Currency \<Rightarrow> Money" where
  "fromMinor minor ccy = \<lparr>minorUnits = minor, currency = ccy\<rparr>"

definition Money_zero :: "Currency \<Rightarrow> Money" where
  "Money_zero ccy = \<lparr>minorUnits = 0, currency = ccy\<rparr>"

definition isZero :: "Money \<Rightarrow> bool" where
  "isZero m \<longleftrightarrow> units m = 0"

definition isPositive :: "Money \<Rightarrow> bool" where
  "isPositive m \<longleftrightarrow> units m > 0"

definition isNegative :: "Money \<Rightarrow> bool" where
  "isNegative m \<longleftrightarrow> units m < 0"

definition assertSameCcy :: "Money \<Rightarrow> Money \<Rightarrow> unit outcome" where
  "assertSameCcy m x =
     (if currency m \<noteq> currency x
      then Throws (Invalid_argument (''Money currency mismatch: cannot mix '' @
             toCode (currency m) @ '' and '' @ toCode (currency x)))
      else Returns ())"

definition Money_plus :: "Money \<Rightarrow> Money \<Rightarrow> Money outcome" where
  "Money_plus m x = obind (assertSameCcy m x) (\<lambda>_.
     obind (add64 (minorUnits m) (minorUnits x)) (\<lambda>r. Returns (fromMinor r (currency m))))"

definition Money_minus :: "Money \<Rightarrow> Money \<Rightarrow> Money outcome" where
  "Money_minus m x = obind (assertSameCcy m x) (\<lambda>_.
     obind (sub64 (minorUnits m) (minorUnits x)) (\<lambda>r. Returns (fromMinor r (currency m))))"

definition Money_times :: "Money \<Rightarrow> int64 \<Rightarrow> Money outcome" where
  "Money_times m factor =
     obind (mul64 (minorUnits m) factor) (\<lambda>r. Returns (fromMinor r (currency m)))"

definition Money_eq :: "Money \<Rightarrow> Money \<Rightarrow> bool" where
  "Money_eq m x \<longleftrightarrow> minorUnits m = minorUnits x \<and> currency m = currency x"

definition Money_neq :: "Money \<Rightarrow> Money \<Rightarrow> bool" where
  "Money_neq m x \<longleftrightarrow> \<not> Money_eq m x"

definition Money_less :: "Money \<Rightarrow> Money \<Rightarrow> bool outcome" where
  "Money_less m x = obind (assertSameCcy m x) (\<lambda>_. Returns (units m < units x))"

definition Money_le :: "Money \<Rightarrow> Money \<Rightarrow> bool outcome" where
  "Money_le m x = obind (assertSameCcy m x) (\<lambda>_. Returns (units m \<le> units x))"

definition Money_greater :: "Money \<Rightarrow> Money \<Rightarrow> bool outcome" where
  "Money_greater m x = obind (assertSameCcy m x) (\<lambda>_. Returns (units m > units x))"

definition Money_ge :: "Money \<Rightarrow> Money \<Rightarrow> bool outcome" where
  "Money_ge m x = obind (assertSameCcy m x) (\<lambda>_. Returns (units m \<ge> units x))"

text \<open>C++ division truncates towards zero and the remainder takes the dividend's sign.\<close>

definition Money_toString :: "Money \<Rightarrow> string" where
  "Money_toString m =
     (let whole = units m sdiv 100;
          frac0 = units m smod 100;
          frac = (if frac0 < 0 then - frac0 else frac0)
      in show_int whole @ ''.'' @ (if frac < 10 then ''0'' else '''') @ show_int frac
           @ '' '' @ toCode (currency m))"

section \<open>Facts\<close>

lemma fromMinor_sel [simp]:
  "minorUnits (fromMinor w c) = w" "currency (fromMinor w c) = c"
  "fromMinor (minorUnits m) (currency m) = m"
  by (simp_all add: fromMinor_def)

lemma Money_zero_sel [simp]: "units (Money_zero c) = 0" "currency (Money_zero c) = c"
  by (simp_all add: Money_zero_def)

lemma Money_eqI: "units m = units x \<Longrightarrow> currency m = currency x \<Longrightarrow> m = (x :: Money)"
  using sint_inject64 [of "minorUnits m" "minorUnits x"] by simp

lemma Money_eq_iff: "Money_eq m x \<longleftrightarrow> m = x"
  by (auto simp: Money_eq_def)

lemma assertSameCcy_same [simp]: "currency m = currency x \<Longrightarrow> assertSameCcy m x = Returns ()"
  by (simp add: assertSameCcy_def)

lemma assertSameCcy_Returns: "assertSameCcy m x = Returns u \<longleftrightarrow> currency m = currency x"
  by (simp add: assertSameCcy_def)

lemma Money_compare_same:
  assumes "currency m = currency x"
  shows "Money_greater m x = Returns (units m > units x)"
    and "Money_ge m x = Returns (units m \<ge> units x)"
    and "Money_less m x = Returns (units m < units x)"
    and "Money_le m x = Returns (units m \<le> units x)"
  using assms by (simp_all add: Money_greater_def Money_ge_def Money_less_def Money_le_def)

lemma Money_plus_Returns:
  "Money_plus m x = Returns r \<longleftrightarrow>
     currency m = currency x \<and> currency r = currency m \<and> units r = units m + units x"
  by (auto simp: Money_plus_def outcome_simps assertSameCcy_Returns add64_def checked64_Returns
      intro!: exI [of _ "minorUnits r"]) (simp add: fromMinor_def)?

lemma Money_minus_Returns:
  "Money_minus m x = Returns r \<longleftrightarrow>
     currency m = currency x \<and> currency r = currency m \<and> units r = units m - units x"
  by (auto simp: Money_minus_def outcome_simps assertSameCcy_Returns sub64_def checked64_Returns
      intro!: exI [of _ "minorUnits r"]) (simp add: fromMinor_def)?

lemma Money_times_Returns:
  "Money_times m k = Returns r \<longleftrightarrow> currency r = currency m \<and> units r = units m * sint k"
  by (auto simp: Money_times_def outcome_simps mul64_def checked64_Returns
      intro!: exI [of _ "minorUnits r"]) (simp add: fromMinor_def)?

lemma Money_plus_total:
  "currency m = currency x \<Longrightarrow> in_int64 (units m + units x) \<Longrightarrow> \<exists>r. Money_plus m x = Returns r"
  by (simp add: Money_plus_def add64_def checked64_def)

lemma Money_minus_total:
  "currency m = currency x \<Longrightarrow> in_int64 (units m - units x) \<Longrightarrow> \<exists>r. Money_minus m x = Returns r"
  by (simp add: Money_minus_def sub64_def checked64_def)

section \<open>The text of an amount\<close>

lemma two_digits:
  assumes "0 \<le> x" "x < 100"
  shows "(if x < 10 then ''0'' else '''') @ show_int x = [decimal_digits ! nat (x div 10), decimal_digits ! nat (x mod 10)]"
proof (cases "x < 10")
  case True
  with assms show ?thesis by (simp add: show_int_def show_nat_small decimal_digits_def)
next
  case False
  have "nat x div 10 < 10" using assms by linarith
  with False assms show ?thesis
    by (simp add: show_int_def show_nat_large show_nat_small nat_div_distrib nat_mod_distrib)
qed

lemma nonneg_division: "0 \<le> u \<Longrightarrow> u sdiv 100 = u div (100 :: int)" "0 \<le> u \<Longrightarrow> u smod 100 = u mod (100 :: int)"
  by (simp_all add: signed_divide_int_def signed_modulo_int_def sgn_if minus_div_mult_eq_mod)

lemma Money_toString_nonneg:
  assumes "0 \<le> units m"
  shows "Money_toString m = show_nat (nat (units m div 100)) @ CHR ''.'' #
    decimal_digits ! nat (units m mod 100 div 10) # decimal_digits ! nat (units m mod 100 mod 10) # CHR '' '' #
    toCode (currency m)"
proof -
  have "0 \<le> units m div 100" using assms by (simp add: pos_imp_zdiv_nonneg_iff)
  moreover have "\<not> units m mod 100 < 0" by simp
  ultimately show ?thesis
    using two_digits [of "units m mod 100"]
    by (cases "units m mod 100 < 10")
      (simp_all add: Money_toString_def Let_def nonneg_division [OF assms] show_int_def [of "units m div 100"])
qed

lemma decimal_digits_inject: "i < 10 \<Longrightarrow> j < 10 \<Longrightarrow> decimal_digits ! i = decimal_digits ! j \<longleftrightarrow> i = j"
  by (metis digit_value_nth option.inject)

lemma money_text_parts_inject:
  assumes "show_nat a @ CHR ''.'' # d # e # CHR '' '' # cs = show_nat b @ CHR ''.'' # d' # e' # CHR '' '' # ds"
    and "length cs = length ds"
  shows "a = b \<and> d = d' \<and> e = e' \<and> cs = ds"
  using assms by simp

text \<open>The text of an amount between -0.99 and -0.01 is that of its absolute value.\<close>

lemma money_text_loses_the_sign:
  assumes "- 100 < units m" "units m < 0" "units x = - units m" "currency x = currency m"
  shows "Money_toString m = Money_toString x"
proof -
  have "units m sdiv 100 = 0" "units m smod 100 = units m" "(- units m) sdiv 100 = 0" "(- units m) smod 100 = - units m"
    using assms(1,2) by (simp_all add: signed_divide_int_def signed_modulo_int_def)
  with assms(2-4) show ?thesis by (simp add: Money_toString_def)
qed

text \<open>The text of amounts that are not negative, in named currencies, determines the amount.\<close>

lemma money_text_is_unambiguous:
  assumes "0 \<le> units m" "0 \<le> units x" "named_currency (currency m)" "named_currency (currency x)"
  shows "Money_toString m = Money_toString x \<longleftrightarrow> m = x"
proof
  assume same: "Money_toString m = Money_toString x"
  let ?d = "\<lambda>m. nat (units m mod 100 div 10)" and ?e = "\<lambda>m. nat (units m mod 100 mod 10)"
  have less: "?d m < 10" "?d x < 10" "?e m < 10" "?e x < 10" by (simp_all add: nat_less_iff)
  have eq: "nat (units m div 100) = nat (units x div 100) \<and>
    decimal_digits ! ?d m = decimal_digits ! ?d x \<and> decimal_digits ! ?e m = decimal_digits ! ?e x \<and>
    toCode (currency m) = toCode (currency x)"
    by (rule money_text_parts_inject [OF same [unfolded Money_toString_nonneg [OF assms(1)]
        Money_toString_nonneg [OF assms(2)]]]) (simp only: toCode_length)
  have d: "?d m = ?d x" "?e m = ?e x"
    using eq decimal_digits_inject [OF less(1,2)] decimal_digits_inject [OF less(3,4)] by blast+
  have "units m = 100 * (units m div 100) + (10 * (units m mod 100 div 10) + units m mod 100 mod 10)" for m
    by (metis mult_div_mod_eq)
  moreover have "int (nat (units m div 100)) = units m div 100" "int (?d m) = units m mod 100 div 10"
    "int (?e m) = units m mod 100 mod 10" if "0 \<le> units m" for m
    using that by (simp_all add: pos_imp_zdiv_nonneg_iff)
  ultimately have "units m = units x" using eq d assms(1,2) by metis
  moreover have "currency m = currency x" using eq toCode_inject [OF assms(3,4)] by blast
  ultimately show "m = x" by (rule Money_eqI)
qed simp

lemma money_text_is_unambiguous_witness:
  "Money_toString (fromMinor 150 INR) \<noteq> Money_toString (fromMinor 105 INR)"
proof -
  have "0 \<le> units (fromMinor 150 INR)" "0 \<le> units (fromMinor 105 INR)" "named_currency (currency (fromMinor 150 INR))"
    "named_currency (currency (fromMinor 105 INR))" by simp_all
  from money_text_is_unambiguous [OF this] show ?thesis by (simp add: fromMinor_def)
qed

end
