(* ===== verification/Result.thy ===== *)
theory Result
  imports Prelude
begin

text \<open>
  \<open>common/Result.hpp\<close>: the error codes, \<open>Error\<close>, the variant \<open>Result<T>\<close> and \<open>Status\<close>, which is an
  \<open>Error\<close> whose code \<open>NONE\<close> means success.
\<close>

datatype ErrorCode =
    NONE
  | VALIDATION_FAILED
  | INSUFFICIENT_FUNDS
  | ACCOUNT_NOT_FOUND
  | DUPLICATE_REQUEST
  | FRAUD_REJECTED
  | INVALID_STATE_TRANSITION
  | GATEWAY_ERROR
  | INTERNAL_ERROR

record Error =
  error_code :: ErrorCode
  error_message :: string

definition mkError :: "ErrorCode \<Rightarrow> string \<Rightarrow> Error" where
  "mkError c msg = \<lparr>error_code = c, error_message = msg\<rparr>"

datatype 'a Result = Result_ok 'a | Result_err Error

definition Result_fail :: "ErrorCode \<Rightarrow> string \<Rightarrow> 'a Result" where
  "Result_fail c msg = Result_err (mkError c msg)"

fun Result_isOk :: "'a Result \<Rightarrow> bool" where
  "Result_isOk (Result_ok _) = True"
| "Result_isOk (Result_err _) = False"

definition Result_isErr :: "'a Result \<Rightarrow> bool" where
  "Result_isErr r \<longleftrightarrow> \<not> Result_isOk r"

fun Result_value :: "'a Result \<Rightarrow> 'a outcome" where
  "Result_value (Result_ok v) = Returns v"
| "Result_value (Result_err _) = Throws (Logic_error ''Result::value() called on an error result'')"

fun Result_error :: "'a Result \<Rightarrow> Error outcome" where
  "Result_error (Result_err e) = Returns e"
| "Result_error (Result_ok _) = Throws (Logic_error ''Result::error() called on an ok result'')"

record Status =
  err :: Error

definition Status_ok :: Status where
  "Status_ok = \<lparr>err = mkError NONE ''''\<rparr>"

definition Status_fail :: "ErrorCode \<Rightarrow> string \<Rightarrow> Status" where
  "Status_fail c msg = \<lparr>err = mkError c msg\<rparr>"

definition Status_isOk :: "Status \<Rightarrow> bool" where
  "Status_isOk s \<longleftrightarrow> error_code (err s) = NONE"

definition Status_isErr :: "Status \<Rightarrow> bool" where
  "Status_isErr s \<longleftrightarrow> \<not> Status_isOk s"

lemma mkError_sel [simp]: "error_code (mkError c m) = c" "error_message (mkError c m) = m"
  by (simp_all add: mkError_def)

lemma Status_ok_sel [simp]: "error_code (err Status_ok) = NONE" "error_message (err Status_ok) = ''''"
  by (simp_all add: Status_ok_def)

lemma Status_fail_sel [simp]: "error_code (err (Status_fail c m)) = c" "error_message (err (Status_fail c m)) = m"
  by (simp_all add: Status_fail_def)

lemma Status_isErr_simps [simp]: "\<not> Status_isErr Status_ok" "Status_isErr (Status_fail c m) \<longleftrightarrow> c \<noteq> NONE"
  by (simp_all add: Status_isErr_def Status_isOk_def)

lemma Status_isOk_simps [simp]: "Status_isOk Status_ok" "Status_isOk (Status_fail c m) \<longleftrightarrow> c = NONE"
  by (simp_all add: Status_isOk_def)

lemma Status_fail_eq_ok [simp]: "Status_fail c m = Status_ok \<longleftrightarrow> c = NONE \<and> m = ''''"
  by (auto simp: Status_fail_def Status_ok_def mkError_def)

lemma Status_fail_inject [simp]: "Status_fail c m = Status_fail c' m' \<longleftrightarrow> c = c' \<and> m = m'"
  by (auto simp: Status_fail_def mkError_def)

lemma Result_isErr_simps [simp]: "\<not> Result_isErr (Result_ok v)" "Result_isErr (Result_err e)"
  by (simp_all add: Result_isErr_def)

lemma Result_fail_neq_ok [simp]: "Result_fail c m \<noteq> Result_ok v" "Result_ok v \<noteq> Result_fail c m"
  by (simp_all add: Result_fail_def)

lemma Result_fail_inject [simp]: "Result_fail c m = Result_fail c' m' \<longleftrightarrow> c = c' \<and> m = m'"
  by (auto simp: Result_fail_def mkError_def)

lemma Result_isErr_fail [simp]: "Result_isErr (Result_fail c m)" "\<not> Result_isOk (Result_fail c m)"
  by (simp_all add: Result_fail_def)

end
