(* ===== verification/Account.thy ===== *)
theory Account
  imports Money Result
begin

text \<open>
  \<open>domain/Account.hpp\<close>: the account entity. Every method holds the account's mutex for its whole
  body, so each is one atomic step; \<open>credit\<close> and \<open>debit\<close> return the status and the account after
  the call. Lemmas: what each branch does, that \<open>debit\<close> is total and never overdraws, and the
  effect of both on the balance as an integer.
\<close>

record Account =
  account_id :: string
  account_type :: AccountType
  balance :: Money

definition mkAccount :: "string \<Rightarrow> AccountType \<Rightarrow> Money \<Rightarrow> Account" where
  "mkAccount i t opening = \<lparr>account_id = i, account_type = t, balance = opening\<rparr>"

definition credit :: "Money \<Rightarrow> Account \<Rightarrow> (Status \<times> Account) outcome" where
  "credit amt a =
     (if currency amt \<noteq> currency (balance a)
      then Returns (Status_fail VALIDATION_FAILED ''currency mismatch on credit'', a)
      else if isNegative amt
      then Returns (Status_fail VALIDATION_FAILED ''credit amount must be >= 0'', a)
      else obind (Money_plus (balance a) amt) (\<lambda>b. Returns (Status_ok, a\<lparr>balance := b\<rparr>)))"

definition debit :: "Money \<Rightarrow> Account \<Rightarrow> (Status \<times> Account) outcome" where
  "debit amt a =
     (if currency amt \<noteq> currency (balance a)
      then Returns (Status_fail VALIDATION_FAILED ''currency mismatch on debit'', a)
      else if isNegative amt
      then Returns (Status_fail VALIDATION_FAILED ''debit amount must be >= 0'', a)
      else obind (Money_greater amt (balance a)) (\<lambda>over.
        if over
        then Returns (Status_fail INSUFFICIENT_FUNDS
               (''balance '' @ Money_toString (balance a) @ '' < debit '' @ Money_toString amt), a)
        else obind (Money_minus (balance a) amt) (\<lambda>b. Returns (Status_ok, a\<lparr>balance := b\<rparr>))))"

abbreviation funds :: "Account \<Rightarrow> int" where
  "funds a \<equiv> units (balance a)"

abbreviation account_currency :: "Account \<Rightarrow> Currency" where
  "account_currency a \<equiv> currency (balance a)"

lemma mkAccount_sel [simp]:
  "account_id (mkAccount i t m) = i" "account_type (mkAccount i t m) = t" "balance (mkAccount i t m) = m"
  by (simp_all add: mkAccount_def)

section \<open>Debit\<close>

text \<open>The subtraction of a covered amount always fits, so \<open>debit\<close> returns in every case.\<close>

lemma debit_covered:
  assumes "currency amt = account_currency a" "0 \<le> units amt" "units amt \<le> funds a"
  obtains b where "debit amt a = Returns (Status_ok, a\<lparr>balance := b\<rparr>)"
    and "units b = funds a - units amt" "currency b = account_currency a"
proof -
  have "in_int64 (funds a - units amt)"
    using assms(2,3) by (rule in_int64_diff)
  then obtain b where b: "Money_minus (balance a) amt = Returns b"
    using Money_minus_total assms(1) by metis
  with assms have "debit amt a = Returns (Status_ok, a\<lparr>balance := b\<rparr>)"
    by (simp add: debit_def isNegative_def Money_compare_same)
  with b show ?thesis by (auto simp: Money_minus_Returns intro: that)
qed

lemma debit_cases:
  obtains (ccy) "currency amt \<noteq> account_currency a"
      "debit amt a = Returns (Status_fail VALIDATION_FAILED ''currency mismatch on debit'', a)"
  | (negative) "currency amt = account_currency a" "units amt < 0"
      "debit amt a = Returns (Status_fail VALIDATION_FAILED ''debit amount must be >= 0'', a)"
  | (overdraw) "currency amt = account_currency a" "0 \<le> units amt" "funds a < units amt"
      "debit amt a = Returns (Status_fail INSUFFICIENT_FUNDS
         (''balance '' @ Money_toString (balance a) @ '' < debit '' @ Money_toString amt), a)"
  | (covered) b where "currency amt = account_currency a" "0 \<le> units amt" "units amt \<le> funds a"
      "debit amt a = Returns (Status_ok, a\<lparr>balance := b\<rparr>)"
      "units b = funds a - units amt" "currency b = account_currency a"
proof (cases "currency amt = account_currency a \<and> 0 \<le> units amt \<and> units amt \<le> funds a")
  case True
  then show ?thesis by (meson debit_covered covered)
next
  case False
  then show ?thesis
    using ccy negative overdraw
    by (force simp: debit_def isNegative_def Money_compare_same)
qed

lemma debit_Returns_ok:
  "debit amt a = Returns (st, a') \<and> Status_isOk st \<longleftrightarrow>
     currency amt = account_currency a \<and> 0 \<le> units amt \<and> units amt \<le> funds a \<and>
     st = Status_ok \<and> account_id a' = account_id a \<and> account_type a' = account_type a \<and>
     account_currency a' = account_currency a \<and> funds a' = funds a - units amt"
proof (rule debit_cases [of amt a])
  fix b
  assume "currency amt = account_currency a" "0 \<le> units amt" "units amt \<le> funds a"
    "debit amt a = Returns (Status_ok, a\<lparr>balance := b\<rparr>)"
    "units b = funds a - units amt" "currency b = account_currency a"
  then show ?thesis
    by (cases a; cases a') (auto intro: Money_eqI)
qed auto

lemma debit_err_unchanged: "debit amt a = Returns (st, a') \<Longrightarrow> Status_isErr st \<Longrightarrow> a' = a"
  by (rule debit_cases [of amt a]) auto

section \<open>Credit\<close>

lemma credit_cases:
  obtains (ccy) "currency amt \<noteq> account_currency a"
      "credit amt a = Returns (Status_fail VALIDATION_FAILED ''currency mismatch on credit'', a)"
  | (negative) "currency amt = account_currency a" "units amt < 0"
      "credit amt a = Returns (Status_fail VALIDATION_FAILED ''credit amount must be >= 0'', a)"
  | (overflow) "currency amt = account_currency a" "0 \<le> units amt"
      "\<not> in_int64 (funds a + units amt)" "credit amt a = Undefined"
  | (credited) b where "currency amt = account_currency a" "0 \<le> units amt"
      "credit amt a = Returns (Status_ok, a\<lparr>balance := b\<rparr>)"
      "units b = funds a + units amt" "currency b = account_currency a"
proof (cases "currency amt = account_currency a \<and> 0 \<le> units amt")
  case False
  then show ?thesis
    using ccy negative by (force simp: credit_def isNegative_def)
next
  case True
  show ?thesis
  proof (cases "in_int64 (funds a + units amt)")
    case in_range: True
    then obtain b where b: "Money_plus (balance a) amt = Returns b"
      using Money_plus_total True by metis
    with True have "credit amt a = Returns (Status_ok, a\<lparr>balance := b\<rparr>)"
      by (simp add: credit_def isNegative_def)
    with b True show ?thesis by (auto simp: Money_plus_Returns intro: credited)
  next
    case False
    with True have "credit amt a = Undefined"
      by (simp add: credit_def isNegative_def Money_plus_def add64_def checked64_def)
    with True False show ?thesis by (blast intro: overflow)
  qed
qed

lemma credit_err_unchanged: "credit amt a = Returns (st, a') \<Longrightarrow> Status_isErr st \<Longrightarrow> a' = a"
  by (rule credit_cases [of amt a]) auto

lemma credit_never_throws: "credit amt a \<noteq> Throws e" "credit amt a \<noteq> Blocks"
  by (rule credit_cases [of amt a]; simp)+

lemma debit_total: "\<exists>st a'. debit amt a = Returns (st, a')"
  by (rule debit_cases [of amt a]) auto

lemma account_ops_identity:
  "debit amt a = Returns (st, a') \<Longrightarrow> account_id a' = account_id a \<and> account_currency a' = account_currency a"
  "credit amt a = Returns (st, a') \<Longrightarrow> account_id a' = account_id a \<and> account_currency a' = account_currency a"
  by (rule debit_cases [of amt a]; auto) (rule credit_cases [of amt a]; auto)

text \<open>The compensation of \<open>PaymentService::pay\<close>: a credit undoes the debit that went before it.\<close>

lemma credit_undoes_debit:
  assumes "debit amt a = Returns (st, a')" "Status_isOk st"
  shows "credit amt a' = Returns (Status_ok, a)"
proof -
  from assms have ok: "currency amt = account_currency a" "0 \<le> units amt"
    "account_id a' = account_id a" "account_type a' = account_type a"
    "account_currency a' = account_currency a" "funds a' = funds a - units amt"
    using debit_Returns_ok [of amt a st a'] by simp_all
  show ?thesis
  proof (rule credit_cases [of amt a'])
    fix b
    assume "credit amt a' = Returns (Status_ok, a'\<lparr>balance := b\<rparr>)"
      "units b = funds a' + units amt" "currency b = account_currency a'"
    moreover from this ok have "b = balance a" by (intro Money_eqI) simp_all
    ultimately show ?thesis using ok by (cases a; cases a') simp
  qed (use ok in \<open>simp_all add: in_int64_def\<close>)
qed

end
