(* ===== verification/LedgerEntry.thy ===== *)
theory LedgerEntry
  imports Money
begin

text \<open>
  \<open>domain/LedgerEntry.hpp\<close> and \<open>domain/DomainEvent.hpp\<close>: one immutable ledger posting and the event
  envelope. \<open>signed_units\<close> is the integer a posting contributes; \<open>signedAmount\<close> computes it as the
  code does, and is undefined only for the one amount whose negation does not fit.
\<close>

record LedgerEntry =
  entryId :: string
  entry_txnId :: string
  entry_accountId :: string
  direction :: Direction
  entry_amount :: Money
  entry_seq :: int64

definition mkLedgerEntry :: "string \<Rightarrow> string \<Rightarrow> string \<Rightarrow> Direction \<Rightarrow> Money \<Rightarrow> int64 \<Rightarrow> LedgerEntry" where
  "mkLedgerEntry e t a d m n =
     \<lparr>entryId = e, entry_txnId = t, entry_accountId = a, direction = d, entry_amount = m, entry_seq = n\<rparr>"

definition signedAmount :: "LedgerEntry \<Rightarrow> Money outcome" where
  "signedAmount e =
     (if direction e = CREDIT then Returns (entry_amount e) else Money_times (entry_amount e) (- 1))"

definition signed_units :: "LedgerEntry \<Rightarrow> int" where
  "signed_units e = (if direction e = CREDIT then units (entry_amount e) else - units (entry_amount e))"

record DomainEvent =
  event_type :: string
  aggregateId :: string
  payload :: string
  occurredAtEpoch :: int64

lemma mkLedgerEntry_sel [simp]:
  "entryId (mkLedgerEntry e t a d m n) = e" "entry_txnId (mkLedgerEntry e t a d m n) = t"
  "entry_accountId (mkLedgerEntry e t a d m n) = a" "direction (mkLedgerEntry e t a d m n) = d"
  "entry_amount (mkLedgerEntry e t a d m n) = m" "entry_seq (mkLedgerEntry e t a d m n) = n"
  by (simp_all add: mkLedgerEntry_def)

lemma signedAmount_Returns:
  "signedAmount e = Returns m \<Longrightarrow> units m = signed_units e \<and> currency m = currency (entry_amount e)"
  by (auto simp: signedAmount_def signed_units_def Money_times_Returns split: if_splits)

lemma signedAmount_total:
  assumes "int64_min < units (entry_amount e)"
  obtains m where "signedAmount e = Returns m" "units m = signed_units e"
proof -
  from assms have "in_int64 (- units (entry_amount e))"
    by (rule in_int64_neg)
  then have "\<exists>m. signedAmount e = Returns m"
    by (auto simp: signedAmount_def Money_times_def mul64_def checked64_def)
  with that show ?thesis using signedAmount_Returns by blast
qed

lemma signedAmount_cases:
  obtains m where "signedAmount e = Returns m" "units m = signed_units e"
  | "signedAmount e = Undefined" "direction e = DEBIT" "units (entry_amount e) = int64_min"
proof (cases "int64_min < units (entry_amount e)")
  case True
  then show ?thesis by (meson signedAmount_total that(1))
next
  case False
  then have m: "units (entry_amount e) = int64_min"
    using sint_int64_range(1) [of "minorUnits (entry_amount e)"] by linarith
  show ?thesis
  proof (cases "direction e")
    case CREDIT
    then show ?thesis
      by (intro that(1) [of "entry_amount e"]) (simp_all add: signedAmount_def signed_units_def)
  next
    case DEBIT
    with m show ?thesis
      by (intro that(2)) (simp_all add: signedAmount_def Money_times_def mul64_def checked64_def in_int64_def)
  qed
qed

end
