(* ===== verification/Transaction.thy ===== *)
theory Transaction
  imports Money
begin

text \<open>
  \<open>domain/Transaction.hpp\<close>: the transaction entity, its builder and its rehydration. The clock
  reading \<open>nowEpoch()\<close> is an argument of \<open>build\<close>.
\<close>

record Transaction =
  txn_id :: string
  txn_idempotencyKey :: string
  txn_payer :: string
  txn_payee :: string
  txn_amount :: Money
  txn_method :: PaymentMethod
  txn_status :: TxnStatus
  txn_createdAtEpoch :: int64

definition mkTransaction ::
    "int64 \<Rightarrow> string \<Rightarrow> string \<Rightarrow> string \<Rightarrow> string \<Rightarrow> Money \<Rightarrow> PaymentMethod \<Rightarrow> Transaction" where
  "mkTransaction now i key payer payee amt m =
     \<lparr>txn_id = i, txn_idempotencyKey = key, txn_payer = payer, txn_payee = payee,
      txn_amount = amt, txn_method = m, txn_status = INITIATED, txn_createdAtEpoch = now\<rparr>"

definition setStatus :: "TxnStatus \<Rightarrow> Transaction \<Rightarrow> Transaction" where
  "setStatus s t = t\<lparr>txn_status := s\<rparr>"

section \<open>Builder\<close>

record Builder =
  b_id :: string
  b_key :: string
  b_payer :: string
  b_payee :: string
  b_amount :: "Money option"
  b_method :: PaymentMethod

definition new_builder :: Builder where
  "new_builder = \<lparr>b_id = '''', b_key = '''', b_payer = '''', b_payee = '''', b_amount = None, b_method = UPI\<rparr>"

definition set_id :: "string \<Rightarrow> Builder \<Rightarrow> Builder" where "set_id v b = b\<lparr>b_id := v\<rparr>"
definition set_idempotencyKey :: "string \<Rightarrow> Builder \<Rightarrow> Builder" where "set_idempotencyKey v b = b\<lparr>b_key := v\<rparr>"
definition set_payer :: "string \<Rightarrow> Builder \<Rightarrow> Builder" where "set_payer v b = b\<lparr>b_payer := v\<rparr>"
definition set_payee :: "string \<Rightarrow> Builder \<Rightarrow> Builder" where "set_payee v b = b\<lparr>b_payee := v\<rparr>"
definition set_amount :: "Money \<Rightarrow> Builder \<Rightarrow> Builder" where "set_amount v b = b\<lparr>b_amount := Some v\<rparr>"
definition set_method :: "PaymentMethod \<Rightarrow> Builder \<Rightarrow> Builder" where "set_method v b = b\<lparr>b_method := v\<rparr>"

lemmas builder_defs = new_builder_def set_id_def set_idempotencyKey_def set_payer_def set_payee_def
  set_amount_def set_method_def

definition build :: "int64 \<Rightarrow> Builder \<Rightarrow> Transaction outcome" where
  "build now b =
     (if b_id b = [] then Throws (Invalid_argument ''Transaction.id is required'')
      else if b_payer b = [] then Throws (Invalid_argument ''Transaction.payer is required'')
      else if b_payee b = [] then Throws (Invalid_argument ''Transaction.payee is required'')
      else case b_amount b of
        None \<Rightarrow> Throws (Invalid_argument ''Transaction.amount is required'')
      | Some amt \<Rightarrow> Returns (mkTransaction now (b_id b) (b_key b) (b_payer b) (b_payee b) amt (b_method b)))"

section \<open>Rehydration\<close>

definition rehydrate ::
    "string \<Rightarrow> string \<Rightarrow> string \<Rightarrow> string \<Rightarrow> Money \<Rightarrow> PaymentMethod \<Rightarrow> TxnStatus \<Rightarrow> int64
     \<Rightarrow> int64 \<Rightarrow> Transaction" where
  "rehydrate i key payer payee amt m st created now =
     (mkTransaction now i key payer payee amt m)\<lparr>txn_status := st, txn_createdAtEpoch := created\<rparr>"

lemma mkTransaction_sel [simp]:
  "txn_id (mkTransaction n i k p q a m) = i" "txn_idempotencyKey (mkTransaction n i k p q a m) = k"
  "txn_payer (mkTransaction n i k p q a m) = p" "txn_payee (mkTransaction n i k p q a m) = q"
  "txn_amount (mkTransaction n i k p q a m) = a" "txn_method (mkTransaction n i k p q a m) = m"
  "txn_status (mkTransaction n i k p q a m) = INITIATED"
  "txn_createdAtEpoch (mkTransaction n i k p q a m) = n"
  by (simp_all add: mkTransaction_def)

lemma setStatus_sel [simp]:
  "txn_id (setStatus s t) = txn_id t" "txn_idempotencyKey (setStatus s t) = txn_idempotencyKey t"
  "txn_payer (setStatus s t) = txn_payer t" "txn_payee (setStatus s t) = txn_payee t"
  "txn_amount (setStatus s t) = txn_amount t" "txn_method (setStatus s t) = txn_method t"
  "txn_status (setStatus s t) = s" "txn_createdAtEpoch (setStatus s t) = txn_createdAtEpoch t"
  by (simp_all add: setStatus_def)

text \<open>Rehydrating a transaction's own fields gives it back, whatever the clock says.\<close>

lemma rehydrate_fields [simp]:
  "rehydrate (txn_id t) (txn_idempotencyKey t) (txn_payer t) (txn_payee t) (txn_amount t)
     (txn_method t) (txn_status t) (txn_createdAtEpoch t) now = t"
  by (simp add: rehydrate_def mkTransaction_def)

lemma build_Returns:
  "build now b = Returns t \<longleftrightarrow>
     b_id b \<noteq> [] \<and> b_payer b \<noteq> [] \<and> b_payee b \<noteq> [] \<and>
     (\<exists>amt. b_amount b = Some amt \<and>
        t = mkTransaction now (b_id b) (b_key b) (b_payer b) (b_payee b) amt (b_method b))"
  by (auto simp: build_def split: option.splits)

lemma build_never_undefined: "build now b \<noteq> Undefined" "build now b \<noteq> Blocks"
  by (auto simp: build_def split: option.splits)

end
