(* ===== verification/Ports.thy ===== *)
theory Ports
  imports Account LedgerEntry Transaction Result
begin

text \<open>
  \<open>ports/Ports.hpp\<close>: the interfaces of the hexagon. Each abstract class is a locale: its virtual
  functions are the parameters, and what the service relies on is stated over an abstract view of
  the adapter's state (a map, a set of held keys, a journal, an event log). The adapters interpret
  these locales. \<open>Ports\<close> is the bundle of virtual functions that is injected into the service.

  Account objects are shared by pointer, so they live in a heap: an address is a
  \<open>shared_ptr<Account>\<close>, and a repository hands out addresses.
\<close>

type_synonym addr = nat
type_synonym heap = "addr \<rightharpoonup> Account"

record ('ar, 'tr, 'is, 'dl, 'lr, 'ev) Ports =
  accounts_find :: "string \<Rightarrow> 'ar \<Rightarrow> addr option"
  transactions_find :: "string \<Rightarrow> 'tr \<Rightarrow> Transaction option"
  transactions_save :: "Transaction \<Rightarrow> 'tr \<Rightarrow> 'tr"
  idempotency_get :: "string \<Rightarrow> 'is \<Rightarrow> string option"
  idempotency_putIfAbsent :: "string \<Rightarrow> string \<Rightarrow> 'is \<Rightarrow> bool \<times> 'is"
  locks_acquire :: "string \<Rightarrow> 'dl \<Rightarrow> 'dl option"
  locks_release :: "string \<Rightarrow> 'dl \<Rightarrow> 'dl"
  ledger_post :: "LedgerEntry list \<Rightarrow> 'lr \<Rightarrow> (Status \<times> 'lr) outcome"
  events_publish :: "DomainEvent \<Rightarrow> 'ev \<Rightarrow> 'ev"

section \<open>Account repository\<close>

text \<open>Every registered pointer is live and registered under the id of its account.\<close>

definition registered :: "heap \<Rightarrow> (string \<rightharpoonup> addr) \<Rightarrow> bool" where
  "registered h m \<longleftrightarrow> (\<forall>k p. m k = Some p \<longrightarrow> (\<exists>a. h p = Some a \<and> account_id a = k))"

locale account_repository =
  fixes find :: "string \<Rightarrow> 'ar \<Rightarrow> addr option"
    and save :: "heap \<Rightarrow> addr \<Rightarrow> 'ar \<Rightarrow> 'ar outcome"
    and view :: "'ar \<Rightarrow> (string \<rightharpoonup> addr)"
  assumes find_view: "find k s = view s k"
    and save_view: "h p = Some a \<Longrightarrow> \<exists>s'. save h p s = Returns s' \<and> view s' = (view s)(account_id a \<mapsto> p)"
    and save_dangling: "h p = None \<Longrightarrow> save h p s = Undefined"
begin

lemma registered_save:
  assumes "registered h (view s)" "save h p s = Returns s'"
  shows "registered h (view s')"
proof -
  obtain a where a: "h p = Some a"
    using assms(2) save_dangling [of h p s] by (cases "h p") auto
  with assms(2) save_view [of h p a s] have "view s' = (view s)(account_id a \<mapsto> p)" by auto
  with assms(1) a show ?thesis by (auto simp: registered_def)
qed

lemma registered_find: "registered h (view s) \<Longrightarrow> find k s = Some p \<Longrightarrow> \<exists>a. h p = Some a \<and> account_id a = k"
  by (simp add: registered_def find_view)

text \<open>No aliasing between different ids.\<close>

lemma registered_distinct:
  "registered h (view s) \<Longrightarrow> find j s = Some p \<Longrightarrow> find k s = Some q \<Longrightarrow> p = q \<longleftrightarrow> j = k"
  using registered_find [of h s j p] registered_find [of h s k q] by auto

lemma find_after_save:
  assumes "h p = Some a" "save h p s = Returns s'"
  shows "find k s' = (if k = account_id a then Some p else find k s)"
  using save_view [of h p a s] assms by (auto simp: find_view)

end

section \<open>Transaction repository\<close>

locale transaction_repository =
  fixes find :: "string \<Rightarrow> 'tr \<Rightarrow> Transaction option"
    and save :: "Transaction \<Rightarrow> 'tr \<Rightarrow> 'tr"
    and view :: "'tr \<Rightarrow> (string \<rightharpoonup> Transaction)"
    and inv :: "'tr \<Rightarrow> bool"
  assumes find_view: "inv s \<Longrightarrow> find k s = view s k"
    and save_view: "inv s \<Longrightarrow> view (save t s) = (view s)(txn_id t \<mapsto> t)"
    and save_inv: "inv s \<Longrightarrow> inv (save t s)"
begin

lemma find_after_save: "inv s \<Longrightarrow> find k (save t s) = (if k = txn_id t then Some t else find k s)"
  by (simp add: find_view save_view save_inv)

text \<open>Saving under fresh ids never disturbs what is already stored.\<close>

lemma fold_save_inv: "inv s \<Longrightarrow> inv (fold save ts s)"
  by (induction ts arbitrary: s) (simp_all add: save_inv)

lemma fold_save_other: "inv s \<Longrightarrow> k \<notin> txn_id ` set ts \<Longrightarrow> find k (fold save ts s) = find k s"
  by (induction ts arbitrary: s) (simp_all add: find_after_save save_inv)

end

section \<open>Idempotency store\<close>

locale idempotency_store =
  fixes get :: "string \<Rightarrow> 'is \<Rightarrow> string option"
    and putIfAbsent :: "string \<Rightarrow> string \<Rightarrow> 'is \<Rightarrow> bool \<times> 'is"
    and view :: "'is \<Rightarrow> (string \<rightharpoonup> string)"
  assumes get_view: "get k s = view s k"
    and put_wins: "fst (putIfAbsent k v s) \<longleftrightarrow> view s k = None"
    and put_view: "view (snd (putIfAbsent k v s)) = (if view s k = None then (view s)(k \<mapsto> v) else view s)"
begin

lemma get_after_put: "get k (snd (putIfAbsent k v s)) = Some (case get k s of None \<Rightarrow> v | Some u \<Rightarrow> u)"
  by (auto simp: get_view put_view split: option.splits)

lemma put_never_overwrites: "get k s = Some u \<Longrightarrow> get k (snd (putIfAbsent j v s)) = Some u"
  by (auto simp: get_view put_view)

text \<open>Of any number of claims of one key, exactly the first wins.\<close>

fun claims :: "string \<Rightarrow> string list \<Rightarrow> 'is \<Rightarrow> bool list \<times> 'is" where
  "claims k [] s = ([], s)"
| "claims k (v # vs) s = (let (won, s1) = putIfAbsent k v s; (ws, s2) = claims k vs s1 in (won # ws, s2))"

lemma claims_taken: "view s k = Some u \<Longrightarrow> fst (claims k vs s) = replicate (length vs) False"
proof (induction vs arbitrary: s)
  case (Cons v vs)
  obtain won s1 where p: "putIfAbsent k v s = (won, s1)" by (cases "putIfAbsent k v s")
  have "\<not> won" "view s1 k = Some u"
    using put_wins [of k v s] put_view [of k v s] Cons.prems by (simp_all add: p)
  with Cons.IH [of s1] show ?case by (auto simp: p split: prod.split)
qed simp

lemma claims_free:
  assumes "view s k = None"
  shows "fst (claims k (v # vs) s) = True # replicate (length vs) False"
proof -
  obtain won s1 where p: "putIfAbsent k v s = (won, s1)" by (cases "putIfAbsent k v s")
  have "won" "view s1 k = Some v"
    using put_wins [of k v s] put_view [of k v s] assms by (simp_all add: p)
  with claims_taken [of s1 k v vs] show ?thesis by (auto simp: p split: prod.split)
qed

end

section \<open>Distributed lock\<close>

text \<open>\<open>acquire\<close> is \<open>None\<close> where the call blocks; dropping the guard is \<open>release\<close>.\<close>

locale distributed_lock =
  fixes acquire :: "string \<Rightarrow> 'dl \<Rightarrow> 'dl option"
    and release :: "string \<Rightarrow> 'dl \<Rightarrow> 'dl"
    and held :: "'dl \<Rightarrow> string set"
  assumes acquire_free: "k \<notin> held s \<Longrightarrow> \<exists>s'. acquire k s = Some s' \<and> held s' = insert k (held s)"
    and acquire_held: "k \<in> held s \<Longrightarrow> acquire k s = None"
    and release_held: "held (release k s) = held s - {k}"
begin

lemma acquire_Some: "acquire k s = Some s' \<Longrightarrow> k \<notin> held s \<and> held s' = insert k (held s)"
  using acquire_free [of k s] acquire_held [of k s] by (cases "k \<in> held s") auto

lemma acquire_release: "acquire k s = Some s' \<Longrightarrow> held (release k s') = held s"
  by (auto dest!: acquire_Some simp: release_held)

lemma acquire_other: "acquire k s = Some s' \<Longrightarrow> j \<noteq> k \<Longrightarrow> j \<notin> held s \<Longrightarrow> acquire j s' \<noteq> None"
  using acquire_free [of j s'] acquire_Some [of k s s'] by auto

end

section \<open>Ledger\<close>

definition posting_currency :: "LedgerEntry list \<Rightarrow> Currency" where
  "posting_currency es = currency (entry_amount (hd es))"

definition balanced :: "LedgerEntry list \<Rightarrow> bool" where
  "balanced es \<longleftrightarrow> es \<noteq> [] \<and> (\<forall>e \<in> set es. currency (entry_amount e) = posting_currency es) \<and>
     sum_list (map signed_units es) = 0"

text \<open>The running sum of signed amounts stays representable, so no addition overflows.\<close>

fun sums_fit :: "int \<Rightarrow> LedgerEntry list \<Rightarrow> bool" where
  "sums_fit acc [] = True"
| "sums_fit acc (e # es) =
     (in_int64 (signed_units e) \<and> in_int64 (acc + signed_units e) \<and> sums_fit (acc + signed_units e) es)"

text \<open>A journal that nets to zero in every currency.\<close>

definition nets_to_zero :: "LedgerEntry list \<Rightarrow> bool" where
  "nets_to_zero es \<longleftrightarrow> (\<forall>c. (\<Sum>e \<leftarrow> es. if currency (entry_amount e) = c then signed_units e else 0) = 0)"

lemma balanced_nets_to_zero:
  assumes "balanced es"
  shows "nets_to_zero es"
proof -
  have "(\<Sum>e \<leftarrow> es. if currency (entry_amount e) = c then signed_units e else 0) =
        (if posting_currency es = c then sum_list (map signed_units es) else 0)" for c
    using assms by (auto simp: balanced_def cong: map_cong)
  with assms show ?thesis by (simp add: nets_to_zero_def balanced_def)
qed

locale ledger_repository =
  fixes post :: "LedgerEntry list \<Rightarrow> 'lr \<Rightarrow> (Status \<times> 'lr) outcome"
    and entriesFor :: "string \<Rightarrow> 'lr \<Rightarrow> LedgerEntry list"
    and journal :: "'lr \<Rightarrow> LedgerEntry list"
  assumes post_ok: "post es s = Returns (st, s') \<Longrightarrow> Status_isOk st \<Longrightarrow>
      st = Status_ok \<and> balanced es \<and> journal s' = journal s @ es"
    and post_err: "post es s = Returns (st, s') \<Longrightarrow> Status_isErr st \<Longrightarrow> s' = s"
    and post_accepts: "balanced es \<Longrightarrow> sums_fit 0 es \<Longrightarrow> \<exists>s'. post es s = Returns (Status_ok, s')"
    and entriesFor_view: "entriesFor a s = filter (\<lambda>e. entry_accountId e = a) (journal s)"
begin

text \<open>Whatever is posted, the journal nets to zero in every currency.\<close>

lemma post_nets_to_zero:
  assumes "nets_to_zero (journal s)" "post es s = Returns (st, s')"
  shows "nets_to_zero (journal s')"
proof (cases "Status_isOk st")
  case True
  with post_ok [OF assms(2)] have "balanced es" "journal s' = journal s @ es" by simp_all
  with assms(1) balanced_nets_to_zero [of es] show ?thesis by (simp add: nets_to_zero_def)
next
  case False
  with post_err [OF assms(2)] assms(1) show ?thesis by (simp add: Status_isErr_def)
qed

lemma post_append_only: "post es s = Returns (st, s') \<Longrightarrow> \<exists>more. journal s' = journal s @ more"
  using post_ok [of es s st s'] post_err [of es s st s'] by (cases "Status_isOk st") (auto simp: Status_isErr_def)

lemma entriesFor_after_post:
  "post es s = Returns (st, s') \<Longrightarrow> Status_isOk st \<Longrightarrow>
   entriesFor a s' = entriesFor a s @ filter (\<lambda>e. entry_accountId e = a) es"
  using post_ok [of es s st s'] by (simp add: entriesFor_view)

end

section \<open>Event publisher\<close>

locale event_publisher =
  fixes publish :: "DomainEvent \<Rightarrow> 'ev \<Rightarrow> 'ev"
    and log :: "'ev \<Rightarrow> DomainEvent list"
  assumes publish_log: "log (publish e s) = log s @ [e]"
begin

lemma fold_publish_log: "log (fold publish es s) = log s @ es"
  by (induction es arbitrary: s) (simp_all add: publish_log)

end

end
