(* ===== verification/State_Machine.thy ===== *)
theory State_Machine
  imports Enums Result
begin

text \<open>
  \<open>patterns/TransactionStateMachine.hpp\<close>: the transition table and its three queries. The diagram of
  the header comment is the inductive relation \<open>lifecycle\<close>; the table decides exactly this relation.
  A rank that every transition raises bounds the length of a life.
\<close>

definition allowed_table :: "(TxnStatus \<times> TxnStatus list) list" where
  "allowed_table =
     [(INITIATED, [AUTHORIZED, FAILED]),
      (AUTHORIZED, [CAPTURED, FAILED]),
      (CAPTURED, [SETTLED, REFUNDED]),
      (SETTLED, []),
      (FAILED, []),
      (REFUNDED, [])]"

definition canTransition :: "TxnStatus \<Rightarrow> TxnStatus \<Rightarrow> bool" where
  "canTransition fr to = (case map_of allowed_table fr of None \<Rightarrow> False | Some nexts \<Rightarrow> to \<in> set nexts)"

definition transition :: "TxnStatus \<Rightarrow> TxnStatus \<Rightarrow> Status" where
  "transition fr to =
     (if \<not> canTransition fr to
      then Status_fail INVALID_STATE_TRANSITION
             (''illegal transition '' @ toString_status fr @ '' -> '' @ toString_status to)
      else Status_ok)"

definition isTerminal :: "TxnStatus \<Rightarrow> bool" where
  "isTerminal s = (case map_of allowed_table s of None \<Rightarrow> False | Some nexts \<Rightarrow> nexts = [])"

section \<open>The documented life cycle\<close>

inductive lifecycle :: "TxnStatus \<Rightarrow> TxnStatus \<Rightarrow> bool" where
  authorize: "lifecycle INITIATED AUTHORIZED"
| reject: "lifecycle INITIATED FAILED"
| capture: "lifecycle AUTHORIZED CAPTURED"
| decline: "lifecycle AUTHORIZED FAILED"
| settle: "lifecycle CAPTURED SETTLED"
| refund: "lifecycle CAPTURED REFUNDED"

code_pred lifecycle .

inductive_simps lifecycle_from_simps [simp]:
  "lifecycle INITIATED s" "lifecycle AUTHORIZED s" "lifecycle CAPTURED s" "lifecycle SETTLED s"
  "lifecycle FAILED s" "lifecycle REFUNDED s" "lifecycle (OtherStatus i) s"

lemma canTransition_lifecycle: "canTransition fr to \<longleftrightarrow> lifecycle fr to"
  by (cases fr) (auto simp: canTransition_def allowed_table_def)

lemma isTerminal_iff: "isTerminal s \<longleftrightarrow> s \<in> {SETTLED, FAILED, REFUNDED}"
  by (cases s) (auto simp: isTerminal_def allowed_table_def)

lemma isTerminal_no_exit: "isTerminal s \<Longrightarrow> \<not> canTransition s t"
  by (auto simp: isTerminal_iff canTransition_lifecycle)

lemma transition_ok_iff: "Status_isOk (transition fr to) \<longleftrightarrow> lifecycle fr to"
  by (simp add: transition_def canTransition_lifecycle)

fun status_rank :: "TxnStatus \<Rightarrow> nat" where
  "status_rank INITIATED = 0"
| "status_rank AUTHORIZED = 1"
| "status_rank CAPTURED = 2"
| "status_rank SETTLED = 3"
| "status_rank FAILED = 3"
| "status_rank REFUNDED = 3"
| "status_rank (OtherStatus _) = 3"

lemma lifecycle_rank: "lifecycle s t \<Longrightarrow> status_rank s < status_rank t"
  by (induction rule: lifecycle.induct) simp_all

lemma status_rank_le: "status_rank s \<le> 3"
  by (cases s) simp_all

text \<open>Every sequence of accepted transitions, from any status.\<close>

fun legal_history :: "TxnStatus \<Rightarrow> TxnStatus list \<Rightarrow> bool" where
  "legal_history s [] = True"
| "legal_history s (t # ts) = (Status_isOk (transition s t) \<and> legal_history t ts)"

lemma legal_history_rank: "legal_history s ts \<Longrightarrow> length ts + status_rank s \<le> 3"
proof (induction ts arbitrary: s)
  case Nil
  then show ?case by (simp add: status_rank_le)
next
  case (Cons t ts)
  then have "length ts + status_rank t \<le> 3" "status_rank s < status_rank t"
    by (simp_all add: transition_ok_iff lifecycle_rank)
  then show ?case by simp
qed

text \<open>No transaction goes through more than three transitions, whatever is attempted.\<close>

lemma lives_are_short:
  "legal_history s ts \<Longrightarrow> length ts \<le> 3"
  using legal_history_rank [of s ts] by simp

text \<open>The table is the life cycle of the comment, and its terminal states are the named ones without a way out.\<close>

lemma state_machine_is_the_life_cycle:
  "(Status_isOk (transition fr to) \<longleftrightarrow> lifecycle fr to) \<and> (canTransition fr to \<longleftrightarrow> lifecycle fr to) \<and>
   (isTerminal fr \<longleftrightarrow> named_status fr \<and> (\<forall>s. \<not> lifecycle fr s))"
  by (cases fr) (auto simp: transition_ok_iff canTransition_lifecycle isTerminal_iff)

end
