(* ===== verification/Validation_Chain.thy ===== *)
theory Validation_Chain
  imports Transaction Result
begin

text \<open>
  \<open>patterns/ValidationChain.hpp\<close>: the chain of responsibility and its three concrete handlers. A
  handler is the record of its virtual functions; \<open>check\<close> may throw, because the handlers compare
  \<open>Money\<close> of possibly different currencies. Lemmas: the chain accepts exactly when every handler
  does, it answers with the first rejection, and the verdict of the wiring of \<open>main.cpp\<close>.
\<close>

record ValidationHandler =
  handler_name :: string
  check :: "Transaction \<Rightarrow> Status outcome"

type_synonym ValidationChain = "ValidationHandler list"

definition add :: "ValidationHandler \<Rightarrow> ValidationChain \<Rightarrow> ValidationChain" where
  "add h handlers = handlers @ [h]"

fun run :: "ValidationChain \<Rightarrow> Transaction \<Rightarrow> Status outcome" where
  "run [] txn = Returns Status_ok"
| "run (h # hs) txn =
     obind (check h txn) (\<lambda>s. if Status_isErr s then Returns s else run hs txn)"

section \<open>Concrete handlers\<close>

definition BasicValidationHandler :: ValidationHandler where
  "BasicValidationHandler = \<lparr>handler_name = ''BasicValidation'',
     check = (\<lambda>txn.
       if \<not> isPositive (txn_amount txn)
       then Returns (Status_fail VALIDATION_FAILED ''amount must be > 0'')
       else if txn_payer txn = txn_payee txn
       then Returns (Status_fail VALIDATION_FAILED ''payer and payee must differ'')
       else Returns Status_ok)\<rparr>"

definition LimitValidationHandler :: "Money \<Rightarrow> ValidationHandler" where
  "LimitValidationHandler limit = \<lparr>handler_name = ''LimitValidation'',
     check = (\<lambda>txn. obind (Money_greater (txn_amount txn) limit) (\<lambda>over.
       if over
       then Returns (Status_fail VALIDATION_FAILED
              (''amount '' @ Money_toString (txn_amount txn) @ '' exceeds per-txn limit '' @ Money_toString limit))
       else Returns Status_ok))\<rparr>"

definition FraudCheckHandler :: "Money \<Rightarrow> ValidationHandler" where
  "FraudCheckHandler threshold = \<lparr>handler_name = ''FraudCheck'',
     check = (\<lambda>txn. obind (Money_ge (txn_amount txn) threshold) (\<lambda>held.
       if held
       then Returns (Status_fail FRAUD_REJECTED
              (''amount '' @ Money_toString (txn_amount txn) @ '' held for fraud review''))
       else Returns Status_ok))\<rparr>"

lemma check_Basic:
  "check BasicValidationHandler txn =
     (if units (txn_amount txn) \<le> 0 then Returns (Status_fail VALIDATION_FAILED ''amount must be > 0'')
      else if txn_payer txn = txn_payee txn
      then Returns (Status_fail VALIDATION_FAILED ''payer and payee must differ'')
      else Returns Status_ok)"
  by (simp add: BasicValidationHandler_def isPositive_def)

lemma check_Limit_same:
  "currency (txn_amount txn) = currency limit \<Longrightarrow>
   check (LimitValidationHandler limit) txn =
     (if units limit < units (txn_amount txn)
      then Returns (Status_fail VALIDATION_FAILED
             (''amount '' @ Money_toString (txn_amount txn) @ '' exceeds per-txn limit '' @ Money_toString limit))
      else Returns Status_ok)"
  by (simp add: LimitValidationHandler_def Money_compare_same)

lemma check_Fraud_same:
  "currency (txn_amount txn) = currency threshold \<Longrightarrow>
   check (FraudCheckHandler threshold) txn =
     (if units threshold \<le> units (txn_amount txn)
      then Returns (Status_fail FRAUD_REJECTED
             (''amount '' @ Money_toString (txn_amount txn) @ '' held for fraud review''))
      else Returns Status_ok)"
  by (simp add: FraudCheckHandler_def Money_compare_same)

lemma check_Limit_mixed:
  "currency (txn_amount txn) \<noteq> currency limit \<Longrightarrow>
   check (LimitValidationHandler limit) txn =
     Throws (Invalid_argument (''Money currency mismatch: cannot mix '' @
       toCode (currency (txn_amount txn)) @ '' and '' @ toCode (currency limit)))"
  by (simp add: LimitValidationHandler_def Money_greater_def assertSameCcy_def)

section \<open>The chain\<close>

lemma run_append: "run (hs @ gs) txn = obind (run hs txn) (\<lambda>s. if Status_isErr s then Returns s else run gs txn)"
  by (induction hs) (auto simp: obind_assoc intro!: arg_cong [of _ _ "obind _"])

lemma run_add: "run (add h hs) txn = obind (run hs txn) (\<lambda>s. if Status_isErr s then Returns s else
    obind (check h txn) (\<lambda>s. if Status_isErr s then Returns s else Returns Status_ok))"
  by (simp add: add_def run_append cong: if_cong)

text \<open>Acceptance: every handler was asked and returned success.\<close>

lemma run_accepts:
  "(\<exists>s. run hs txn = Returns s \<and> Status_isOk s) \<longleftrightarrow>
     (\<forall>h \<in> set hs. \<exists>s. check h txn = Returns s \<and> Status_isOk s)"
  by (induction hs) (auto simp: outcome_simps Status_isErr_def split: if_splits)

lemma run_Returns_ok: "run hs txn = Returns s \<Longrightarrow> Status_isOk s \<Longrightarrow> s = Status_ok"
  by (induction hs) (auto simp: outcome_simps Status_isErr_def split: if_splits)

text \<open>Rejection: the verdict is that of the first handler that does not accept, and no later one is asked.\<close>

lemma run_first_rejection:
  assumes "\<forall>h \<in> set hs. \<exists>s. check h txn = Returns s \<and> Status_isOk s"
    and "check g txn = Returns st" and "Status_isErr st"
  shows "run (hs @ g # rest) txn = Returns st"
  using assms by (induction hs) (auto simp: Status_isErr_def)

text \<open>The wiring of \<open>main.cpp\<close> and the tests: basic checks, then the limit, then fraud.\<close>

definition standard_chain :: "Money \<Rightarrow> Money \<Rightarrow> ValidationChain" where
  "standard_chain limit threshold =
     add (FraudCheckHandler threshold) (add (LimitValidationHandler limit) (add BasicValidationHandler []))"

lemma standard_chain_list:
  "standard_chain limit threshold =
     [BasicValidationHandler, LimitValidationHandler limit, FraudCheckHandler threshold]"
  by (simp add: standard_chain_def add_def)

lemma run_standard_accepts:
  "run (standard_chain limit threshold) txn = Returns Status_ok \<longleftrightarrow>
     currency (txn_amount txn) = currency limit \<and> currency (txn_amount txn) = currency threshold \<and>
     0 < units (txn_amount txn) \<and> units (txn_amount txn) \<le> units limit \<and>
     units (txn_amount txn) < units threshold \<and> txn_payer txn \<noteq> txn_payee txn"
  by (auto simp: standard_chain_list check_Basic outcome_simps LimitValidationHandler_def
      FraudCheckHandler_def Money_greater_def Money_ge_def assertSameCcy_Returns split: if_splits)

text \<open>The verdict of a chain is that of its first handler that does not accept, whatever comes after it.\<close>

lemma chain_stops_at_first_rejection:
  assumes "\<forall>h \<in> set hs. check h txn = Returns Status_ok" and "\<forall>s. check g txn = Returns s \<longrightarrow> Status_isErr s"
  shows "run (hs @ g # rest) txn = check g txn \<and> run hs txn = Returns Status_ok"
proof -
  have "run hs txn = Returns Status_ok" using assms(1) by (induction hs) auto
  moreover have "run (g # rest) txn = check g txn"
    using assms(2) by (cases "check g txn") auto
  ultimately show ?thesis by (simp add: run_append)
qed

end
