(* ===== verification/Payment_Strategy.thy ===== *)
theory Payment_Strategy
  imports Transaction Result
begin

text \<open>
  \<open>patterns/PaymentStrategy.hpp\<close> and \<open>patterns/PaymentStrategyFactory.hpp\<close>: a strategy is the record of
  its virtual functions, the factory is the registry from methods to strategies. The four concrete
  strategies approve everything; an unregistered method has no strategy.
\<close>

record GatewayRef =
  provider :: string
  reference :: string

record PaymentStrategy =
  strategy_name :: string
  authorize :: "Transaction \<Rightarrow> GatewayRef Result"
  capture :: "Transaction \<Rightarrow> GatewayRef \<Rightarrow> Status"
  refund :: "Transaction \<Rightarrow> GatewayRef \<Rightarrow> Status"

definition CardPaymentStrategy :: PaymentStrategy where
  "CardPaymentStrategy = \<lparr>strategy_name = ''CARD'',
     authorize = (\<lambda>txn. Result_ok \<lparr>provider = ''VISA'', reference = ''auth_'' @ txn_id txn\<rparr>),
     capture = (\<lambda>_ _. Status_ok), refund = (\<lambda>_ _. Status_ok)\<rparr>"

definition UpiPaymentStrategy :: PaymentStrategy where
  "UpiPaymentStrategy = \<lparr>strategy_name = ''UPI'',
     authorize = (\<lambda>txn. Result_ok \<lparr>provider = ''UPI'', reference = ''upi_'' @ txn_id txn\<rparr>),
     capture = (\<lambda>_ _. Status_ok), refund = (\<lambda>_ _. Status_ok)\<rparr>"

definition WalletPaymentStrategy :: PaymentStrategy where
  "WalletPaymentStrategy = \<lparr>strategy_name = ''WALLET'',
     authorize = (\<lambda>txn. Result_ok \<lparr>provider = ''WALLET'', reference = ''wlt_'' @ txn_id txn\<rparr>),
     capture = (\<lambda>_ _. Status_ok), refund = (\<lambda>_ _. Status_ok)\<rparr>"

definition NetBankingPaymentStrategy :: PaymentStrategy where
  "NetBankingPaymentStrategy = \<lparr>strategy_name = ''NET_BANKING'',
     authorize = (\<lambda>txn. Result_ok \<lparr>provider = ''NETBANK'', reference = ''nb_'' @ txn_id txn\<rparr>),
     capture = (\<lambda>_ _. Status_ok), refund = (\<lambda>_ _. Status_ok)\<rparr>"

lemmas strategy_defs = CardPaymentStrategy_def UpiPaymentStrategy_def WalletPaymentStrategy_def
  NetBankingPaymentStrategy_def

section \<open>Factory\<close>

type_synonym PaymentStrategyFactory = "PaymentMethod \<rightharpoonup> PaymentStrategy"

definition new_factory :: PaymentStrategyFactory where
  "new_factory = Map.empty(CARD_method \<mapsto> CardPaymentStrategy, UPI \<mapsto> UpiPaymentStrategy,
     WALLET \<mapsto> WalletPaymentStrategy, NET_BANKING \<mapsto> NetBankingPaymentStrategy)"

definition create :: "PaymentStrategyFactory \<Rightarrow> PaymentMethod \<Rightarrow> PaymentStrategy option" where
  "create registry m = (case registry m of None \<Rightarrow> None | Some s \<Rightarrow> Some s)"

lemma create_new_factory:
  "create new_factory m = None \<longleftrightarrow> \<not> named_method m"
  by (cases m) (auto simp: create_def new_factory_def)

lemma create_name:
  "create new_factory m = Some st \<Longrightarrow> strategy_name st = toString_method m"
  by (cases m) (auto simp: create_def new_factory_def strategy_defs)

text \<open>What the service relies on: a strategy that approves and captures whatever it is given.\<close>

definition approving :: "PaymentStrategy \<Rightarrow> bool" where
  "approving st \<longleftrightarrow> (\<forall>t. Result_isOk (authorize st t)) \<and> (\<forall>t r. Status_isOk (capture st t r))"

lemma create_approving: "create new_factory m = Some st \<Longrightarrow> approving st"
  by (cases m) (auto simp: create_def new_factory_def strategy_defs approving_def)

end
