(* ===== verification/Id_Generator.thy ===== *)
theory Id_Generator
  imports Prelude
begin

text \<open>
  \<open>infra/IdGenerator.hpp\<close>: a prefix and an atomic 64-bit counter. \<open>fetch_add\<close> is one atomic step and
  wraps around modulo \<open>2 ^ 64\<close>. Lemmas: the ids of fewer than \<open>2 ^ 64\<close> consecutive calls are
  pairwise distinct.
\<close>

record IdGenerator =
  prefix :: string
  counter :: "64 word"

definition mkIdGenerator :: "string \<Rightarrow> 64 word \<Rightarrow> IdGenerator" where
  "mkIdGenerator p start = \<lparr>prefix = p, counter = start\<rparr>"

definition id_text :: "string \<Rightarrow> 64 word \<Rightarrow> string" where
  "id_text p n = p @ ''_'' @ show_nat (unat n)"

definition next_id :: "IdGenerator \<Rightarrow> string \<times> IdGenerator" where
  "next_id g = (let n = counter g in (id_text (prefix g) n, g\<lparr>counter := n + 1\<rparr>))"

definition nextRaw :: "IdGenerator \<Rightarrow> 64 word \<times> IdGenerator" where
  "nextRaw g = (let n = counter g in (n, g\<lparr>counter := n + 1\<rparr>))"

lemma mkIdGenerator_sel [simp]: "prefix (mkIdGenerator p n) = p" "counter (mkIdGenerator p n) = n"
  by (simp_all add: mkIdGenerator_def)

lemma id_text_inject [simp]: "id_text p m = id_text p n \<longleftrightarrow> m = n"
  by (auto simp: id_text_def intro: unsigned_word_eqI)

lemma next_id_simps [simp]:
  "fst (next_id g) = id_text (prefix g) (counter g)"
  "snd (next_id g) = g\<lparr>counter := counter g + 1\<rparr>"
  by (simp_all add: next_id_def Let_def)

lemma id_text_nonempty [simp]: "id_text p n \<noteq> []"
  by (simp add: id_text_def)

text \<open>A run of calls, whichever threads make them: the atomic increments put them in one order.\<close>

fun next_ids :: "nat \<Rightarrow> IdGenerator \<Rightarrow> string list \<times> IdGenerator" where
  "next_ids 0 g = ([], g)"
| "next_ids (Suc k) g = (let (i, g1) = next_id g; (is, g2) = next_ids k g1 in (i # is, g2))"

lemma next_ids_closed:
  "next_ids k g = (map (\<lambda>i. id_text (prefix g) (counter g + of_nat i)) [0..<k],
                   g\<lparr>counter := counter g + of_nat k\<rparr>)"
proof (induction k arbitrary: g)
  case 0
  then show ?case by simp
next
  case (Suc k)
  show ?case
    by (simp add: next_id_def Let_def Suc map_upt_Suc algebra_simps del: upt_Suc)
qed

lemma of_nat_inj_64: "i < 2 ^ 64 \<Longrightarrow> j < 2 ^ 64 \<Longrightarrow> (of_nat i :: 64 word) = of_nat j \<longleftrightarrow> i = j"
  by (simp add: word_of_nat_eq_iff take_bit_nat_eq_self)

lemma next_ids_distinct: "k \<le> 2 ^ 64 \<Longrightarrow> distinct (fst (next_ids k g))"
  by (auto simp: next_ids_closed distinct_map inj_on_def of_nat_inj_64)

end
