(* ===== verification/Payment_Service.thy ===== *)
theory Payment_Service
  imports Ports State_Machine Validation_Chain Payment_Strategy Id_Generator
begin

text \<open>
  \<open>service/PaymentService.hpp\<close>: the use case \<open>pay\<close>, written over the injected ports. \<open>Service\<close> is
  everything a call can change: the state behind each port, the heap of account objects and the
  counters the service owns. \<open>Wiring\<close> is what the constructor receives and never changes: the
  virtual functions of the ports, the strategy registry and the validation chain.

  \<open>pay\<close> is cut at the comments of the source into stages, each a definition that ends the call or
  hands over to the next. An early \<open>return\<close> ends the call with the state reached; an exception or an
  undefined step does the same, and the lock guard is released on every way out.
\<close>

record PaymentRequest =
  idempotencyKey :: string
  payerAccountId :: string
  payeeAccountId :: string
  amount :: Money
  req_method :: PaymentMethod

record ('ar, 'tr, 'is, 'dl, 'lr, 'ev) Service =
  accounts :: 'ar
  objects :: heap
  transactions :: 'tr
  idempotency :: 'is
  locks :: 'dl
  ledger :: 'lr
  events :: 'ev
  txnIds :: IdGenerator
  entryIds :: IdGenerator
  seq :: int64

record ('ar, 'tr, 'is, 'dl, 'lr, 'ev) Wiring =
  ports :: "('ar, 'tr, 'is, 'dl, 'lr, 'ev) Ports"
  strategies :: PaymentStrategyFactory
  validation :: ValidationChain

definition new_service ::
    "'ar \<Rightarrow> heap \<Rightarrow> 'tr \<Rightarrow> 'is \<Rightarrow> 'dl \<Rightarrow> 'lr \<Rightarrow> 'ev \<Rightarrow> ('ar, 'tr, 'is, 'dl, 'lr, 'ev) Service" where
  "new_service ar h tr ids dl lr ev =
     \<lparr>accounts = ar, objects = h, transactions = tr, idempotency = ids, locks = dl, ledger = lr,
      events = ev, txnIds = mkIdGenerator ''txn'' 1, entryIds = mkIdGenerator ''le'' 1, seq = 1\<rparr>"

section \<open>Private helpers\<close>

definition advance :: "Transaction \<Rightarrow> TxnStatus \<Rightarrow> Transaction" where
  "advance txn to = (if canTransition (txn_status txn) to then setStatus to txn else txn)"

abbreviation quote_char :: char where "quote_char \<equiv> CHR 0x22"

definition event_payload :: "Transaction \<Rightarrow> string" where
  "event_payload txn =
     ''{'' @ [quote_char] @ ''amount'' @ [quote_char] @ '':'' @ [quote_char] @
     Money_toString (txn_amount txn) @
     [quote_char] @ '','' @ [quote_char] @ ''status'' @ [quote_char] @ '':'' @ [quote_char] @
     toString_status (txn_status txn) @ [quote_char] @ ''}''"

definition mkEvent :: "Transaction \<Rightarrow> string \<Rightarrow> DomainEvent" where
  "mkEvent txn ty = \<lparr>event_type = ty, aggregateId = txn_id txn, payload = event_payload txn,
     occurredAtEpoch = txn_createdAtEpoch txn\<rparr>"

definition publish_event ::
    "('ar, 'tr, 'is, 'dl, 'lr, 'ev) Ports \<Rightarrow> Transaction \<Rightarrow> string
     \<Rightarrow> ('ar, 'tr, 'is, 'dl, 'lr, 'ev) Service \<Rightarrow> ('ar, 'tr, 'is, 'dl, 'lr, 'ev) Service" where
  "publish_event P txn ty s = s\<lparr>events := events_publish P (mkEvent txn ty) (events s)\<rparr>"

definition fail_txn ::
    "('ar, 'tr, 'is, 'dl, 'lr, 'ev) Ports \<Rightarrow> Transaction \<Rightarrow> ErrorCode \<Rightarrow> string
     \<Rightarrow> ('ar, 'tr, 'is, 'dl, 'lr, 'ev) Service
     \<Rightarrow> Transaction Result outcome \<times> ('ar, 'tr, 'is, 'dl, 'lr, 'ev) Service" where
  "fail_txn P txn c msg s =
     (let txn = advance txn FAILED;
          s = s\<lparr>transactions := transactions_save P txn (transactions s)\<rparr>;
          s = publish_event P txn ''PaymentFailed'' s
      in (Returns (Result_fail c msg), s))"

text \<open>A method call through a \<open>shared_ptr<Account>\<close>.\<close>

definition debit_at :: "addr \<Rightarrow> Money \<Rightarrow> heap \<Rightarrow> (Status \<times> heap) outcome" where
  "debit_at p amt h = (case h p of None \<Rightarrow> Undefined
     | Some a \<Rightarrow> obind (debit amt a) (\<lambda>(st, a'). Returns (st, h(p \<mapsto> a'))))"

definition credit_at :: "addr \<Rightarrow> Money \<Rightarrow> heap \<Rightarrow> (Status \<times> heap) outcome" where
  "credit_at p amt h = (case h p of None \<Rightarrow> Undefined
     | Some a \<Rightarrow> obind (credit amt a) (\<lambda>(st, a'). Returns (st, h(p \<mapsto> a'))))"

section \<open>The stages of pay\<close>

text \<open>Capture: ask the strategy, advance to \<open>CAPTURED\<close>, persist, publish.\<close>

definition capture_payment ::
    "('ar, 'tr, 'is, 'dl, 'lr, 'ev) Ports \<Rightarrow> PaymentStrategy \<Rightarrow> GatewayRef \<Rightarrow> Transaction
     \<Rightarrow> ('ar, 'tr, 'is, 'dl, 'lr, 'ev) Service
     \<Rightarrow> Transaction Result outcome \<times> ('ar, 'tr, 'is, 'dl, 'lr, 'ev) Service" where
  "capture_payment P strategy auth txn s =
     (let c = capture strategy txn auth
      in if Status_isErr c then fail_txn P txn (error_code (err c)) (error_message (err c)) s
         else
           let txn = advance txn CAPTURED;
               s = s\<lparr>transactions := transactions_save P txn (transactions s)\<rparr>;
               s = publish_event P txn ''PaymentCaptured'' s
           in (Returns (Result_ok txn), s))"

text \<open>Double entry: post the balanced pair; on rejection undo the balances and fail.\<close>

definition mkPosting :: "PaymentRequest \<Rightarrow> string \<Rightarrow> string \<Rightarrow> string \<Rightarrow> int64 \<Rightarrow> LedgerEntry list" where
  "mkPosting req txnId e1 e2 n =
     [mkLedgerEntry e1 txnId (payerAccountId req) DEBIT (amount req) n,
      mkLedgerEntry e2 txnId (payeeAccountId req) CREDIT (amount req) (n + 1)]"

definition post_payment ::
    "('ar, 'tr, 'is, 'dl, 'lr, 'ev) Ports \<Rightarrow> PaymentRequest \<Rightarrow> addr \<Rightarrow> addr \<Rightarrow> PaymentStrategy \<Rightarrow> GatewayRef
     \<Rightarrow> Transaction \<Rightarrow> ('ar, 'tr, 'is, 'dl, 'lr, 'ev) Service
     \<Rightarrow> Transaction Result outcome \<times> ('ar, 'tr, 'is, 'dl, 'lr, 'ev) Service" where
  "post_payment P req payer payee strategy auth txn s =
     (let (e1, g1) = next_id (entryIds s);
          (e2, g2) = next_id g1;
          posting = mkPosting req (txn_id txn) e1 e2 (seq s);
          s = s\<lparr>entryIds := g2, seq := seq s + 2\<rparr>
      in with_outcome (ledger_post P posting (ledger s)) (\<lambda>(p, l) s.
           let s = s\<lparr>ledger := l\<rparr>
           in if Status_isErr p
              then with_outcome (credit_at payer (amount req) (objects s)) (\<lambda>(_, h) s.
                   let s = s\<lparr>objects := h\<rparr>
                   in with_outcome (debit_at payee (amount req) (objects s)) (\<lambda>(_, h) s.
                        fail_txn P txn (error_code (err p)) (error_message (err p)) (s\<lparr>objects := h\<rparr>)) s) s
              else capture_payment P strategy auth txn s) s)"

text \<open>Move the money: guarded debit of the payer, then credit of the payee, whose status is dropped.\<close>

definition move_money ::
    "('ar, 'tr, 'is, 'dl, 'lr, 'ev) Ports \<Rightarrow> PaymentRequest \<Rightarrow> addr \<Rightarrow> addr \<Rightarrow> PaymentStrategy \<Rightarrow> GatewayRef
     \<Rightarrow> Transaction \<Rightarrow> ('ar, 'tr, 'is, 'dl, 'lr, 'ev) Service
     \<Rightarrow> Transaction Result outcome \<times> ('ar, 'tr, 'is, 'dl, 'lr, 'ev) Service" where
  "move_money P req payer payee strategy auth txn s =
     with_outcome (debit_at payer (amount req) (objects s)) (\<lambda>(d, h) s.
       let s = s\<lparr>objects := h\<rparr>
       in if Status_isErr d then fail_txn P txn (error_code (err d)) (error_message (err d)) s
          else with_outcome (credit_at payee (amount req) (objects s)) (\<lambda>(_, h) s.
            post_payment P req payer payee strategy auth txn (s\<lparr>objects := h\<rparr>)) s) s"

text \<open>Everything under the payer's lock.\<close>

definition process_payment ::
    "('ar, 'tr, 'is, 'dl, 'lr, 'ev) Wiring \<Rightarrow> PaymentRequest \<Rightarrow> Transaction
     \<Rightarrow> ('ar, 'tr, 'is, 'dl, 'lr, 'ev) Service
     \<Rightarrow> Transaction Result outcome \<times> ('ar, 'tr, 'is, 'dl, 'lr, 'ev) Service" where
  "process_payment W req txn s =
     with_outcome (run (validation W) txn) (\<lambda>v s.
       if Status_isErr v then fail_txn (ports W) txn (error_code (err v)) (error_message (err v)) s
       else case accounts_find (ports W) (payerAccountId req) (accounts s) of
         None \<Rightarrow> fail_txn (ports W) txn ACCOUNT_NOT_FOUND ''payer not found'' s
       | Some payer \<Rightarrow> (case accounts_find (ports W) (payeeAccountId req) (accounts s) of
         None \<Rightarrow> fail_txn (ports W) txn ACCOUNT_NOT_FOUND ''payee not found'' s
       | Some payee \<Rightarrow> (case create (strategies W) (req_method req) of
         None \<Rightarrow> fail_txn (ports W) txn VALIDATION_FAILED ''unsupported payment method'' s
       | Some strategy \<Rightarrow> (case authorize strategy txn of
         Result_err e \<Rightarrow> fail_txn (ports W) txn (error_code e) (error_message e) s
       | Result_ok auth \<Rightarrow>
           move_money (ports W) req payer payee strategy auth (advance txn AUTHORIZED) s)))) s"

text \<open>A key that is already claimed: replay the stored transaction or report the duplicate.\<close>

definition replay ::
    "('ar, 'tr, 'is, 'dl, 'lr, 'ev) Ports \<Rightarrow> PaymentRequest
     \<Rightarrow> ('ar, 'tr, 'is, 'dl, 'lr, 'ev) Service \<Rightarrow> Transaction Result" where
  "replay P req s =
     (case idempotency_get P (idempotencyKey req) (idempotency s) of
        Some existingId \<Rightarrow> (case transactions_find P existingId (transactions s) of
            Some prior \<Rightarrow> Result_ok prior
          | None \<Rightarrow> Result_fail DUPLICATE_REQUEST
              (''duplicate request for idempotency key: '' @ idempotencyKey req))
      | None \<Rightarrow> Result_fail DUPLICATE_REQUEST
          (''duplicate request for idempotency key: '' @ idempotencyKey req))"

definition request_builder :: "PaymentRequest \<Rightarrow> string \<Rightarrow> Builder" where
  "request_builder req txnId =
     set_method (req_method req) (set_amount (amount req) (set_payee (payeeAccountId req)
       (set_payer (payerAccountId req) (set_idempotencyKey (idempotencyKey req) (set_id txnId new_builder)))))"

definition lock_key :: "PaymentRequest \<Rightarrow> string" where
  "lock_key req = ''account:'' @ payerAccountId req"

text \<open>From \<open>acquire\<close> to the end of the guard's scope.\<close>

definition locked_payment ::
    "('ar, 'tr, 'is, 'dl, 'lr, 'ev) Wiring \<Rightarrow> PaymentRequest \<Rightarrow> Transaction
     \<Rightarrow> ('ar, 'tr, 'is, 'dl, 'lr, 'ev) Service
     \<Rightarrow> Transaction Result outcome \<times> ('ar, 'tr, 'is, 'dl, 'lr, 'ev) Service" where
  "locked_payment W req txn s =
     (case locks_acquire (ports W) (lock_key req) (locks s) of
        None \<Rightarrow> (Blocks, s)
      | Some dl \<Rightarrow>
          let (res, s) = process_payment W req txn (s\<lparr>locks := dl\<rparr>)
          in (res, s\<lparr>locks := locks_release (ports W) (lock_key req) (locks s)\<rparr>))"

definition pay ::
    "('ar, 'tr, 'is, 'dl, 'lr, 'ev) Wiring \<Rightarrow> int64 \<Rightarrow> PaymentRequest
     \<Rightarrow> ('ar, 'tr, 'is, 'dl, 'lr, 'ev) Service
     \<Rightarrow> Transaction Result outcome \<times> ('ar, 'tr, 'is, 'dl, 'lr, 'ev) Service" where
  "pay W now req s =
     (let (txnId, g) = next_id (txnIds s);
          s = s\<lparr>txnIds := g\<rparr>;
          (won, ids) = idempotency_putIfAbsent (ports W) (idempotencyKey req) txnId (idempotency s);
          s = s\<lparr>idempotency := ids\<rparr>
      in if \<not> won then (Returns (replay (ports W) req s), s)
         else with_outcome (build now (request_builder req txnId)) (locked_payment W req) s)"

text \<open>A history of calls, one after the other.\<close>

fun pays ::
    "('ar, 'tr, 'is, 'dl, 'lr, 'ev) Wiring \<Rightarrow> (int64 \<times> PaymentRequest) list
     \<Rightarrow> ('ar, 'tr, 'is, 'dl, 'lr, 'ev) Service
     \<Rightarrow> Transaction Result outcome list \<times> ('ar, 'tr, 'is, 'dl, 'lr, 'ev) Service" where
  "pays W [] s = ([], s)"
| "pays W ((now, req) # rs) s =
     (let (r, s1) = pay W now req s; (out, s2) = pays W rs s1 in (r # out, s2))"

end
