(* ===== verification/Payment_Contract.thy ===== *)
theory Payment_Contract
  imports Payment_Service
begin

text \<open>
  The service proved once against its interfaces. The locale \<open>payment_service\<close> assumes the laws of the
  ports and nothing else about the adapters; inside it every way \<open>pay\<close> can end is characterised by
  the state it leaves (\<open>process_cases\<close>, \<open>pay_cases\<close>), and the four guarantees of the design documents
  are derived from that.
\<close>

section \<open>Moving money in the heap\<close>

definition transferred :: "addr \<Rightarrow> addr \<Rightarrow> Money \<Rightarrow> heap \<Rightarrow> heap \<Rightarrow> bool" where
  "transferred p q amt h h2 \<longleftrightarrow>
     (\<exists>st h1 cst. debit_at p amt h = Returns (st, h1) \<and> Status_isOk st \<and> credit_at q amt h1 = Returns (cst, h2))"

lemma debit_at_ok:
  "debit_at p amt h = Returns (st, h1) \<and> Status_isOk st \<longleftrightarrow>
     (\<exists>a a'. h p = Some a \<and> debit amt a = Returns (st, a') \<and> Status_isOk st \<and> h1 = h(p \<mapsto> a'))"
  by (auto simp: debit_at_def outcome_simps split: option.splits)

lemma debit_at_err: "debit_at p amt h = Returns (st, h1) \<Longrightarrow> Status_isErr st \<Longrightarrow> h1 = h"
  by (auto simp: debit_at_def outcome_simps fun_upd_idem dest!: debit_err_unchanged split: option.splits)

lemma debit_at_total: "h p = Some a \<Longrightarrow> \<exists>st h1. debit_at p amt h = Returns (st, h1)"
  using debit_total [of amt a] by (auto simp: debit_at_def)

lemma credit_at_cases:
  assumes "h q = Some b"
  obtains (overflow) "credit_at q amt h = Undefined" "credit amt b = Undefined"
  | (called) cst b' where "credit_at q amt h = Returns (cst, h(q \<mapsto> b'))" "credit amt b = Returns (cst, b')"
  using assms credit_never_throws [of amt b]
  by (cases "credit amt b") (auto simp: credit_at_def intro: that)

text \<open>The pair of postings is balanced, and its running sum fits, for every amount a debit accepts.\<close>

lemma mkPosting_balanced:
  assumes "0 \<le> units (amount req)"
  shows "balanced (mkPosting req t e1 e2 n) \<and> sums_fit 0 (mkPosting req t e1 e2 n)"
  using assms in_int64_neg [of "minorUnits (amount req)"]
  by (auto simp: mkPosting_def balanced_def posting_currency_def signed_units_def)

lemma advance_INITIATED:
  "txn_status txn = INITIATED \<Longrightarrow> advance txn AUTHORIZED = setStatus AUTHORIZED txn"
  "txn_status txn = INITIATED \<Longrightarrow> advance txn FAILED = setStatus FAILED txn"
  by (simp_all add: advance_def canTransition_lifecycle)

lemma advance_AUTHORIZED:
  "advance (setStatus AUTHORIZED txn) CAPTURED = setStatus CAPTURED txn"
  "advance (setStatus AUTHORIZED txn) FAILED = setStatus FAILED txn"
  by (simp_all add: advance_def canTransition_lifecycle setStatus_def)

text \<open>The states in which \<open>pay\<close> leaves the service, as functions of the state before.\<close>

definition failed_state ::
    "('ar, 'tr, 'is, 'dl, 'lr, 'ev) Ports \<Rightarrow> Transaction
     \<Rightarrow> ('ar, 'tr, 'is, 'dl, 'lr, 'ev) Service \<Rightarrow> ('ar, 'tr, 'is, 'dl, 'lr, 'ev) Service" where
  "failed_state P txn s =
     s\<lparr>transactions := transactions_save P (setStatus FAILED txn) (transactions s),
       events := events_publish P (mkEvent (setStatus FAILED txn) ''PaymentFailed'') (events s)\<rparr>"

definition captured_state ::
    "('ar, 'tr, 'is, 'dl, 'lr, 'ev) Ports \<Rightarrow> Transaction
     \<Rightarrow> ('ar, 'tr, 'is, 'dl, 'lr, 'ev) Service \<Rightarrow> ('ar, 'tr, 'is, 'dl, 'lr, 'ev) Service" where
  "captured_state P txn s =
     s\<lparr>transactions := transactions_save P (setStatus CAPTURED txn) (transactions s),
       events := events_publish P (mkEvent (setStatus CAPTURED txn) ''PaymentCaptured'') (events s)\<rparr>"

definition posted_state ::
    "heap \<Rightarrow> 'lr \<Rightarrow> ('ar, 'tr, 'is, 'dl, 'lr, 'ev) Service \<Rightarrow> ('ar, 'tr, 'is, 'dl, 'lr, 'ev) Service" where
  "posted_state h l s =
     s\<lparr>objects := h, entryIds := snd (next_id (snd (next_id (entryIds s)))), seq := seq s + 2, ledger := l\<rparr>"

definition payment_posting ::
    "PaymentRequest \<Rightarrow> Transaction \<Rightarrow> ('ar, 'tr, 'is, 'dl, 'lr, 'ev) Service \<Rightarrow> LedgerEntry list" where
  "payment_posting req txn s =
     mkPosting req (txn_id txn) (fst (next_id (entryIds s))) (fst (next_id (snd (next_id (entryIds s))))) (seq s)"

lemma fail_txn_state:
  assumes "txn_status txn = INITIATED"
  shows "fail_txn P txn c m s = (Returns (Result_fail c m), failed_state P txn s)"
    and "fail_txn P (setStatus AUTHORIZED txn) c m s = (Returns (Result_fail c m), failed_state P txn s)"
  using assms
  by (simp_all add: fail_txn_def advance_INITIATED advance_AUTHORIZED failed_state_def publish_event_def Let_def)

lemma capture_payment_cases:
  obtains (declined) "Status_isErr (capture strategy (setStatus AUTHORIZED txn) auth)"
      "capture_payment P strategy auth (setStatus AUTHORIZED txn) s =
         fail_txn P (setStatus AUTHORIZED txn) (error_code (err (capture strategy (setStatus AUTHORIZED txn) auth)))
           (error_message (err (capture strategy (setStatus AUTHORIZED txn) auth))) s"
  | (captured) "Status_isOk (capture strategy (setStatus AUTHORIZED txn) auth)"
      "capture_payment P strategy auth (setStatus AUTHORIZED txn) s =
         (Returns (Result_ok (setStatus CAPTURED txn)), captured_state P txn s)"
  by (cases "Status_isErr (capture strategy (setStatus AUTHORIZED txn) auth)")
    (auto simp: capture_payment_def advance_AUTHORIZED captured_state_def publish_event_def Status_isErr_def
      Let_def intro: that)

text \<open>Validated, and with a strategy for its method.\<close>

definition admitted :: "('ar, 'tr, 'is, 'dl, 'lr, 'ev) Wiring \<Rightarrow> PaymentRequest \<Rightarrow> Transaction \<Rightarrow> bool" where
  "admitted W req txn \<longleftrightarrow> run (validation W) txn = Returns Status_ok \<and> create (strategies W) (req_method req) \<noteq> None"

definition approves :: "PaymentStrategyFactory \<Rightarrow> PaymentMethod \<Rightarrow> bool" where
  "approves registry m \<longleftrightarrow> (\<forall>strategy. create registry m = Some strategy \<longrightarrow> approving strategy)"

section \<open>The contract\<close>

locale payment_service =
  ar: account_repository "accounts_find P" acc_save acc_view +
  tr: transaction_repository "transactions_find P" "transactions_save P" txn_view txn_inv +
  keys: idempotency_store "idempotency_get P" "idempotency_putIfAbsent P" key_view +
  dl: distributed_lock "locks_acquire P" "locks_release P" held +
  lr: ledger_repository "ledger_post P" entriesFor journal +
  ev: event_publisher "events_publish P" log
  for P :: "('ar, 'tr, 'is, 'dl, 'lr, 'ev) Ports"
    and acc_save :: "heap \<Rightarrow> addr \<Rightarrow> 'ar \<Rightarrow> 'ar outcome"
    and acc_view :: "'ar \<Rightarrow> (string \<rightharpoonup> addr)"
    and txn_view :: "'tr \<Rightarrow> (string \<rightharpoonup> Transaction)"
    and txn_inv :: "'tr \<Rightarrow> bool"
    and key_view :: "'is \<Rightarrow> (string \<rightharpoonup> string)"
    and held :: "'dl \<Rightarrow> string set"
    and entriesFor :: "string \<Rightarrow> 'lr \<Rightarrow> LedgerEntry list"
    and journal :: "'lr \<Rightarrow> LedgerEntry list"
    and log :: "'ev \<Rightarrow> DomainEvent list"
begin

text \<open>The ledger accepts the posting of every accepted debit: the compensation is never run.\<close>

lemma ledger_accepts:
  assumes "0 \<le> units (amount req)"
  obtains l' where "ledger_post P (mkPosting req t e1 e2 n) l = Returns (Status_ok, l')"
    and "journal l' = journal l @ mkPosting req t e1 e2 n"
proof -
  note b = mkPosting_balanced [OF assms, of t e1 e2 n]
  with lr.post_accepts obtain l' where l': "ledger_post P (mkPosting req t e1 e2 n) l = Returns (Status_ok, l')"
    by blast
  with lr.post_ok [OF l'] show ?thesis by (intro that [of l']) simp_all
qed

lemma post_payment_captures:
  assumes "0 \<le> units (amount req)"
  obtains l' where "journal l' = journal (ledger s) @ payment_posting req txn s"
    and "post_payment P req p q strategy auth txn (s\<lparr>objects := h\<rparr>) =
         capture_payment P strategy auth txn (posted_state h l' s)"
proof -
  obtain l' where l': "ledger_post P (payment_posting req txn s) (ledger s) = Returns (Status_ok, l')"
    "journal l' = journal (ledger s) @ payment_posting req txn s"
    unfolding payment_posting_def using ledger_accepts [OF assms] by metis
  then show ?thesis
    by (intro that [of l'])
      (simp_all add: post_payment_def payment_posting_def posted_state_def next_id_def Let_def)
qed

text \<open>Moving the money: refused by the debit, undefined by an overflow of the payee, or moved and posted.\<close>

lemma move_money_cases:
  assumes init: "txn_status txn = INITIATED"
    and live: "objects s p = Some a" "objects s q = Some b"
  obtains (refused) c m where
      "move_money P req p q strategy auth (setStatus AUTHORIZED txn) s = (Returns (Result_fail c m), failed_state P txn s)"
  | (overflow) h1 where "debit_at p (amount req) (objects s) = Returns (Status_ok, h1)"
      "credit_at q (amount req) h1 = Undefined"
      "move_money P req p q strategy auth (setStatus AUTHORIZED txn) s = (Undefined, s\<lparr>objects := h1\<rparr>)"
  | (declined) h2 l' c m where "\<not> approving strategy" "transferred p q (amount req) (objects s) h2"
      "journal l' = journal (ledger s) @ payment_posting req txn s"
      "move_money P req p q strategy auth (setStatus AUTHORIZED txn) s =
         (Returns (Result_fail c m), failed_state P txn (posted_state h2 l' s))"
  | (captured) h2 l' where "transferred p q (amount req) (objects s) h2"
      "journal l' = journal (ledger s) @ payment_posting req txn s"
      "move_money P req p q strategy auth (setStatus AUTHORIZED txn) s =
         (Returns (Result_ok (setStatus CAPTURED txn)), captured_state P txn (posted_state h2 l' s))"
proof -
  obtain st h1 where d: "debit_at p (amount req) (objects s) = Returns (st, h1)"
    using debit_at_total [of "objects s" p a "amount req"] live(1) by blast
  show ?thesis
  proof (cases "Status_isErr st")
    case True
    with d have "h1 = objects s" using debit_at_err by blast
    with True d refused show ?thesis by (simp add: move_money_def fail_txn_state init)
  next
    case False
    then have ok: "Status_isOk st" by (simp add: Status_isErr_def)
    with d obtain a' where a': "debit (amount req) a = Returns (st, a')" "h1 = (objects s)(p \<mapsto> a')"
      using live(1) by (auto simp: debit_at_def outcome_simps)
    from ok a'(1) have st: "st = Status_ok" and pos: "0 \<le> units (amount req)"
      using debit_Returns_ok [of "amount req" a st a'] by simp_all
    obtain b' where b': "h1 q = Some b'" using a'(2) live(2) by (cases "q = p") auto
    show ?thesis
    proof (rule credit_at_cases [of h1 q b' "amount req"])
      show "h1 q = Some b'" by (fact b')
    next
      assume u: "credit_at q (amount req) h1 = Undefined"
      show ?thesis using overflow [of h1] d st u by (simp add: move_money_def)
    next
      fix cst b2
      assume c: "credit_at q (amount req) h1 = Returns (cst, h1(q \<mapsto> b2))"
      let ?h2 = "h1(q \<mapsto> b2)"
      have tr: "transferred p q (amount req) (objects s) ?h2"
        unfolding transferred_def using d c ok by blast
      obtain l' where l': "journal l' = journal (ledger s) @ payment_posting req (setStatus AUTHORIZED txn) s"
        "post_payment P req p q strategy auth (setStatus AUTHORIZED txn) (s\<lparr>objects := ?h2\<rparr>) =
           capture_payment P strategy auth (setStatus AUTHORIZED txn) (posted_state ?h2 l' s)"
        using post_payment_captures [OF pos] by metis
      have j: "journal l' = journal (ledger s) @ payment_posting req txn s"
        using l'(1) by (simp add: payment_posting_def)
      have m: "move_money P req p q strategy auth (setStatus AUTHORIZED txn) s =
                 capture_payment P strategy auth (setStatus AUTHORIZED txn) (posted_state ?h2 l' s)"
        using d c st l'(2) by (simp add: move_money_def)
      have na: "\<not> approving strategy" if "Status_isErr (capture strategy (setStatus AUTHORIZED txn) auth)"
        using that by (auto simp: approving_def Status_isErr_def)
      show ?thesis
        by (rule capture_payment_cases [of strategy txn auth P "posted_state ?h2 l' s"])
          (use m tr j na declined captured in \<open>simp_all add: fail_txn_state init\<close>)
    qed
  qed
qed

text \<open>Everything under the lock.\<close>

lemma process_cases:
  assumes W: "ports W = P" and init: "txn_status txn = INITIATED"
    and reg: "registered (objects s) (acc_view (accounts s))"
  obtains (threw) "\<And>r. run (validation W) txn \<noteq> Returns r"
      "\<And>r. fst (process_payment W req txn s) \<noteq> Returns r" "snd (process_payment W req txn s) = s"
      "fst (process_payment W req txn s) = Undefined \<Longrightarrow> run (validation W) txn = Undefined"
  | (refused) c m where "process_payment W req txn s = (Returns (Result_fail c m), failed_state P txn s)"
  | (overflow) p q h1 where
      "acc_view (accounts s) (payerAccountId req) = Some p" "acc_view (accounts s) (payeeAccountId req) = Some q"
      "debit_at p (amount req) (objects s) = Returns (Status_ok, h1)"
      "credit_at q (amount req) h1 = Undefined"
      "process_payment W req txn s = (Undefined, s\<lparr>objects := h1\<rparr>)"
  | (declined) p q h2 l' c m where "\<not> approves (strategies W) (req_method req)"
      "acc_view (accounts s) (payerAccountId req) = Some p" "acc_view (accounts s) (payeeAccountId req) = Some q"
      "transferred p q (amount req) (objects s) h2"
      "journal l' = journal (ledger s) @ payment_posting req txn s"
      "process_payment W req txn s = (Returns (Result_fail c m), failed_state P txn (posted_state h2 l' s))"
  | (captured) p q h2 l' where "admitted W req txn"
      "acc_view (accounts s) (payerAccountId req) = Some p" "acc_view (accounts s) (payeeAccountId req) = Some q"
      "transferred p q (amount req) (objects s) h2"
      "journal l' = journal (ledger s) @ payment_posting req txn s"
      "process_payment W req txn s =
         (Returns (Result_ok (setStatus CAPTURED txn)), captured_state P txn (posted_state h2 l' s))"
proof (cases "run (validation W) txn")
  case (Returns v)
  note run = Returns
  show ?thesis
  proof (cases "Status_isErr v")
    case True
    with run refused show ?thesis by (simp add: process_payment_def W fail_txn_state init)
  next
    case ok: False
    show ?thesis
    proof (cases "accounts_find P (payerAccountId req) (accounts s)")
      case None
      with run ok refused show ?thesis by (simp add: process_payment_def W fail_txn_state init)
    next
      case (Some p)
      note p = Some
      show ?thesis
      proof (cases "accounts_find P (payeeAccountId req) (accounts s)")
        case None
        with run ok p refused show ?thesis by (simp add: process_payment_def W fail_txn_state init)
      next
        case (Some q)
        note q = Some
        show ?thesis
        proof (cases "create (strategies W) (req_method req)")
          case None
          with run ok p q refused show ?thesis by (simp add: process_payment_def W fail_txn_state init)
        next
          case (Some strategy)
          note strategy = Some
          show ?thesis
          proof (cases "authorize strategy txn")
            case (Result_err e)
            with run ok p q strategy refused show ?thesis
              by (simp add: process_payment_def W fail_txn_state init)
          next
            case (Result_ok auth)
            obtain a b where live: "objects s p = Some a" "objects s q = Some b"
              using ar.registered_find [OF reg p] ar.registered_find [OF reg q] by blast
            have eq: "process_payment W req txn s =
                        move_money P req p q strategy auth (setStatus AUTHORIZED txn) s"
              using run ok p q strategy Result_ok
              by (simp add: process_payment_def W advance_INITIATED init)
            note pq = p [unfolded ar.find_view] q [unfolded ar.find_view]
            have adm: "admitted W req txn"
              using run ok strategy run_Returns_ok [OF run] by (simp add: admitted_def Status_isErr_def)
            show ?thesis
              by (rule move_money_cases [OF init live, of req strategy auth])
                (use eq pq adm strategy refused overflow declined captured in \<open>auto simp: approves_def\<close>)
          qed
        qed
      qed
    qed
  qed
qed (use threw in \<open>simp_all add: process_payment_def\<close>)

end

end
