(* ===== verification/Conservation.thy ===== *)
theory Conservation
  imports Payment_Contract
begin

text \<open>
  Money in the heap of account objects. \<open>total c h\<close> is what all accounts together hold in currency
  \<open>c\<close>, \<open>shape\<close> is what no payment changes (which objects exist, their ids, types and currencies).
  The lemmas say what a transfer does to the holding of every single account, hence to the total,
  and that it overflows no balance as long as the total is representable.
\<close>

definition holding :: "Currency \<Rightarrow> Account option \<Rightarrow> int" where
  "holding c x = (case x of None \<Rightarrow> 0 | Some a \<Rightarrow> if account_currency a = c then funds a else 0)"

definition total :: "Currency \<Rightarrow> heap \<Rightarrow> int" where
  "total c h = (\<Sum>p \<in> dom h. holding c (h p))"

definition shape :: "heap \<Rightarrow> addr \<Rightarrow> (string \<times> AccountType \<times> Currency) option" where
  "shape h p = map_option (\<lambda>a. (account_id a, account_type a, account_currency a)) (h p)"

definition solvent :: "heap \<Rightarrow> bool" where
  "solvent h \<longleftrightarrow> (\<forall>p a. h p = Some a \<longrightarrow> 0 \<le> funds a)"

definition in_currency :: "Currency \<Rightarrow> Money \<Rightarrow> int" where
  "in_currency c m = (if currency m = c then units m else 0)"

lemma holding_simps [simp]:
  "holding c None = 0" "holding c (Some a) = (if account_currency a = c then funds a else 0)"
  by (simp_all add: holding_def)

lemma solvent_holding: "solvent h \<Longrightarrow> 0 \<le> holding c (h p)"
  by (cases "h p") (simp_all add: solvent_def)

lemma holding_le_total:
  assumes "finite (dom h)" "solvent h" "h p = Some a" "account_currency a = c"
  shows "funds a \<le> total c h"
proof -
  have "holding c (h p) \<le> (\<Sum>p \<in> dom h. holding c (h p))"
    using assms by (intro member_le_sum) (auto simp: solvent_holding)
  with assms show ?thesis by (simp add: total_def)
qed

lemma total_nonneg: "solvent h \<Longrightarrow> 0 \<le> total c h"
  unfolding total_def by (rule sum_nonneg) (rule solvent_holding)

text \<open>Changing one account moves the total by the change of its holding.\<close>

lemma total_update:
  assumes "finite (dom h)" "h p = Some a"
  shows "total c (h(p \<mapsto> a')) = total c h + holding c (Some a') - holding c (Some a)"
proof -
  have d: "dom (h(p \<mapsto> a')) = dom h" using assms(2) by auto
  have "total c h = holding c (h p) + (\<Sum>r \<in> dom h - {p}. holding c (h r))"
    unfolding total_def using assms by (intro sum.remove) auto
  moreover have "total c (h(p \<mapsto> a')) = holding c (Some a') + (\<Sum>r \<in> dom h - {p}. holding c ((h(p \<mapsto> a')) r))"
    unfolding total_def d using assms by (subst sum.remove [of _ p]) auto
  moreover have "(\<Sum>r \<in> dom h - {p}. holding c ((h(p \<mapsto> a')) r)) = (\<Sum>r \<in> dom h - {p}. holding c (h r))"
    by (intro sum.cong) auto
  ultimately show ?thesis using assms(2) by simp
qed

lemma shape_update:
  "h p = Some a \<Longrightarrow> account_id a' = account_id a \<Longrightarrow> account_type a' = account_type a \<Longrightarrow>
   account_currency a' = account_currency a \<Longrightarrow> shape (h(p \<mapsto> a')) = shape h"
  by (auto simp: shape_def fun_eq_iff)

lemma shape_dom: "shape h = shape h' \<Longrightarrow> dom h = dom h'"
proof -
  assume eq: "shape h = shape h'"
  have "h p = None \<longleftrightarrow> h' p = None" for p
    using fun_cong [OF eq, of p] by (auto simp: shape_def)
  then show ?thesis by (auto simp: dom_def)
qed

lemma shape_Some:
  assumes "shape h' = shape h" "h p = Some a"
  obtains a' where "h' p = Some a'" "account_id a' = account_id a" "account_currency a' = account_currency a"
proof -
  from fun_cong [OF assms(1), of p] assms(2)
  have "map_option (\<lambda>a. (account_id a, account_type a, account_currency a)) (h' p) =
        Some (account_id a, account_type a, account_currency a)" by (simp add: shape_def)
  then show ?thesis using that by auto
qed

section \<open>One debit, one credit\<close>

lemma debit_at_effect:
  assumes "debit_at p amt h = Returns (st, h1)" "Status_isOk st"
  obtains a where "h p = Some a" "account_currency a = currency amt" "0 \<le> units amt" "units amt \<le> funds a"
    "shape h1 = shape h" "\<And>r c. holding c (h1 r) = holding c (h r) - (if r = p then in_currency c amt else 0)"
    "solvent h \<Longrightarrow> solvent h1"
    "\<And>c. finite (dom h) \<Longrightarrow> total c h1 = total c h - in_currency c amt"
proof -
  obtain a a' where a: "h p = Some a" "debit amt a = Returns (st, a')" "h1 = h(p \<mapsto> a')"
    using assms debit_at_ok [of p amt h st h1] by blast
  with assms(2) debit_Returns_ok [of amt a st a'] have e:
    "currency amt = account_currency a" "0 \<le> units amt" "units amt \<le> funds a" "account_id a' = account_id a"
    "account_type a' = account_type a" "account_currency a' = account_currency a" "funds a' = funds a - units amt"
    by simp_all
  show ?thesis
  proof (rule that [of a])
    show "shape h1 = shape h" using a e by (simp add: shape_update)
    show "solvent h1" if "solvent h" using that a e by (auto simp: solvent_def)
    show "total c h1 = total c h - in_currency c amt" if "finite (dom h)" for c
      using total_update [OF that a(1), of c a'] a(3) e by (auto simp: in_currency_def)
  qed (use a e in \<open>auto simp: in_currency_def\<close>)
qed

text \<open>A credit whose status is dropped: it takes effect exactly when the currencies agree.\<close>

lemma credit_at_effect:
  assumes "credit_at q amt h = Returns (st, h1)" "0 \<le> units amt"
  obtains b where "h q = Some b" "shape h1 = shape h"
    "\<And>r c. holding c (h1 r) = holding c (h r) + (if r = q \<and> account_currency b = currency amt then in_currency c amt else 0)"
    "solvent h \<Longrightarrow> solvent h1"
    "\<And>c. finite (dom h) \<Longrightarrow>
       total c h1 = total c h + (if account_currency b = currency amt then in_currency c amt else 0)"
proof -
  obtain b b' where b: "h q = Some b" "credit amt b = Returns (st, b')" "h1 = h(q \<mapsto> b')"
    using assms(1) by (auto simp: credit_at_def outcome_simps split: option.splits)
  have e: "account_id b' = account_id b" "account_type b' = account_type b" "account_currency b' = account_currency b"
    "funds b' = funds b + (if account_currency b = currency amt then units amt else 0)"
    using b(2) assms(2) by (rule_tac credit_cases [of amt b]; auto)+
  show ?thesis
  proof (rule that [of b])
    show "shape h1 = shape h" using b e by (simp add: shape_update)
    show "solvent h1" if "solvent h" using that b e assms(2) by (auto simp: solvent_def)
    show "total c h1 = total c h + (if account_currency b = currency amt then in_currency c amt else 0)"
      if "finite (dom h)" for c
      using total_update [OF that b(1), of c b'] b(3) e by (auto simp: in_currency_def)
  qed (use b e in \<open>auto simp: in_currency_def\<close>)
qed

lemma credit_at_overflow:
  assumes "credit_at q amt h = Undefined" "h q = Some b" "0 \<le> units amt"
  shows "account_currency b = currency amt \<and> int64_max < funds b + units amt"
proof (rule credit_cases [of amt b])
  assume "\<not> in_int64 (funds b + units amt)" "currency amt = account_currency b"
  moreover have "int64_min \<le> funds b + units amt"
    using sint_int64_range(1) [of "minorUnits (balance b)"] assms(3) by linarith
  ultimately show ?thesis by (simp add: in_int64_def)
qed (use assms in \<open>simp_all add: credit_at_def\<close>)

section \<open>The transfer\<close>

definition same_currency :: "heap \<Rightarrow> addr \<Rightarrow> Money \<Rightarrow> bool" where
  "same_currency h q amt \<longleftrightarrow> (\<forall>b. h q = Some b \<longrightarrow> account_currency b = currency amt)"

lemma same_currency_shape:
  assumes "shape h' = shape h"
  shows "same_currency h' q amt = same_currency h q amt"
proof -
  have "map_option (\<lambda>a. account_currency a) (h' q) = map_option (\<lambda>a. account_currency a) (h q)"
    using fun_cong [OF assms, of q] by (cases "h q"; cases "h' q") (simp_all add: shape_def)
  then show ?thesis by (cases "h q"; cases "h' q") (simp_all add: same_currency_def)
qed

lemma transferred_effect:
  assumes "transferred p q amt h h2"
  shows transferred_shape: "shape h2 = shape h"
    and transferred_amount: "0 \<le> units amt"
    and transferred_holding: "same_currency h q amt \<Longrightarrow> holding c (h2 r) =
        holding c (h r) - (if r = p then in_currency c amt else 0) + (if r = q then in_currency c amt else 0)"
    and transferred_solvent: "solvent h \<Longrightarrow> solvent h2"
    and transferred_total: "finite (dom h) \<Longrightarrow> same_currency h q amt \<Longrightarrow> total c h2 = total c h"
proof -
  obtain st h1 cst where d: "debit_at p amt h = Returns (st, h1)" "Status_isOk st"
    and k: "credit_at q amt h1 = Returns (cst, h2)"
    using assms by (auto simp: transferred_def)
  from d obtain a where a: "shape h1 = shape h" "0 \<le> units amt" "solvent h \<Longrightarrow> solvent h1"
    "\<And>r c. holding c (h1 r) = holding c (h r) - (if r = p then in_currency c amt else 0)"
    "\<And>c. finite (dom h) \<Longrightarrow> total c h1 = total c h - in_currency c amt"
    by (rule debit_at_effect) blast
  from k a(2) obtain b where b: "h1 q = Some b" "shape h2 = shape h1" "solvent h1 \<Longrightarrow> solvent h2"
    "\<And>r c. holding c (h2 r) = holding c (h1 r) + (if r = q \<and> account_currency b = currency amt then in_currency c amt else 0)"
    "\<And>c. finite (dom h1) \<Longrightarrow>
       total c h2 = total c h1 + (if account_currency b = currency amt then in_currency c amt else 0)"
    by (rule credit_at_effect) blast
  have same: "account_currency b = currency amt" if "same_currency h q amt"
    using that shape_Some [OF a(1) [symmetric] b(1)] by (metis same_currency_def)
  show "shape h2 = shape h" "0 \<le> units amt" "solvent h \<Longrightarrow> solvent h2" using a b by simp_all
  show "holding c (h2 r) =
      holding c (h r) - (if r = p then in_currency c amt else 0) + (if r = q then in_currency c amt else 0)"
    if "same_currency h q amt" using same [OF that] a(4) b(4) by simp
  show "total c h2 = total c h" if "finite (dom h)" "same_currency h q amt"
    using a(5) [OF that(1), of c] b(5) [of c] shape_dom [OF a(1)] that(1) same [OF that(2)] by simp
qed

text \<open>A payee in another currency: the payer is debited, the payee's object stays as it is.\<close>

lemma transferred_mismatch:
  assumes "transferred p q amt h h2" "h q = Some b" "account_currency b \<noteq> currency amt" "finite (dom h)"
  shows "h2 q = Some b" and "total c h2 = total c h - in_currency c amt"
proof -
  obtain st h1 cst where d: "debit_at p amt h = Returns (st, h1)" "Status_isOk st"
    and k: "credit_at q amt h1 = Returns (cst, h2)"
    using assms(1) by (auto simp: transferred_def)
  obtain a where a: "h p = Some a" "account_currency a = currency amt"
    "total c h1 = total c h - in_currency c amt"
    by (rule debit_at_effect [OF d]) (use assms(4) in blast)
  have h1: "\<exists>a'. h1 = h(p \<mapsto> a')" using d debit_at_ok [of p amt h st h1] by blast
  with a(1,2) assms(2,3) have q: "h1 q = Some b" by (cases "p = q") auto
  have "credit amt b = Returns (Status_fail VALIDATION_FAILED ''currency mismatch on credit'', b)"
    using assms(3) by (simp add: credit_def)
  with k q have "h2 = h1" by (auto simp: credit_at_def fun_upd_idem)
  with q a(3) show "h2 q = Some b" "total c h2 = total c h - in_currency c amt" by simp_all
qed

text \<open>No credit overflows while everything the accounts hold is representable.\<close>

lemma no_credit_overflow:
  assumes "finite (dom h)" "solvent h" "total (currency amt) h \<le> int64_max"
    and "debit_at p amt h = Returns (st, h1)" "Status_isOk st" "h1 q = Some b"
  shows "credit_at q amt h1 \<noteq> Undefined"
proof
  assume u: "credit_at q amt h1 = Undefined"
  obtain a where a: "shape h1 = shape h" "0 \<le> units amt" "solvent h1"
    "total (currency amt) h1 = total (currency amt) h - units amt"
    by (rule debit_at_effect [OF assms(4,5)]) (use assms in \<open>simp add: in_currency_def\<close>)
  have o: "account_currency b = currency amt" "int64_max < funds b + units amt"
    using credit_at_overflow [OF u assms(6) a(2)] by simp_all
  have "funds b \<le> total (currency amt) h1"
    using shape_dom [OF a(1)] assms(1) a(3) assms(6) o(1) by (intro holding_le_total) auto
  with a(4) o(2) assms(3) show False by simp
qed

end
