(* ===== verification/Payment_Guarantees.thy ===== *)
theory Payment_Guarantees
  imports Conservation
begin

text \<open>
  What \<open>pay\<close> guarantees over any ports that keep their contracts. \<open>pay_cases\<close> lists every way a call
  can end with the state it leaves; \<open>pay_frame\<close> is what every way has in common. The guarantees for
  one call and for a history of calls (\<open>pays\<close>) follow by cases and by induction.
\<close>

definition new_txn :: "int64 \<Rightarrow> PaymentRequest \<Rightarrow> ('ar, 'tr, 'is, 'dl, 'lr, 'ev) Service \<Rightarrow> Transaction" where
  "new_txn now req s = mkTransaction now (fst (next_id (txnIds s))) (idempotencyKey req)
     (payerAccountId req) (payeeAccountId req) (amount req) (req_method req)"

lemma new_txn_sel [simp]:
  "txn_id (new_txn now req s) = id_text (prefix (txnIds s)) (counter (txnIds s))"
  "txn_idempotencyKey (new_txn now req s) = idempotencyKey req"
  "txn_payer (new_txn now req s) = payerAccountId req" "txn_payee (new_txn now req s) = payeeAccountId req"
  "txn_amount (new_txn now req s) = amount req" "txn_method (new_txn now req s) = req_method req"
  "txn_status (new_txn now req s) = INITIATED" "txn_createdAtEpoch (new_txn now req s) = now"
  by (simp_all add: new_txn_def)

lemma build_request:
  "build now (request_builder req (id_text (prefix (txnIds s)) (counter (txnIds s)))) =
     (if payerAccountId req = [] then Throws (Invalid_argument ''Transaction.payer is required'')
      else if payeeAccountId req = [] then Throws (Invalid_argument ''Transaction.payee is required'')
      else Returns (new_txn now req s))"
  by (simp add: build_def request_builder_def builder_defs new_txn_def)

text \<open>The part of the state that money, postings, transactions and events live in.\<close>

definition same_books :: "('ar, 'tr, 'is, 'dl, 'lr, 'ev) Service \<Rightarrow> ('ar, 'tr, 'is, 'dl, 'lr, 'ev) Service \<Rightarrow> bool" where
  "same_books s s' \<longleftrightarrow> accounts s' = accounts s \<and> objects s' = objects s \<and> transactions s' = transactions s \<and>
     ledger s' = ledger s \<and> events s' = events s \<and> entryIds s' = entryIds s \<and> seq s' = seq s"

text \<open>The call's own transaction was stored with the final status \<open>st\<close> and announced once as \<open>ty\<close>.\<close>

definition recorded ::
    "('ar, 'tr, 'is, 'dl, 'lr, 'ev) Ports \<Rightarrow> Transaction \<Rightarrow> TxnStatus \<Rightarrow> string
     \<Rightarrow> ('ar, 'tr, 'is, 'dl, 'lr, 'ev) Service \<Rightarrow> ('ar, 'tr, 'is, 'dl, 'lr, 'ev) Service \<Rightarrow> bool" where
  "recorded P txn st ty s s' \<longleftrightarrow> accounts s' = accounts s \<and>
     transactions s' = transactions_save P (setStatus st txn) (transactions s) \<and>
     events s' = events_publish P (mkEvent (setStatus st txn) ty) (events s)"

text \<open>What the ledger says an account holds, relative to its opening balance.\<close>

definition ledger_balance :: "Currency \<Rightarrow> string \<Rightarrow> LedgerEntry list \<Rightarrow> int" where
  "ledger_balance c k es =
     (\<Sum>e \<leftarrow> es. if entry_accountId e = k then in_currency c (entry_amount e) * (if direction e = CREDIT then 1 else - 1) else 0)"

lemma ledger_balance_append: "ledger_balance c k (es @ fs) = ledger_balance c k es + ledger_balance c k fs"
  by (simp add: ledger_balance_def)

lemma ledger_balance_posting:
  "ledger_balance c k (payment_posting req txn s) =
     (if k = payeeAccountId req then in_currency c (amount req) else 0) -
     (if k = payerAccountId req then in_currency c (amount req) else 0)"
  by (auto simp: ledger_balance_def payment_posting_def mkPosting_def)

text \<open>Everything the accounts hold is representable, and nobody owes anything.\<close>

definition funded :: "heap \<Rightarrow> bool" where
  "funded h \<longleftrightarrow> finite (dom h) \<and> solvent h \<and> (\<forall>c. total c h \<le> int64_max)"

lemma registered_shape:
  assumes "registered h m" "shape h' = shape h"
  shows "registered h' m"
  unfolding registered_def
proof (intro allI impI)
  fix k p
  assume "m k = Some p"
  with assms(1) obtain a where a: "h p = Some a" "account_id a = k" unfolding registered_def by blast
  show "\<exists>a. h' p = Some a \<and> account_id a = k"
    using shape_Some [OF assms(2) a(1)] a(2) by metis
qed

text \<open>Payer and payee hold the same currency, when both exist.\<close>

definition matched :: "heap \<Rightarrow> (string \<rightharpoonup> addr) \<Rightarrow> PaymentRequest \<Rightarrow> bool" where
  "matched h r req \<longleftrightarrow> (\<forall>p q a b. r (payerAccountId req) = Some p \<longrightarrow> h p = Some a \<longrightarrow>
     r (payeeAccountId req) = Some q \<longrightarrow> h q = Some b \<longrightarrow> account_currency a = account_currency b)"

lemma matched_alt:
  "matched h r req \<longleftrightarrow> (\<forall>p q c d. r (payerAccountId req) = Some p \<longrightarrow>
     map_option (\<lambda>a. account_currency a) (h p) = Some c \<longrightarrow> r (payeeAccountId req) = Some q \<longrightarrow>
     map_option (\<lambda>a. account_currency a) (h q) = Some d \<longrightarrow> c = d)"
  unfolding matched_def by auto

lemma matched_shape: "shape h' = shape h \<Longrightarrow> matched h' r req = matched h r req"
proof -
  assume sh: "shape h' = shape h"
  have ccy: "map_option (\<lambda>a. account_currency a) (h p) = map_option (\<lambda>a. account_currency a) (h' p)" for p
    using fun_cong [OF sh, of p] by (cases "h p"; cases "h' p") (simp_all add: shape_def)
  then show ?thesis unfolding matched_alt by simp
qed

context payment_service
begin

lemma pay_claimed:
  assumes "ports W = P" "key_view (idempotency s) (idempotencyKey req) = Some i"
  shows "fst (pay W now req s) = Returns (case transactions_find P i (transactions s) of
             Some prior \<Rightarrow> Result_ok prior
           | None \<Rightarrow> Result_fail DUPLICATE_REQUEST (''duplicate request for idempotency key: '' @ idempotencyKey req))"
    and "same_books s (snd (pay W now req s))" "locks (snd (pay W now req s)) = locks s"
    and "txnIds (snd (pay W now req s)) = snd (next_id (txnIds s))"
    and "key_view (idempotency (snd (pay W now req s))) = key_view (idempotency s)"
  using assms keys.put_wins [of "idempotencyKey req" "fst (next_id (txnIds s))" "idempotency s"]
    keys.put_view [of "idempotencyKey req" "fst (next_id (txnIds s))" "idempotency s"]
  by (auto simp: pay_def Let_def case_prod_unfold replay_def keys.get_view same_books_def split: option.splits)

lemma pay_fresh:
  assumes W: "ports W = P" and key: "key_view (idempotency s) (idempotencyKey req) = None"
  obtains ids where "key_view ids = (key_view (idempotency s))(idempotencyKey req \<mapsto> txn_id (new_txn now req s))"
    and "pay W now req s =
      with_outcome (build now (request_builder req (id_text (prefix (txnIds s)) (counter (txnIds s))))) (locked_payment W req)
        (s\<lparr>txnIds := snd (next_id (txnIds s)), idempotency := ids\<rparr>)"
proof -
  let ?put = "idempotency_putIfAbsent P (idempotencyKey req) (fst (next_id (txnIds s))) (idempotency s)"
  have "fst ?put" using keys.put_wins key by blast
  moreover have "key_view (snd ?put) = (key_view (idempotency s))(idempotencyKey req \<mapsto> fst (next_id (txnIds s)))"
    using key by (simp add: keys.put_view)
  ultimately show ?thesis
    by (intro that [of "snd ?put"]) (simp_all add: pay_def W Let_def case_prod_unfold)
qed


text \<open>A fresh key: the request is malformed, the payer's lock is taken, or the call runs under that lock.\<close>

lemma pay_paths:
  assumes W: "ports W = P" and key: "key_view (idempotency s) (idempotencyKey req) = None"
    and pay: "pay W now req s = (res, s')"
  obtains (malformed) e where "res = Throws e" "same_books s s'"
  | (waits) "lock_key req \<in> held (locks s)" "res = Blocks" "same_books s s'"
  | (inside) g ks dl s1 where "payerAccountId req \<noteq> []" "payeeAccountId req \<noteq> []"
      "process_payment W req (new_txn now req s) (s\<lparr>txnIds := g, idempotency := ks, locks := dl\<rparr>) = (res, s1)"
      "s' = s1\<lparr>locks := locks_release P (lock_key req) (locks s1)\<rparr>"
proof -
  let ?txn = "new_txn now req s" and ?g = "snd (next_id (txnIds s))"
  obtain ks where ks: "pay W now req s =
      with_outcome (build now (request_builder req (id_text (prefix (txnIds s)) (counter (txnIds s))))) (locked_payment W req)
        (s\<lparr>txnIds := ?g, idempotency := ks\<rparr>)"
    using pay_fresh [OF W key] by metis
  show thesis
  proof (cases "payerAccountId req = [] \<or> payeeAccountId req = []")
    case True
    with pay show ?thesis by (auto simp: ks build_request same_books_def intro: malformed split: if_splits)
  next
    case ids: False
    with pay have locked: "locked_payment W req ?txn (s\<lparr>txnIds := ?g, idempotency := ks\<rparr>) = (res, s')"
      unfolding ks by (simp add: build_request)
    show ?thesis
    proof (cases "locks_acquire P (lock_key req) (locks s)")
      case None
      then have "lock_key req \<in> held (locks s)"
        using dl.acquire_free [of "lock_key req" "locks s"] by (cases "lock_key req \<in> held (locks s)") auto
      with locked None show ?thesis by (intro waits) (auto simp: locked_payment_def W same_books_def)
    next
      case (Some dl)
      with locked ids show ?thesis
        by (cases "process_payment W req ?txn (s\<lparr>txnIds := ?g, idempotency := ks, locks := dl\<rparr>)")
          (auto simp: locked_payment_def W intro: inside)
    qed
  qed
qed


text \<open>Every way a call can end.\<close>

lemma pay_cases:
  assumes W: "ports W = P" and reg: "registered (objects s) (acc_view (accounts s))"
    and pay: "pay W now req s = (res, s')"
  obtains (replayed) i where "key_view (idempotency s) (idempotencyKey req) = Some i"
      "res = Returns (case transactions_find P i (transactions s) of
             Some prior \<Rightarrow> Result_ok prior
           | None \<Rightarrow> Result_fail DUPLICATE_REQUEST (''duplicate request for idempotency key: '' @ idempotencyKey req))"
      "same_books s s'"
  | (aborted) "key_view (idempotency s) (idempotencyKey req) = None" "\<And>r. res \<noteq> Returns r" "same_books s s'"
      "res = Undefined \<Longrightarrow> run (validation W) (new_txn now req s) = Undefined"
      "res = Blocks \<Longrightarrow> lock_key req \<in> held (locks s) \<or> run (validation W) (new_txn now req s) = Blocks"
  | (refused) c m where "key_view (idempotency s) (idempotencyKey req) = None"
      "res = Returns (Result_fail c m)" "recorded P (new_txn now req s) FAILED ''PaymentFailed'' s s'"
      "objects s' = objects s" "ledger s' = ledger s"
  | (overflow) p q h1 where "key_view (idempotency s) (idempotencyKey req) = None" "res = Undefined"
      "acc_view (accounts s) (payerAccountId req) = Some p" "acc_view (accounts s) (payeeAccountId req) = Some q"
      "debit_at p (amount req) (objects s) = Returns (Status_ok, h1)"
      "credit_at q (amount req) h1 = Undefined" "same_books (s\<lparr>objects := h1\<rparr>) s'"
  | (declined) p q c m where "key_view (idempotency s) (idempotencyKey req) = None"
      "\<not> approves (strategies W) (req_method req)"
      "res = Returns (Result_fail c m)" "recorded P (new_txn now req s) FAILED ''PaymentFailed'' s s'"
      "acc_view (accounts s) (payerAccountId req) = Some p" "acc_view (accounts s) (payeeAccountId req) = Some q"
      "transferred p q (amount req) (objects s) (objects s')"
      "journal (ledger s') = journal (ledger s) @ payment_posting req (new_txn now req s) s"
  | (captured) p q where "key_view (idempotency s) (idempotencyKey req) = None"
      "admitted W req (new_txn now req s)" "payerAccountId req \<noteq> []" "payeeAccountId req \<noteq> []"
      "res = Returns (Result_ok (setStatus CAPTURED (new_txn now req s)))"
      "recorded P (new_txn now req s) CAPTURED ''PaymentCaptured'' s s'"
      "acc_view (accounts s) (payerAccountId req) = Some p" "acc_view (accounts s) (payeeAccountId req) = Some q"
      "transferred p q (amount req) (objects s) (objects s')"
      "journal (ledger s') = journal (ledger s) @ payment_posting req (new_txn now req s) s"
proof (cases "key_view (idempotency s) (idempotencyKey req)")
  case (Some i)
  with pay_claimed [OF W Some, of now] pay replayed show ?thesis by simp
next
  case None
  let ?txn = "new_txn now req s"
  show ?thesis
  proof (rule pay_paths [OF W None pay])
    fix g ks dl s1
    let ?s = "s\<lparr>txnIds := g, idempotency := ks, locks := dl\<rparr>"
    assume ids: "payerAccountId req \<noteq> []" "payeeAccountId req \<noteq> []"
      and s1: "process_payment W req ?txn ?s = (res, s1)"
      and s': "s' = s1\<lparr>locks := locks_release P (lock_key req) (locks s1)\<rparr>"
    have reg': "registered (objects ?s) (acc_view (accounts ?s))" using reg by simp
    have init: "txn_status ?txn = INITIATED" by simp
    have post: "payment_posting req ?txn ?s = payment_posting req ?txn s" by (simp add: payment_posting_def)
    note final = failed_state_def captured_state_def posted_state_def recorded_def same_books_def
    show ?thesis
    proof (rule process_cases [OF W init reg', of req])
      assume a: "\<And>r. fst (process_payment W req ?txn ?s) \<noteq> Returns r"
        "snd (process_payment W req ?txn ?s) = ?s"
        "fst (process_payment W req ?txn ?s) = Undefined \<Longrightarrow> run (validation W) ?txn = Undefined"
        "\<And>r. run (validation W) ?txn \<noteq> Returns r"
      have "run (validation W) ?txn = Blocks" if "res = Blocks"
        using that s1 a(4) by (cases "run (validation W) ?txn") (auto simp: process_payment_def)
      with a s1 s' None show ?thesis by (intro aborted) (auto simp: same_books_def)
    next
      fix c m
      assume "process_payment W req ?txn ?s = (Returns (Result_fail c m), failed_state P ?txn ?s)"
      with s1 s' None show ?thesis by (intro refused [of c m]) (auto simp: final)
    next
      fix p q h1
      assume "acc_view (accounts ?s) (payerAccountId req) = Some p" "acc_view (accounts ?s) (payeeAccountId req) = Some q"
        "debit_at p (amount req) (objects ?s) = Returns (Status_ok, h1)"
        "credit_at q (amount req) h1 = Undefined"
        "process_payment W req ?txn ?s = (Undefined, ?s\<lparr>objects := h1\<rparr>)"
      with s1 s' None show ?thesis by (intro overflow [of p q h1]) (auto simp: final)
    qed (use s1 s' None post ids in \<open>auto simp: final intro: declined captured\<close>)
  qed (use None aborted in auto)
qed

section \<open>What every call has in common\<close>

lemma process_frame:
  assumes "ports W = P" "txn_status txn = INITIATED" "registered (objects s) (acc_view (accounts s))"
  shows "txnIds (snd (process_payment W req txn s)) = txnIds s"
    and "idempotency (snd (process_payment W req txn s)) = idempotency s"
    and "locks (snd (process_payment W req txn s)) = locks s"
  by (rule process_cases [OF assms, of req];
      simp add: failed_state_def captured_state_def posted_state_def)+

lemma locked_frame:
  assumes "ports W = P" "txn_status txn = INITIATED" "registered (objects s) (acc_view (accounts s))"
  shows "txnIds (snd (locked_payment W req txn s)) = txnIds s"
    and "idempotency (snd (locked_payment W req txn s)) = idempotency s"
    and "held (locks (snd (locked_payment W req txn s))) = held (locks s)"
proof -
  note pf = process_frame [OF assms(1,2), of "s\<lparr>locks := d\<rparr>" req for d]
  show "txnIds (snd (locked_payment W req txn s)) = txnIds s"
    "idempotency (snd (locked_payment W req txn s)) = idempotency s"
    using pf assms by (auto simp: locked_payment_def case_prod_unfold Let_def split: option.splits)
  show "held (locks (snd (locked_payment W req txn s))) = held (locks s)"
    using pf(3) assms dl.acquire_release
    by (auto simp: locked_payment_def case_prod_unfold Let_def split: option.splits)
qed

text \<open>Ids advance by one, the key is claimed, and the payer's lock is free again on every way out.\<close>

lemma pay_frame:
  assumes W: "ports W = P" and reg: "registered (objects s) (acc_view (accounts s))"
  shows pay_txnIds: "txnIds (snd (pay W now req s)) = snd (next_id (txnIds s))"
    and pay_keys: "key_view (idempotency (snd (pay W now req s))) =
      (if key_view (idempotency s) (idempotencyKey req) = None
       then (key_view (idempotency s))(idempotencyKey req \<mapsto> txn_id (new_txn now req s))
       else key_view (idempotency s))"
    and pay_locks: "held (locks (snd (pay W now req s))) = held (locks s)"
proof -
  have "txnIds (snd (pay W now req s)) = snd (next_id (txnIds s)) \<and>
    key_view (idempotency (snd (pay W now req s))) =
      (if key_view (idempotency s) (idempotencyKey req) = None
       then (key_view (idempotency s))(idempotencyKey req \<mapsto> txn_id (new_txn now req s))
       else key_view (idempotency s)) \<and>
    held (locks (snd (pay W now req s))) = held (locks s)"
  proof (cases "key_view (idempotency s) (idempotencyKey req)")
    case (Some i)
    with pay_claimed [OF W Some, of now] show ?thesis by simp
  next
    case None
    obtain ids where k: "key_view ids = (key_view (idempotency s))(idempotencyKey req \<mapsto> txn_id (new_txn now req s))"
      and ids: "pay W now req s =
        with_outcome (build now (request_builder req (id_text (prefix (txnIds s)) (counter (txnIds s))))) (locked_payment W req)
          (s\<lparr>txnIds := snd (next_id (txnIds s)), idempotency := ids\<rparr>)"
      using pay_fresh [OF W None] by metis
    let ?s0 = "s\<lparr>txnIds := snd (next_id (txnIds s)), idempotency := ids\<rparr>"
    have "registered (objects ?s0) (acc_view (accounts ?s0))" using reg by simp
    from locked_frame [OF W _ this, of "new_txn now req s" req] k None
    show ?thesis unfolding ids by (simp add: build_request)
  qed
  then show "txnIds (snd (pay W now req s)) = snd (next_id (txnIds s))"
    "key_view (idempotency (snd (pay W now req s))) =
      (if key_view (idempotency s) (idempotencyKey req) = None
       then (key_view (idempotency s))(idempotencyKey req \<mapsto> txn_id (new_txn now req s))
       else key_view (idempotency s))"
    "held (locks (snd (pay W now req s))) = held (locks s)" by simp_all
qed

section \<open>Money\<close>

lemma transferred_same_currency:
  assumes "transferred p q amt h h2" "matched h (acc_view r) req" "amt = amount req"
    and "acc_view r (payerAccountId req) = Some p" "acc_view r (payeeAccountId req) = Some q"
  shows "same_currency h q amt"
proof -
  from assms(1) obtain st h1 where d: "debit_at p amt h = Returns (st, h1)" "Status_isOk st"
    by (auto simp: transferred_def)
  obtain a where "h p = Some a" "account_currency a = currency amt" by (rule debit_at_effect [OF d])
  with assms show ?thesis by (auto simp: same_currency_def matched_def)
qed

text \<open>No call ends in undefined behaviour while the accounts are funded.\<close>

lemma pay_defined:
  assumes W: "ports W = P" and reg: "registered (objects s) (acc_view (accounts s))" and fund: "funded (objects s)"
    and chain: "run (validation W) (new_txn now req s) \<noteq> Undefined" and pay: "pay W now req s = (res, s')"
  shows "res \<noteq> Undefined"
proof (rule pay_cases [OF W reg pay])
  fix p q h1
  assume q: "acc_view (accounts s) (payeeAccountId req) = Some q"
    and d: "debit_at p (amount req) (objects s) = Returns (Status_ok, h1)"
    and u: "credit_at q (amount req) h1 = Undefined"
  obtain b where "objects s q = Some b"
    using ar.registered_find [OF reg, of "payeeAccountId req" q] q by (auto simp: ar.find_view)
  moreover have "shape h1 = shape (objects s)" by (rule debit_at_effect [OF d]) simp_all
  ultimately obtain b1 where "h1 q = Some b1" by (metis shape_Some)
  with no_credit_overflow [OF _ _ _ d] u fund show ?thesis by (simp add: funded_def)
qed (use chain in auto)

text \<open>What a call does to the objects: nothing, or one transfer.\<close>

lemma pay_objects:
  assumes W: "ports W = P" and reg: "registered (objects s) (acc_view (accounts s))"
    and pay: "pay W now req s = (res, s')" and "res \<noteq> Undefined"
  obtains (unmoved) "objects s' = objects s" "journal (ledger s') = journal (ledger s)" "accounts s' = accounts s"
  | (moved) p q where "acc_view (accounts s) (payerAccountId req) = Some p"
      "acc_view (accounts s) (payeeAccountId req) = Some q"
      "transferred p q (amount req) (objects s) (objects s')"
      "journal (ledger s') = journal (ledger s) @ payment_posting req (new_txn now req s) s"
      "accounts s' = accounts s"
  by (rule pay_cases [OF W reg pay])
    (use assms(4) that in \<open>simp_all add: same_books_def recorded_def\<close>)

lemma pay_conserves:
  assumes W: "ports W = P" and reg: "registered (objects s) (acc_view (accounts s))" and fund: "funded (objects s)"
    and match: "matched (objects s) (acc_view (accounts s)) req"
    and pay: "pay W now req s = (res, s')" and def: "res \<noteq> Undefined"
  shows "accounts s' = accounts s" and "shape (objects s') = shape (objects s)"
    and "total c (objects s') = total c (objects s)" and "funded (objects s')"
proof -
  have "accounts s' = accounts s \<and> shape (objects s') = shape (objects s) \<and> solvent (objects s') \<and>
    (\<forall>c. total c (objects s') = total c (objects s))"
  proof (rule pay_objects [OF W reg pay def])
    fix p q
    assume v: "acc_view (accounts s) (payerAccountId req) = Some p" "acc_view (accounts s) (payeeAccountId req) = Some q"
      and t: "transferred p q (amount req) (objects s) (objects s')" and acc: "accounts s' = accounts s"
    have "same_currency (objects s) q (amount req)"
      using transferred_same_currency [OF t match refl v] .
    with transferred_effect [OF t] acc fund show ?thesis by (simp add: funded_def)
  qed (use fund in \<open>simp add: funded_def\<close>)
  then show "accounts s' = accounts s" "shape (objects s') = shape (objects s)"
    "total c (objects s') = total c (objects s)" "funded (objects s')"
    using fund shape_dom [of "objects s'" "objects s"] by (simp_all add: funded_def)
qed

text \<open>Live balances and the journal move together.\<close>

lemma pay_reconciles:
  assumes W: "ports W = P" and reg: "registered (objects s) (acc_view (accounts s))"
    and match: "matched (objects s) (acc_view (accounts s)) req"
    and pay: "pay W now req s = (res, s')" and def: "res \<noteq> Undefined"
    and k: "acc_view (accounts s) k = Some r"
  shows "holding c (objects s' r) - ledger_balance c k (journal (ledger s')) =
         holding c (objects s r) - ledger_balance c k (journal (ledger s))"
proof (rule pay_objects [OF W reg pay def])
  fix p q
  assume v: "acc_view (accounts s) (payerAccountId req) = Some p" "acc_view (accounts s) (payeeAccountId req) = Some q"
    and t: "transferred p q (amount req) (objects s) (objects s')"
    and j: "journal (ledger s') = journal (ledger s) @ payment_posting req (new_txn now req s) s"
  have "same_currency (objects s) q (amount req)"
    using transferred_same_currency [OF t match refl v] .
  then have "holding c (objects s' r) = holding c (objects s r) -
      (if r = p then in_currency c (amount req) else 0) + (if r = q then in_currency c (amount req) else 0)"
    by (rule transferred_holding [OF t])
  moreover have "r = p \<longleftrightarrow> k = payerAccountId req" "r = q \<longleftrightarrow> k = payeeAccountId req"
    using ar.registered_distinct [OF reg] k v by (simp_all add: ar.find_view)
  ultimately show ?thesis
    unfolding j by (simp add: ledger_balance_append ledger_balance_posting)
qed simp

text \<open>The journal stays balanced in every currency.\<close>

lemma posting_nets_to_zero:
  assumes "transferred p q (amount req) h h2"
  shows "nets_to_zero (payment_posting req txn s)"
  using mkPosting_balanced [OF transferred_amount [OF assms]] balanced_nets_to_zero
  by (simp add: payment_posting_def)

lemma pay_nets_to_zero:
  assumes W: "ports W = P" and reg: "registered (objects s) (acc_view (accounts s))"
    and pay: "pay W now req s = (res, s')" and net: "nets_to_zero (journal (ledger s))"
  shows "nets_to_zero (journal (ledger s'))"
proof -
  have app: "nets_to_zero (journal (ledger s) @ payment_posting req (new_txn now req s) s)"
    if "transferred p q (amount req) (objects s) (objects s')" for p q
    using net posting_nets_to_zero [OF that, of "new_txn now req s" s] by (simp add: nets_to_zero_def)
  show ?thesis
    by (rule pay_cases [OF W reg pay]) (use app net in \<open>simp_all add: same_books_def recorded_def\<close>)
qed

end

end
