(* ===== verification/Payment_History.thy ===== *)
theory Payment_History
  imports Payment_Guarantees
begin

text \<open>
  Idempotency and histories of calls, over any ports that keep their contracts: a claimed key moves
  no money and replays the stored transaction, whatever calls came in between; and what one call
  conserves, every history of calls conserves.
\<close>

definition final_status :: "Transaction Result \<Rightarrow> TxnStatus" where
  "final_status r = (if Result_isOk r then CAPTURED else FAILED)"

definition event_name :: "Transaction Result \<Rightarrow> string" where
  "event_name r = (if Result_isOk r then ''PaymentCaptured'' else ''PaymentFailed'')"

lemma final_status_simps [simp]:
  "final_status (Result_ok t) = CAPTURED" "final_status (Result_fail c m) = FAILED"
  "event_name (Result_ok t) = ''PaymentCaptured''" "event_name (Result_fail c m) = ''PaymentFailed''"
  by (simp_all add: final_status_def event_name_def)

lemma pays_Cons [simp]:
  "pays W ((now, req) # rs) s =
     (fst (pay W now req s) # fst (pays W rs (snd (pay W now req s))), snd (pays W rs (snd (pay W now req s))))"
  by (simp add: case_prod_unfold Let_def)

declare pays.simps(2) [simp del]

context payment_service
begin

section \<open>The transaction of a call\<close>

text \<open>A call that processes its request and returns stores exactly its own transaction and announces it.\<close>

lemma pay_recorded:
  assumes W: "ports W = P" and reg: "registered (objects s) (acc_view (accounts s))"
    and key: "key_view (idempotency s) (idempotencyKey req) = None" and pay: "pay W now req s = (Returns r, s')"
  shows "recorded P (new_txn now req s) (final_status r) (event_name r) s s'"
    and "Result_isOk r \<Longrightarrow> r = Result_ok (setStatus CAPTURED (new_txn now req s))"
proof -
  have "recorded P (new_txn now req s) (final_status r) (event_name r) s s' \<and>
    (Result_isOk r \<longrightarrow> r = Result_ok (setStatus CAPTURED (new_txn now req s)))"
    by (rule pay_cases [OF W reg pay]) (use key in auto)
  then show "recorded P (new_txn now req s) (final_status r) (event_name r) s s'"
    "Result_isOk r \<Longrightarrow> r = Result_ok (setStatus CAPTURED (new_txn now req s))" by simp_all
qed

text \<open>Any call changes at most the entry of the id it minted, and keeps what it does not own.\<close>

lemma pay_keeps:
  assumes W: "ports W = P" and reg: "registered (objects s) (acc_view (accounts s))"
    and inv: "txn_inv (transactions s)"
  shows "accounts (snd (pay W now req s)) = accounts s"
    and "shape (objects (snd (pay W now req s))) = shape (objects s)"
    and "txn_inv (transactions (snd (pay W now req s)))"
    and "k \<noteq> txn_id (new_txn now req s) \<Longrightarrow>
      transactions_find P k (transactions (snd (pay W now req s))) = transactions_find P k (transactions s)"
proof -
  obtain res s' where pay: "pay W now req s = (res, s')" by fastforce
  have "accounts s' = accounts s \<and> shape (objects s') = shape (objects s) \<and> txn_inv (transactions s') \<and>
    (k \<noteq> txn_id (new_txn now req s) \<longrightarrow> transactions_find P k (transactions s') = transactions_find P k (transactions s))"
  proof (rule pay_cases [OF W reg pay])
    fix p h1
    assume d: "debit_at p (amount req) (objects s) = Returns (Status_ok, h1)" and "same_books (s\<lparr>objects := h1\<rparr>) s'"
    moreover have "shape h1 = shape (objects s)" by (rule debit_at_effect [OF d]) simp_all
    ultimately show ?thesis using inv by (simp add: same_books_def)
  qed (use inv in \<open>auto simp: same_books_def recorded_def tr.save_inv tr.find_after_save transferred_shape\<close>)
  then show "accounts (snd (pay W now req s)) = accounts s"
    "shape (objects (snd (pay W now req s))) = shape (objects s)"
    "txn_inv (transactions (snd (pay W now req s)))"
    "k \<noteq> txn_id (new_txn now req s) \<Longrightarrow>
      transactions_find P k (transactions (snd (pay W now req s))) = transactions_find P k (transactions s)"
    unfolding pay by simp_all
qed

lemma pay_registered:
  assumes "ports W = P" "registered (objects s) (acc_view (accounts s))" "txn_inv (transactions s)"
  shows "registered (objects (snd (pay W now req s))) (acc_view (accounts (snd (pay W now req s))))"
  using registered_shape [OF assms(2) pay_keeps(2) [OF assms]] pay_keeps(1) [OF assms] by simp

lemmas pay_preserves = pay_keeps(3) pay_registered

section \<open>Histories\<close>

lemma pays_frame:
  assumes W: "ports W = P" and "registered (objects s) (acc_view (accounts s))" "txn_inv (transactions s)"
  shows "txnIds (snd (pays W rs s)) = (txnIds s)\<lparr>counter := counter (txnIds s) + of_nat (length rs)\<rparr> \<and>
    accounts (snd (pays W rs s)) = accounts s \<and> shape (objects (snd (pays W rs s))) = shape (objects s) \<and>
    held (locks (snd (pays W rs s))) = held (locks s) \<and> txn_inv (transactions (snd (pays W rs s)))"
  using assms(2,3)
proof (induction rs arbitrary: s)
  case (Cons x rs)
  obtain now req where x: "x = (now, req)" by fastforce
  note p = pay_preserves [OF W Cons.prems, of now req]
  note one = pay_keeps(1,2) [OF W Cons.prems, of now req] pay_txnIds [OF W Cons.prems(1), of now req]
    pay_locks [OF W Cons.prems(1), of now req]
  from Cons.IH [OF p(2,1)] one show ?case by (simp add: x add.assoc)
qed simp

lemma pays_registered:
  assumes "ports W = P" "registered (objects s) (acc_view (accounts s))" "txn_inv (transactions s)"
  shows "registered (objects (snd (pays W rs s))) (acc_view (accounts (snd (pays W rs s))))"
  using registered_shape [OF assms(2)] pays_frame [OF assms, of rs] by simp

lemma pays_claimed:
  assumes W: "ports W = P" and "registered (objects s) (acc_view (accounts s))" "txn_inv (transactions s)"
    and "key_view (idempotency s) k = Some i"
  shows "key_view (idempotency (snd (pays W rs s))) k = Some i"
  using assms(2-)
proof (induction rs arbitrary: s)
  case (Cons x rs)
  obtain now req where x: "x = (now, req)" by fastforce
  have "key_view (idempotency (snd (pay W now req s))) k = Some i"
    using pay_keys [OF W Cons.prems(1), of now req] Cons.prems(3) by auto
  with Cons.IH [OF pay_preserves(2) [OF W Cons.prems(1,2)] pay_preserves(1) [OF W Cons.prems(1,2)]]
  show ?case by (simp add: x)
qed simp

text \<open>What was stored under an id that no call of the history mints stays stored.\<close>

lemma pays_find:
  assumes W: "ports W = P" and "registered (objects s) (acc_view (accounts s))" "txn_inv (transactions s)"
    and "\<forall>j < length rs. k \<noteq> id_text (prefix (txnIds s)) (counter (txnIds s) + of_nat j)"
  shows "transactions_find P k (transactions (snd (pays W rs s))) = transactions_find P k (transactions s)"
  using assms(2-)
proof (induction rs arbitrary: s)
  case (Cons x rs)
  obtain now req where x: "x = (now, req)" by fastforce
  let ?s = "snd (pay W now req s)"
  note p = pay_preserves [OF W Cons.prems(1,2), of now req]
  have ids: "txnIds ?s = (txnIds s)\<lparr>counter := counter (txnIds s) + 1\<rparr>"
    using pay_txnIds [OF W Cons.prems(1)] by simp
  have fresh: "k \<noteq> id_text (prefix (txnIds s)) (counter (txnIds s) + 1 + of_nat j)" if "j < length rs" for j
    using Cons.prems(3) [rule_format, of "Suc j"] that by (simp add: algebra_simps)
  have "k \<noteq> txn_id (new_txn now req s)"
    using Cons.prems(3) [rule_format, of 0] by simp
  then have "transactions_find P k (transactions ?s) = transactions_find P k (transactions s)"
    by (rule pay_keeps(4) [OF W Cons.prems(1,2)])
  moreover have "transactions_find P k (transactions (snd (pays W rs ?s))) = transactions_find P k (transactions ?s)"
    using Cons.IH [OF p(2,1)] fresh ids by simp
  ultimately show ?case by (simp add: x)
qed simp

section \<open>Idempotency\<close>

text \<open>A retry after any history replays the transaction the first call stored, and moves nothing.\<close>

lemma retry_replays:
  assumes W: "ports W = P" and reg: "registered (objects s) (acc_view (accounts s))"
    and inv: "txn_inv (transactions s)" and key: "key_view (idempotency s) (idempotencyKey req) = None"
    and first: "pay W now req s = (Returns r, s1)" and len: "length rs < 2 ^ 64"
    and again: "idempotencyKey req2 = idempotencyKey req"
  shows "fst (pay W now2 req2 (snd (pays W rs s1))) =
           Returns (Result_ok (setStatus (final_status r) (new_txn now req s)))"
    and "same_books (snd (pays W rs s1)) (snd (pay W now2 req2 (snd (pays W rs s1))))"
proof -
  let ?i = "txn_id (new_txn now req s)" and ?s2 = "snd (pays W rs s1)"
  have s1: "s1 = snd (pay W now req s)" by (simp add: first)
  note p1 = pay_preserves [OF W reg inv, of now req, folded s1]
  have k1: "key_view (idempotency s1) (idempotencyKey req) = Some ?i"
    using pay_keys [OF W reg, of now req] key by (simp add: s1)
  have k2: "key_view (idempotency ?s2) (idempotencyKey req2) = Some ?i"
    using pays_claimed [OF W p1(2,1) k1] again by simp
  have "transactions_find P ?i (transactions s1) = Some (setStatus (final_status r) (new_txn now req s))"
    using pay_recorded(1) [OF W reg key first] tr.find_after_save [OF inv] by (simp add: recorded_def)
  moreover have "?i \<noteq> id_text (prefix (txnIds s1)) (counter (txnIds s1) + of_nat j)" if "j < length rs" for j
  proof -
    have ids: "txnIds s1 = (txnIds s)\<lparr>counter := counter (txnIds s) + 1\<rparr>"
      using pay_txnIds [OF W reg, of now req] by (simp add: s1)
    have "of_nat (Suc j) \<noteq> (0 :: 64 word)"
      using of_nat_inj_64 [of "Suc j" 0] that len by simp
    then have "counter (txnIds s) + (1 + of_nat j) \<noteq> counter (txnIds s)"
      by (metis add_cancel_left_right of_nat_Suc)
    then show ?thesis by (simp add: ids add.assoc)
  qed
  then have "transactions_find P ?i (transactions ?s2) = transactions_find P ?i (transactions s1)"
    by (intro pays_find [OF W p1(2,1)]) blast
  ultimately show "fst (pay W now2 req2 ?s2) = Returns (Result_ok (setStatus (final_status r) (new_txn now req s)))"
    using pay_claimed(1) [OF W k2, of now2] by simp
  show "same_books ?s2 (snd (pay W now2 req2 ?s2))"
    by (rule pay_claimed(2) [OF W k2])
qed

text \<open>Any number of retries in a row leaves the books as they are.\<close>

lemma retries_keep_books:
  assumes W: "ports W = P" and "key_view (idempotency s) k = Some i" "\<forall>(now, req) \<in> set rs. idempotencyKey req = k"
  shows "same_books s (snd (pays W rs s))"
  using assms(2-)
proof (induction rs arbitrary: s)
  case (Cons x rs)
  obtain now req where x: "x = (now, req)" by fastforce
  with Cons.prems have k: "key_view (idempotency s) (idempotencyKey req) = Some i" by simp
  note c = pay_claimed [OF W k, of now]
  have "same_books (snd (pay W now req s)) (snd (pays W rs (snd (pay W now req s))))"
    using Cons.IH [of "snd (pay W now req s)"] Cons.prems c(5) by simp
  with c(2) show ?case by (simp add: x same_books_def)
qed (simp add: same_books_def)

section \<open>Conservation over a history\<close>

lemma pays_conserve:
  assumes W: "ports W = P" and chain: "\<And>t. run (validation W) t \<noteq> Undefined"
    and "registered (objects s) (acc_view (accounts s))" "txn_inv (transactions s)" "funded (objects s)"
    and "\<forall>(now, req) \<in> set rs. matched (objects s) (acc_view (accounts s)) req"
  shows "Undefined \<notin> set (fst (pays W rs s)) \<and> funded (objects (snd (pays W rs s))) \<and>
    (\<forall>c. total c (objects (snd (pays W rs s))) = total c (objects s)) \<and>
    (\<forall>c k p. acc_view (accounts s) k = Some p \<longrightarrow>
      holding c (objects (snd (pays W rs s)) p) - ledger_balance c k (journal (ledger (snd (pays W rs s)))) =
      holding c (objects s p) - ledger_balance c k (journal (ledger s)))"
  using assms(3-)
proof (induction rs arbitrary: s)
  case (Cons x rs)
  obtain now req where x: "x = (now, req)" by fastforce
  obtain res s1 where pay: "pay W now req s = (res, s1)" by fastforce
  note pre = Cons.prems
  have match: "matched (objects s) (acc_view (accounts s)) req" using pre(4) x by simp
  have def: "res \<noteq> Undefined" by (rule pay_defined [OF W pre(1) pre(3) chain pay])
  note c1 = pay_conserves [OF W pre(1) pre(3) match pay def]
  note rec = pay_reconciles [OF W pre(1) match pay def]
  have reg1: "registered (objects s1) (acc_view (accounts s1))" and inv1: "txn_inv (transactions s1)"
    using pay_preserves [OF W pre(1,2), of now req] by (simp_all add: pay)
  have m1: "\<forall>(now, req) \<in> set rs. matched (objects s1) (acc_view (accounts s1)) req"
    using pre(4) x c1(1) matched_shape [OF c1(2)] by auto
  from Cons.IH [OF reg1 inv1 c1(4) m1] def c1(1,3) rec show ?case by (simp add: x pay)
qed simp

lemma pays_net_to_zero:
  assumes W: "ports W = P" and "registered (objects s) (acc_view (accounts s))" "txn_inv (transactions s)"
    and "nets_to_zero (journal (ledger s))"
  shows "nets_to_zero (journal (ledger (snd (pays W rs s))))"
  using assms(2-)
proof (induction rs arbitrary: s)
  case (Cons x rs)
  obtain now req where x: "x = (now, req)" by fastforce
  have "nets_to_zero (journal (ledger (snd (pay W now req s))))"
    by (rule pay_nets_to_zero [OF W Cons.prems(1) prod.collapse [symmetric] Cons.prems(3)])
  with Cons.IH [OF pay_preserves(2,1) [OF W Cons.prems(1,2)]] show ?case by (simp add: x)
qed simp

text \<open>No call of a history waits: each gives the lock back.\<close>

lemma pays_never_block:
  assumes W: "ports W = P" and chain: "\<And>t. run (validation W) t \<noteq> Blocks"
    and "registered (objects s) (acc_view (accounts s))" "txn_inv (transactions s)" "held (locks s) = {}"
  shows "Blocks \<notin> set (fst (pays W rs s))"
  using assms(3-)
proof (induction rs arbitrary: s)
  case (Cons x rs)
  obtain now req where x: "x = (now, req)" by fastforce
  obtain res s1 where pay: "pay W now req s = (res, s1)" by fastforce
  have "res \<noteq> Blocks"
    by (rule pay_cases [OF W Cons.prems(1) pay]) (use chain Cons.prems(3) in auto)
  moreover have "held (locks s1) = {}"
    using pay_locks [OF W Cons.prems(1), of now req] Cons.prems(3) by (simp add: pay)
  ultimately show ?case
    using Cons.IH pay_preserves [OF W Cons.prems(1,2), of now req] by (simp add: x pay)
qed simp

end

end
