(* ===== verification/Payment_Progress.thy ===== *)
theory Payment_Progress
  imports Payment_History
begin

text \<open>
  When a payment goes through: a request whose key is new, whose payer's lock is free and that the
  chain and the strategy approve is captured exactly when the payer covers it, and is otherwise
  answered with the status of the debit. A run of equal payments from one wallet succeeds exactly as
  often as the balance allows.
\<close>

text \<open>Approved whatever the balance: ids present, a strategy that approves, a chain that accepts.\<close>

definition spendable :: "('ar, 'tr, 'is, 'dl, 'lr, 'ev) Wiring \<Rightarrow> PaymentRequest \<Rightarrow> bool" where
  "spendable W req \<longleftrightarrow> payerAccountId req \<noteq> [] \<and> payeeAccountId req \<noteq> [] \<and>
     (\<exists>strategy. create (strategies W) (req_method req) = Some strategy \<and> approving strategy) \<and>
     (\<forall>t. txn_payer t = payerAccountId req \<and> txn_payee t = payeeAccountId req \<and> txn_amount t = amount req \<longrightarrow>
        run (validation W) t = Returns Status_ok)"

lemma spendable_run: "spendable W req \<Longrightarrow> run (validation W) (new_txn now req s) = Returns Status_ok"
  by (simp add: spendable_def)

definition succeeded :: "Transaction Result outcome \<Rightarrow> bool" where
  "succeeded res = (case res of Returns r \<Rightarrow> Result_isOk r | _ \<Rightarrow> False)"

lemma succeeded_simps [simp]: "succeeded (Returns r) = Result_isOk r"
  by (simp add: succeeded_def)

text \<open>A run of payments of one amount from one wallet to one payee, under keys of their own.\<close>

definition spending ::
    "('ar, 'tr, 'is, 'dl, 'lr, 'ev) Wiring \<Rightarrow> string \<Rightarrow> string \<Rightarrow> Money \<Rightarrow> (string \<rightharpoonup> string)
     \<Rightarrow> (int64 \<times> PaymentRequest) list \<Rightarrow> bool" where
  "spending W x y m claimed rs \<longleftrightarrow> distinct (map (\<lambda>r. idempotencyKey (snd r)) rs) \<and>
     (\<forall>r \<in> set rs. claimed (idempotencyKey (snd r)) = None \<and> spendable W (snd r) \<and>
        payerAccountId (snd r) = x \<and> payeeAccountId (snd r) = y \<and> amount (snd r) = m)"

lemma spending_Cons:
  "spending W x y m claimed ((now, req) # rs) \<Longrightarrow> spending W x y m (claimed(idempotencyKey req \<mapsto> i)) rs"
  by (force simp: spending_def)

lemma affordable_step:
  "0 < (m :: int) \<Longrightarrow> m \<le> f \<Longrightarrow> min (int (Suc n)) (f div m) = 1 + min (int n) ((f - m) div m)"
  "0 < m \<Longrightarrow> 0 \<le> f \<Longrightarrow> f < m \<Longrightarrow> min (int (Suc n)) (f div m) = min (int n) (f div m)"
  using div_add_self2 [of m "f - m"] by (simp_all add: div_pos_pos_trivial)

text \<open>What an account sees of the journal.\<close>

definition credits_of :: "string \<Rightarrow> LedgerEntry list \<Rightarrow> (Direction \<times> Money) list" where
  "credits_of k es = map (\<lambda>e. (direction e, entry_amount e)) (filter (\<lambda>e. entry_accountId e = k) es)"

context payment_service
begin

lemma process_approved:
  assumes W: "ports W = P" and init: "txn_status txn = INITIATED"
    and run: "run (validation W) txn = Returns Status_ok"
    and p: "acc_view (accounts s) (payerAccountId req) = Some p" and q: "acc_view (accounts s) (payeeAccountId req) = Some q"
    and strategy: "create (strategies W) (req_method req) = Some strategy" "approving strategy"
    and live: "objects s p = Some a" and debit: "debit (amount req) a = Returns (st, a')"
  shows process_declined: "Status_isErr st \<Longrightarrow> process_payment W req txn s =
      (Returns (Result_fail (error_code (err st)) (error_message (err st))), failed_state P txn s)"
    and process_captured: "Status_isOk st \<Longrightarrow> credit_at q (amount req) ((objects s)(p \<mapsto> a')) = Returns (cst, h2) \<Longrightarrow>
      \<exists>l'. process_payment W req txn s =
        (Returns (Result_ok (setStatus CAPTURED txn)), captured_state P txn (posted_state h2 l' s))"
proof -
  obtain auth where auth: "authorize strategy txn = Result_ok auth"
    using strategy(2) by (cases "authorize strategy txn") (auto simp: approving_def dest: spec [of _ txn])
  have eq: "process_payment W req txn s = move_money P req p q strategy auth (setStatus AUTHORIZED txn) s"
    using run p q strategy(1) auth by (simp add: process_payment_def W ar.find_view advance_INITIATED init)
  have d: "debit_at p (amount req) (objects s) = Returns (st, (objects s)(p \<mapsto> a'))"
    using live debit by (simp add: debit_at_def)
  show "process_payment W req txn s =
      (Returns (Result_fail (error_code (err st)) (error_message (err st))), failed_state P txn s)" if "Status_isErr st"
    using d debit_at_err [OF d that] that unfolding eq by (simp add: move_money_def fail_txn_state init)
  show "\<exists>l'. process_payment W req txn s =
      (Returns (Result_ok (setStatus CAPTURED txn)), captured_state P txn (posted_state h2 l' s))"
    if ok: "Status_isOk st" and c: "credit_at q (amount req) ((objects s)(p \<mapsto> a')) = Returns (cst, h2)"
  proof -
    have pos: "0 \<le> units (amount req)" using debit_Returns_ok [of "amount req" a st a'] debit ok by simp
    obtain l' where l': "post_payment P req p q strategy auth (setStatus AUTHORIZED txn) (s\<lparr>objects := h2\<rparr>) =
        capture_payment P strategy auth (setStatus AUTHORIZED txn) (posted_state h2 l' s)"
      using post_payment_captures [OF pos] by metis
    have "move_money P req p q strategy auth (setStatus AUTHORIZED txn) s =
        capture_payment P strategy auth (setStatus AUTHORIZED txn) (posted_state h2 l' s)"
      using d c ok l' by (simp add: move_money_def Status_isErr_def)
    moreover have "Status_isOk (capture strategy (setStatus AUTHORIZED txn) auth)"
      using strategy(2) by (simp add: approving_def)
    ultimately show ?thesis
      unfolding eq by (cases rule: capture_payment_cases [of strategy txn auth P "posted_state h2 l' s"])
        (auto simp: Status_isErr_def)
  qed
qed

text \<open>The same for a whole call.\<close>

lemma pay_reaches_process:
  assumes W: "ports W = P" and key: "key_view (idempotency s) (idempotencyKey req) = None"
    and ids: "payerAccountId req \<noteq> []" "payeeAccountId req \<noteq> []" and free: "lock_key req \<notin> held (locks s)"
  obtains g ks dl where "pay W now req s =
      (case process_payment W req (new_txn now req s) (s\<lparr>txnIds := g, idempotency := ks, locks := dl\<rparr>) of
         (res, s1) \<Rightarrow> (res, s1\<lparr>locks := locks_release P (lock_key req) (locks s1)\<rparr>))"
proof -
  obtain ks where ks: "pay W now req s =
      with_outcome (build now (request_builder req (id_text (prefix (txnIds s)) (counter (txnIds s))))) (locked_payment W req)
        (s\<lparr>txnIds := snd (next_id (txnIds s)), idempotency := ks\<rparr>)"
    using pay_fresh [OF W key] by metis
  obtain dl where "locks_acquire P (lock_key req) (locks s) = Some dl"
    using dl.acquire_free [OF free] by blast
  with ids show ?thesis
    by (intro that [of dl ks "snd (next_id (txnIds s))"]) (simp add: ks build_request locked_payment_def W)
qed

text \<open>An approved request is captured when the payer covers it, and the money moves.\<close>

lemma pay_captures:
  assumes W: "ports W = P" and reg: "registered (objects s) (acc_view (accounts s))" and fund: "funded (objects s)"
    and key: "key_view (idempotency s) (idempotencyKey req) = None" and free: "lock_key req \<notin> held (locks s)"
    and sp: "spendable W req"
    and p: "acc_view (accounts s) (payerAccountId req) = Some p" "objects s p = Some a"
    and q: "acc_view (accounts s) (payeeAccountId req) = Some q"
    and cover: "account_currency a = currency (amount req)" "0 \<le> units (amount req)" "units (amount req) \<le> funds a"
  obtains s' where "pay W now req s = (Returns (Result_ok (setStatus CAPTURED (new_txn now req s))), s')"
    and "transferred p q (amount req) (objects s) (objects s')"
proof -
  let ?txn = "new_txn now req s"
  obtain strategy where st: "create (strategies W) (req_method req) = Some strategy" "approving strategy"
    and ids: "payerAccountId req \<noteq> []" "payeeAccountId req \<noteq> []" using sp by (auto simp: spendable_def)
  obtain bal where d: "debit (amount req) a = Returns (Status_ok, a\<lparr>balance := bal\<rparr>)"
    using cover by (metis debit_covered)
  let ?h1 = "(objects s)(p \<mapsto> a\<lparr>balance := bal\<rparr>)"
  have dat: "debit_at p (amount req) (objects s) = Returns (Status_ok, ?h1)" using p d by (simp add: debit_at_def)
  obtain b where b: "objects s q = Some b"
    using ar.registered_find [OF reg, of "payeeAccountId req" q] q by (auto simp: ar.find_view)
  then obtain b1 where b1: "?h1 q = Some b1" by (cases "q = p") auto
  have "credit_at q (amount req) ?h1 \<noteq> Undefined"
    using fund by (intro no_credit_overflow [OF _ _ _ dat _ b1]) (simp_all add: funded_def)
  then obtain cst h2 where c: "credit_at q (amount req) ?h1 = Returns (cst, h2)"
    using credit_at_cases [of ?h1 q b1 "amount req"] b1 by metis
  obtain g ks dl where pay: "pay W now req s =
      (case process_payment W req ?txn (s\<lparr>txnIds := g, idempotency := ks, locks := dl\<rparr>) of
         (res, s1) \<Rightarrow> (res, s1\<lparr>locks := locks_release P (lock_key req) (locks s1)\<rparr>))"
    by (rule pay_reaches_process [OF W key ids free, of now])
  let ?s = "s\<lparr>txnIds := g, idempotency := ks, locks := dl\<rparr>"
  have views: "acc_view (accounts ?s) (payerAccountId req) = Some p" "acc_view (accounts ?s) (payeeAccountId req) = Some q"
    "objects ?s p = Some a" using p q by simp_all
  have cc: "credit_at q (amount req) ((objects ?s)(p \<mapsto> a\<lparr>balance := bal\<rparr>)) = Returns (cst, h2)"
    using c by simp
  obtain l' where l': "process_payment W req ?txn ?s =
      (Returns (Result_ok (setStatus CAPTURED ?txn)), captured_state P ?txn (posted_state h2 l' ?s))"
    using process_captured [OF W new_txn_sel(7) spendable_run [OF sp] views(1,2) st views(3) d Status_isOk_simps(1) cc]
    by blast
  have "transferred p q (amount req) (objects s) h2"
    unfolding transferred_def using dat c by force
  then show ?thesis
    by (intro that [OF pay [unfolded l' prod.case]]) (simp add: captured_state_def posted_state_def)
qed

text \<open>An approved request the payer does not cover is refused with \<open>INSUFFICIENT_FUNDS\<close>; nothing moves.\<close>

lemma pay_insufficient:
  assumes W: "ports W = P"
    and key: "key_view (idempotency s) (idempotencyKey req) = None" and free: "lock_key req \<notin> held (locks s)"
    and sp: "spendable W req"
    and p: "acc_view (accounts s) (payerAccountId req) = Some p" "objects s p = Some a"
    and q: "acc_view (accounts s) (payeeAccountId req) = Some q"
    and short: "account_currency a = currency (amount req)" "0 \<le> units (amount req)" "funds a < units (amount req)"
  obtains s' where "pay W now req s = (Returns (Result_fail INSUFFICIENT_FUNDS
      (''balance '' @ Money_toString (balance a) @ '' < debit '' @ Money_toString (amount req))), s')"
    and "objects s' = objects s" and "ledger s' = ledger s"
proof -
  let ?txn = "new_txn now req s"
  let ?msg = "''balance '' @ Money_toString (balance a) @ '' < debit '' @ Money_toString (amount req)"
  obtain strategy where st: "create (strategies W) (req_method req) = Some strategy" "approving strategy"
    and ids: "payerAccountId req \<noteq> []" "payeeAccountId req \<noteq> []" using sp by (auto simp: spendable_def)
  have d: "debit (amount req) a = Returns (Status_fail INSUFFICIENT_FUNDS ?msg, a)"
    by (rule debit_cases [of "amount req" a]) (use short in auto)
  obtain g ks dl where pay: "pay W now req s =
      (case process_payment W req ?txn (s\<lparr>txnIds := g, idempotency := ks, locks := dl\<rparr>) of
         (res, s1) \<Rightarrow> (res, s1\<lparr>locks := locks_release P (lock_key req) (locks s1)\<rparr>))"
    by (rule pay_reaches_process [OF W key ids free, of now])
  let ?s = "s\<lparr>txnIds := g, idempotency := ks, locks := dl\<rparr>"
  have views: "acc_view (accounts ?s) (payerAccountId req) = Some p" "acc_view (accounts ?s) (payeeAccountId req) = Some q"
    "objects ?s p = Some a" using p q by simp_all
  have l: "process_payment W req ?txn ?s = (Returns (Result_fail INSUFFICIENT_FUNDS ?msg), failed_state P ?txn ?s)"
    by (rule process_declined [OF W new_txn_sel(7) spendable_run [OF sp] views(1,2) st views(3) d,
        unfolded Status_fail_sel Status_isErr_simps]) (rule ErrorCode.distinct)
  show ?thesis
    by (rule that [OF pay [unfolded l prod.case]]) (simp_all add: failed_state_def)
qed

text \<open>A request the chain rejects is answered with the rejection; nothing moves.\<close>

lemma pay_rejected:
  assumes W: "ports W = P"
    and key: "key_view (idempotency s) (idempotencyKey req) = None" and free: "lock_key req \<notin> held (locks s)"
    and ids: "payerAccountId req \<noteq> []" "payeeAccountId req \<noteq> []"
    and run: "run (validation W) (new_txn now req s) = Returns v" "Status_isErr v"
  obtains s' where "pay W now req s = (Returns (Result_fail (error_code (err v)) (error_message (err v))), s')"
    and "objects s' = objects s" and "ledger s' = ledger s" and "accounts s' = accounts s"
proof -
  let ?txn = "new_txn now req s"
  obtain g ks dl where pay: "pay W now req s =
      (case process_payment W req ?txn (s\<lparr>txnIds := g, idempotency := ks, locks := dl\<rparr>) of
         (res, s1) \<Rightarrow> (res, s1\<lparr>locks := locks_release P (lock_key req) (locks s1)\<rparr>))"
    by (rule pay_reaches_process [OF W key ids free, of now])
  let ?s = "s\<lparr>txnIds := g, idempotency := ks, locks := dl\<rparr>"
  have l: "process_payment W req ?txn ?s =
      (Returns (Result_fail (error_code (err v)) (error_message (err v))), failed_state P ?txn ?s)"
    using run by (simp add: process_payment_def W fail_txn_state(1) [OF new_txn_sel(7)])
  show ?thesis
    by (rule that [OF pay [unfolded l prod.case]]) (simp_all add: failed_state_def)
qed

text \<open>One more payment of a wallet: it goes through and costs the amount, or the wallet is short and keeps what it has.\<close>

lemma spend_once:
  assumes W: "ports W = P" and xy: "payerAccountId req \<noteq> payeeAccountId req" and pos: "0 < units (amount req)"
    and reg: "registered (objects s) (acc_view (accounts s))" and fund: "funded (objects s)"
    and key: "key_view (idempotency s) (idempotencyKey req) = None" and free: "lock_key req \<notin> held (locks s)"
    and sp: "spendable W req"
    and p: "acc_view (accounts s) (payerAccountId req) = Some p" "objects s p = Some a" "account_currency a = currency (amount req)"
    and q: "acc_view (accounts s) (payeeAccountId req) = Some q" "same_currency (objects s) q (amount req)"
    and pay: "pay W now req s = (res, s1)"
  obtains u a1 where "res = Returns u" "objects s1 p = Some a1" "account_currency a1 = account_currency a"
    and "min (1 + int n) (funds a div units (amount req)) =
      (if succeeded res then 1 else 0) + min (int n) (funds a1 div units (amount req))"
    and "funds a1 = funds a - (if succeeded res then 1 else 0) * units (amount req)"
proof (cases "units (amount req) \<le> funds a")
  case True
  obtain s' where s': "pay W now req s = (Returns (Result_ok (setStatus CAPTURED (new_txn now req s))), s')"
    and t: "transferred p q (amount req) (objects s) (objects s')"
    by (rule pay_captures [OF W reg fund key free sp p(1,2) q(1) p(3), of now]) (use pos True in simp_all)
  obtain a1 where a1: "objects s' p = Some a1" "account_currency a1 = account_currency a"
    using shape_Some [OF transferred_shape [OF t] p(2)] by metis
  have "p \<noteq> q" using ar.registered_distinct [OF reg, of "payerAccountId req" p "payeeAccountId req" q] p(1) q(1) xy
    by (simp add: ar.find_view)
  with transferred_holding [OF t q(2), of "currency (amount req)" p] p a1
  have "funds a1 = funds a - units (amount req)" by (simp add: in_currency_def)
  then show ?thesis
    using that [of _ a1] a1 s' pay affordable_step(1) [OF pos True, of n] by simp
next
  case False
  then have short: "funds a < units (amount req)" and nonneg: "0 \<le> units (amount req)" using pos by simp_all
  obtain s' c where s': "pay W now req s = (Returns (Result_fail INSUFFICIENT_FUNDS c), s')" "objects s' = objects s"
    by (rule pay_insufficient [OF W key free sp p(1,2) q(1) p(3) nonneg short, of now]) simp
  have "0 \<le> funds a" using fund p(2) by (auto simp: funded_def solvent_def)
  then show ?thesis
    using that [of _ a] p(2) s' pay affordable_step(2) [OF pos _ short, of n] by simp
qed

text \<open>One wallet can be spent exactly as often as its balance allows.\<close>

lemma pays_spend:
  assumes W: "ports W = P" and xy: "x \<noteq> y" and pos: "0 < units m"
    and "registered (objects s) (acc_view (accounts s))" "txn_inv (transactions s)" "funded (objects s)"
    and "''account:'' @ x \<notin> held (locks s)" "spending W x y m (key_view (idempotency s)) rs"
    and "acc_view (accounts s) x = Some p" "objects s p = Some a" "account_currency a = currency m"
    and "acc_view (accounts s) y = Some q" "same_currency (objects s) q m"
  shows "int (length (filter succeeded (fst (pays W rs s)))) = min (int (length rs)) (funds a div units m) \<and>
    (\<exists>a'. objects (snd (pays W rs s)) p = Some a' \<and>
       funds a' = funds a - min (int (length rs)) (funds a div units m) * units m) \<and>
    (\<forall>r \<in> set (fst (pays W rs s)). \<exists>u. r = Returns u)"
  using assms(4-)
proof (induction rs arbitrary: s a)
  case Nil
  then show ?case by (auto simp: funded_def solvent_def pos pos_imp_zdiv_nonneg_iff)
next
  case (Cons z rs)
  obtain now req where z: "z = (now, req)" by fastforce
  note reg = Cons.prems(1) and fund = Cons.prems(3) and p = Cons.prems(6,7) and q = Cons.prems(9,10)
  from Cons.prems(5) have req: "key_view (idempotency s) (idempotencyKey req) = None" "spendable W req"
    "payerAccountId req = x" "payeeAccountId req = y" "amount req = m" by (auto simp: z spending_def)
  have free: "lock_key req \<notin> held (locks s)" using Cons.prems(4) req(3) by (simp add: lock_key_def)
  obtain res s1 where pay: "pay W now req s = (res, s1)" by fastforce
  obtain u a1 where once: "res = Returns u" "objects s1 p = Some a1" "account_currency a1 = account_currency a"
    "min (1 + int (length rs)) (funds a div units m) = (if succeeded res then 1 else 0) + min (int (length rs)) (funds a1 div units m)"
    "funds a1 = funds a - (if succeeded res then 1 else 0) * units m"
    by (rule spend_once [OF W _ _ reg fund req(1) free req(2) _ p(2) _ _ _ pay, of q "length rs"])
      (use xy pos p q req Cons.prems(8) in simp_all)
  have match: "matched (objects s) (acc_view (accounts s)) req"
    using Cons.prems(8) req p q by (auto simp: matched_def same_currency_def)
  have "res \<noteq> Undefined" using once(1) by simp
  note c = pay_conserves [OF W reg fund match pay this]
  have next1: "registered (objects s1) (acc_view (accounts s1))" "txn_inv (transactions s1)" "accounts s1 = accounts s"
    using pay_preserves [OF W reg Cons.prems(2), of now req] pay_keeps(1) [OF W reg Cons.prems(2), of now req]
    by (simp_all add: pay)
  have keys1: "spending W x y m (key_view (idempotency s1)) rs"
    using pay_keys [OF W reg, of now req] spending_Cons Cons.prems(5) req(1) by (simp add: z pay)
  have free1: "''account:'' @ x \<notin> held (locks s1)"
    using pay_locks [OF W reg, of now req] Cons.prems(4) by (simp add: pay)
  have sc1: "same_currency (objects s1) q m"
    using same_currency_shape [OF c(2)] q(2) by simp
  from Cons.IH [OF next1(1,2) c(4) free1 keys1 _ once(2) _ _ sc1] next1(3) p(1) q(1) once(3) Cons.prems(8)
  show ?case using once(1,4,5) by (auto simp: z pay algebra_simps)
qed

text \<open>
  The payee's part of the journal: as many credits of the amount as payments went through, provided
  that no strategy declines a capture.
\<close>

lemma pays_credit:
  assumes W: "ports W = P" and xy: "x \<noteq> y" and appr: "\<And>n. approves (strategies W) n"
    and "registered (objects s) (acc_view (accounts s))" "txn_inv (transactions s)"
    and "spending W x y m (key_view (idempotency s)) rs"
  shows "credits_of y (journal (ledger (snd (pays W rs s)))) =
    credits_of y (journal (ledger s)) @ replicate (length (filter succeeded (fst (pays W rs s)))) (CREDIT, m)"
  using assms(4-)
proof (induction rs arbitrary: s)
  case (Cons z rs)
  obtain now req where z: "z = (now, req)" by fastforce
  note reg = Cons.prems(1)
  from Cons.prems(3) have req: "key_view (idempotency s) (idempotencyKey req) = None"
    "payerAccountId req = x" "payeeAccountId req = y" "amount req = m" by (auto simp: z spending_def)
  obtain res s1 where pay: "pay W now req s = (res, s1)" by fastforce
  have keys1: "spending W x y m (key_view (idempotency s1)) rs"
    using pay_keys [OF W reg, of now req] spending_Cons Cons.prems(3) req(1) by (simp add: z pay)
  have pre: "registered (objects s1) (acc_view (accounts s1))" "txn_inv (transactions s1)"
    using pay_preserves [OF W reg Cons.prems(2), of now req] by (simp_all add: pay)
  have "credits_of y (journal (ledger s1)) = credits_of y (journal (ledger s)) @ (if succeeded res then [(CREDIT, m)] else [])"
    by (rule pay_cases [OF W reg pay])
      (use req xy appr in \<open>auto simp: same_books_def succeeded_def credits_of_def payment_posting_def mkPosting_def
        split: outcome.splits\<close>)
  with Cons.IH [OF pre keys1] show ?case by (simp add: z pay)
qed simp

end

end
