(* ===== verification/Machine.thy ===== *)
theory Machine
  imports Prelude
begin

text \<open>
  Concurrent components are step relations. Here is what they share: finite sequences of steps with
  their events, and the argument that a machine comes to rest, as a locale over its step relation, an
  invariant and a potential that every step lowers.
\<close>

inductive steps :: "('s \<Rightarrow> 'e list \<Rightarrow> 's \<Rightarrow> bool) \<Rightarrow> nat \<Rightarrow> 's \<Rightarrow> 'e list \<Rightarrow> 's \<Rightarrow> bool"
  for step where
  none: "steps step 0 s [] s"
| more: "step s es t \<Longrightarrow> steps step k t fs u \<Longrightarrow> steps step (Suc k) s (es @ fs) u"

definition at_rest :: "('s \<Rightarrow> 'e list \<Rightarrow> 's \<Rightarrow> bool) \<Rightarrow> 's \<Rightarrow> bool" where
  "at_rest step s \<longleftrightarrow> (\<nexists>es t. step s es t)"

text \<open>The same sequences, extended at their end: what inductions over histories use.\<close>

inductive runs :: "('s \<Rightarrow> 'e list \<Rightarrow> 's \<Rightarrow> bool) \<Rightarrow> 's \<Rightarrow> 'e list \<Rightarrow> 's \<Rightarrow> bool"
  for step s where
  start: "runs step s [] s"
| extend: "runs step s es t \<Longrightarrow> step t fs u \<Longrightarrow> runs step s (es @ fs) u"

lemma runs_steps: "steps step k t fs u \<Longrightarrow> runs step s es t \<Longrightarrow> runs step s (es @ fs) u"
proof (induction arbitrary: es rule: steps.induct)
  case (more t es' u k fs v)
  from more.IH [OF runs.extend [OF more.prems more.hyps(1)]] show ?case by simp
qed simp

lemma steps_snoc: "steps step k s es t \<Longrightarrow> step t fs u \<Longrightarrow> steps step (Suc k) s (es @ fs) u"
proof (induction rule: steps.induct)
  case (none s)
  from steps.more [of step, OF none steps.none] show ?case by simp
next
  case (more s es t k gs u')
  from steps.more [of step, OF more.hyps(1) more.IH [OF more.prems]] show ?case by simp
qed

lemma runs_iff_steps: "runs step s es t \<longleftrightarrow> (\<exists>k. steps step k s es t)"
proof
  show "runs step s es t \<Longrightarrow> \<exists>k. steps step k s es t"
    by (induction rule: runs.induct) (auto intro: steps.none steps_snoc)
  assume "\<exists>k. steps step k s es t"
  then show "runs step s es t" using runs_steps [OF _ runs.start] by fastforce
qed

locale machine =
  fixes step :: "'s \<Rightarrow> 'e list \<Rightarrow> 's \<Rightarrow> bool"
    and inv :: "'s \<Rightarrow> bool"
    and potential :: "'s \<Rightarrow> nat"
  assumes inv_step: "inv s \<Longrightarrow> step s es t \<Longrightarrow> inv t"
    and potential_step: "inv s \<Longrightarrow> step s es t \<Longrightarrow> potential t < potential s"
begin

lemma steps_inv: "steps step k s es t \<Longrightarrow> inv s \<Longrightarrow> inv t"
  by (induction rule: steps.induct) (auto intro: inv_step)

lemma runs_inv: "runs step s es t \<Longrightarrow> inv s \<Longrightarrow> inv t"
  by (induction rule: runs.induct) (auto intro: inv_step)

text \<open>No sequence of steps is longer than the potential it starts with.\<close>

lemma steps_bounded: "steps step k s es t \<Longrightarrow> inv s \<Longrightarrow> k + potential t \<le> potential s"
proof (induction rule: steps.induct)
  case (more s es t k fs u)
  then show ?case using inv_step [OF more.prems more.hyps(1)] potential_step [OF more.prems more.hyps(1)] by linarith
qed simp

text \<open>However the steps are chosen, the machine comes to rest.\<close>

lemma comes_to_rest: "inv s \<Longrightarrow> \<exists>k es t. steps step k s es t \<and> at_rest step t"
proof (induction "potential s" arbitrary: s rule: less_induct)
  case less
  show ?case
  proof (cases "at_rest step s")
    case True
    then show ?thesis by (intro exI conjI) (rule steps.none)
  next
    case False
    then obtain es t where st: "step s es t" unfolding at_rest_def by blast
    from less.hyps [OF potential_step [OF less.prems st] inv_step [OF less.prems st]]
    obtain k fs u where "steps step k t fs u" "at_rest step u" by blast
    with steps.more [of step s es t, OF st] show ?thesis by blast
  qed
qed

end

end
