(* ===== verification/Payment_Threads.thy ===== *)
theory Payment_Threads
  imports Payment_Service Machine
begin

text \<open>
  Calls of \<open>pay\<close> in several threads at once. A stage is where a call is, with the values of its local
  variables; \<open>call_step\<close> takes it to the next stage. One step makes one access to state the calls share:
  one call of a port, one \<open>debit\<close> or \<open>credit\<close>, one draw from a counter, each of which is atomic in the
  program (the adapters and accounts hold their mutex, the counters are \<open>std::atomic\<close>). Local computation,
  and what reads only state no call changes (the validation chain, the account repository, the
  strategies), belongs to the step before or after it. Delivering an event to the subscribers belongs to
  the step that logs it. A call that waits for a lock has no step until the lock is free.

  Taken alone, the steps of a call are exactly \<open>pay\<close>: \<open>steps_pay\<close>.
\<close>

section \<open>Stages\<close>

record Attempt =
  attempt_txn :: Transaction
  from_account :: addr
  to_account :: addr
  chosen :: PaymentStrategy
  gateway :: GatewayRef

datatype Stage =
    Minting
  | Claiming string
  | Duplicate
  | Replaying string
  | Locking Transaction
  | Checking Transaction
  | Debiting Attempt
  | Crediting Attempt
  | Numbering Attempt "(string \<times> int64) list"
  | Sequencing Attempt "(string \<times> int64) list" string
  | Posting Attempt "(string \<times> int64) list"
  | Recrediting Attempt Error
  | Redebiting Attempt Error
  | Saving Transaction string "Transaction Result"
  | Publishing Transaction string "Transaction Result"
  | Releasing "Transaction Result outcome"
  | Finished "Transaction Result outcome"

text \<open>A local computation that may end the call: with its outcome, by way of the guard if there is one.\<close>

fun proceed :: "'a outcome \<Rightarrow> ('a \<Rightarrow> Stage) \<Rightarrow> (Transaction Result outcome \<Rightarrow> Stage) \<Rightarrow> Stage" where
  "proceed (Returns x) f exit = f x"
| "proceed (Throws e) f exit = exit (Throws e)"
| "proceed Undefined f exit = exit Undefined"
| "proceed Blocks f exit = exit Blocks"

text \<open>A method call on an account object.\<close>

definition touch ::
    "(Status \<times> heap) outcome \<Rightarrow> (Status \<Rightarrow> Stage) \<Rightarrow> ('ar, 'tr, 'is, 'dl, 'lr, 'ev) Service
     \<Rightarrow> Stage \<times> ('ar, 'tr, 'is, 'dl, 'lr, 'ev) Service" where
  "touch m f s = (proceed m (\<lambda>(st, h). f st) Releasing,
     case m of Returns (st, h) \<Rightarrow> s\<lparr>objects := h\<rparr> | _ \<Rightarrow> s)"

text \<open>The beginning of \<open>fail\<close>, of the capture, and the answer to a duplicate.\<close>

definition failing :: "Transaction \<Rightarrow> Error \<Rightarrow> Stage" where
  "failing txn e = Saving (advance txn FAILED) ''PaymentFailed'' (Result_fail (error_code e) (error_message e))"

definition capturing :: "Attempt \<Rightarrow> Stage" where
  "capturing a =
     (let c = capture (chosen a) (attempt_txn a) (gateway a)
      in if Status_isErr c then failing (attempt_txn a) (err c)
         else let txn = advance (attempt_txn a) CAPTURED in Saving txn ''PaymentCaptured'' (Result_ok txn))"

definition duplicate_answer :: "PaymentRequest \<Rightarrow> Transaction Result" where
  "duplicate_answer req = Result_fail DUPLICATE_REQUEST (''duplicate request for idempotency key: '' @ idempotencyKey req)"

text \<open>The pair of postings, with an entry id and a sequence number for each.\<close>

definition numbered_posting :: "PaymentRequest \<Rightarrow> string \<Rightarrow> (string \<times> int64) list \<Rightarrow> LedgerEntry list" where
  "numbered_posting req txnId ns =
     map2 (\<lambda>(e, n) (account, dir). mkLedgerEntry e txnId account dir (amount req) n) ns
       [(payerAccountId req, DEBIT), (payeeAccountId req, CREDIT)]"

text \<open>From the validation to the authorisation.\<close>

definition check_request ::
    "('ar, 'tr, 'is, 'dl, 'lr, 'ev) Wiring \<Rightarrow> PaymentRequest \<Rightarrow> Transaction \<Rightarrow> 'ar \<Rightarrow> Stage" where
  "check_request W req txn ar =
     proceed (run (validation W) txn) (\<lambda>v.
       if Status_isErr v then failing txn (err v)
       else case accounts_find (ports W) (payerAccountId req) ar of
         None \<Rightarrow> failing txn (mkError ACCOUNT_NOT_FOUND ''payer not found'')
       | Some payer \<Rightarrow> (case accounts_find (ports W) (payeeAccountId req) ar of
         None \<Rightarrow> failing txn (mkError ACCOUNT_NOT_FOUND ''payee not found'')
       | Some payee \<Rightarrow> (case create (strategies W) (req_method req) of
         None \<Rightarrow> failing txn (mkError VALIDATION_FAILED ''unsupported payment method'')
       | Some strategy \<Rightarrow> (case authorize strategy txn of
         Result_err e \<Rightarrow> failing txn e
       | Result_ok auth \<Rightarrow>
           Debiting \<lparr>attempt_txn = advance txn AUTHORIZED, from_account = payer, to_account = payee,
             chosen = strategy, gateway = auth\<rparr>)))) Releasing"

section \<open>Steps of a call\<close>

fun call_step ::
    "('ar, 'tr, 'is, 'dl, 'lr, 'ev) Wiring \<Rightarrow> int64 \<Rightarrow> PaymentRequest \<Rightarrow> Stage
     \<Rightarrow> ('ar, 'tr, 'is, 'dl, 'lr, 'ev) Service
     \<Rightarrow> (Stage \<times> ('ar, 'tr, 'is, 'dl, 'lr, 'ev) Service) option" where
  "call_step W now req Minting s =
     (let (txnId, g) = next_id (txnIds s) in Some (Claiming txnId, s\<lparr>txnIds := g\<rparr>))"
| "call_step W now req (Claiming txnId) s =
     (let (won, ids) = idempotency_putIfAbsent (ports W) (idempotencyKey req) txnId (idempotency s)
      in Some (if won then proceed (build now (request_builder req txnId)) Locking Finished else Duplicate,
               s\<lparr>idempotency := ids\<rparr>))"
| "call_step W now req Duplicate s =
     Some (case idempotency_get (ports W) (idempotencyKey req) (idempotency s) of
         Some existingId \<Rightarrow> Replaying existingId
       | None \<Rightarrow> Finished (Returns (duplicate_answer req)), s)"
| "call_step W now req (Replaying existingId) s =
     Some (Finished (Returns (case transactions_find (ports W) existingId (transactions s) of
         Some prior \<Rightarrow> Result_ok prior
       | None \<Rightarrow> duplicate_answer req)), s)"
| "call_step W now req (Locking txn) s =
     map_option (\<lambda>dl. (Checking txn, s\<lparr>locks := dl\<rparr>)) (locks_acquire (ports W) (lock_key req) (locks s))"
| "call_step W now req (Checking txn) s = Some (check_request W req txn (accounts s), s)"
| "call_step W now req (Debiting a) s =
     Some (touch (debit_at (from_account a) (amount req) (objects s))
       (\<lambda>d. if Status_isErr d then failing (attempt_txn a) (err d) else Crediting a) s)"
| "call_step W now req (Crediting a) s =
     Some (touch (credit_at (to_account a) (amount req) (objects s)) (\<lambda>_. Numbering a []) s)"
| "call_step W now req (Numbering a ns) s =
     (let (e, g) = next_id (entryIds s) in Some (Sequencing a ns e, s\<lparr>entryIds := g\<rparr>))"
| "call_step W now req (Sequencing a ns e) s =
     (let ns' = ns @ [(e, seq s)]
      in Some (if length ns' < 2 then Numbering a ns' else Posting a ns', s\<lparr>seq := seq s + 1\<rparr>))"
| "call_step W now req (Posting a ns) s =
     (let m = ledger_post (ports W) (numbered_posting req (txn_id (attempt_txn a)) ns) (ledger s)
      in Some (proceed m (\<lambda>(p, l). if Status_isErr p then Recrediting a (err p) else capturing a) Releasing,
               case m of Returns (p, l) \<Rightarrow> s\<lparr>ledger := l\<rparr> | _ \<Rightarrow> s))"
| "call_step W now req (Recrediting a e) s =
     Some (touch (credit_at (from_account a) (amount req) (objects s)) (\<lambda>_. Redebiting a e) s)"
| "call_step W now req (Redebiting a e) s =
     Some (touch (debit_at (to_account a) (amount req) (objects s)) (\<lambda>_. failing (attempt_txn a) e) s)"
| "call_step W now req (Saving txn ty r) s =
     Some (Publishing txn ty r, s\<lparr>transactions := transactions_save (ports W) txn (transactions s)\<rparr>)"
| "call_step W now req (Publishing txn ty r) s =
     Some (Releasing (Returns r), publish_event (ports W) txn ty s)"
| "call_step W now req (Releasing r) s =
     Some (Finished r, s\<lparr>locks := locks_release (ports W) (lock_key req) (locks s)\<rparr>)"
| "call_step W now req (Finished r) s = None"

lemma call_step_None:
  "call_step W now req st s = None \<longleftrightarrow>
     (\<exists>txn. st = Locking txn \<and> locks_acquire (ports W) (lock_key req) (locks s) = None) \<or> (\<exists>r. st = Finished r)"
  by (cases st) (auto simp: split_beta Let_def)

section \<open>A call alone\<close>

text \<open>What a call still has to do from a stage, as the stages of \<open>pay\<close> in \<open>Payment_Service\<close> say it.\<close>

definition unlocked ::
    "('ar, 'tr, 'is, 'dl, 'lr, 'ev) Wiring \<Rightarrow> PaymentRequest
     \<Rightarrow> 'a \<times> ('ar, 'tr, 'is, 'dl, 'lr, 'ev) Service \<Rightarrow> 'a \<times> ('ar, 'tr, 'is, 'dl, 'lr, 'ev) Service" where
  "unlocked W req = (\<lambda>(res, s). (res, s\<lparr>locks := locks_release (ports W) (lock_key req) (locks s)\<rparr>))"

fun draw :: "nat \<Rightarrow> (string \<times> int64) list \<Rightarrow> ('ar, 'tr, 'is, 'dl, 'lr, 'ev) Service
     \<Rightarrow> (string \<times> int64) list \<times> ('ar, 'tr, 'is, 'dl, 'lr, 'ev) Service" where
  "draw 0 ns s = (ns, s)"
| "draw (Suc k) ns s =
     (let (e, g) = next_id (entryIds s) in draw k (ns @ [(e, seq s)]) (s\<lparr>entryIds := g, seq := seq s + 1\<rparr>))"

definition undo_payment ::
    "('ar, 'tr, 'is, 'dl, 'lr, 'ev) Wiring \<Rightarrow> PaymentRequest \<Rightarrow> Attempt \<Rightarrow> Error
     \<Rightarrow> ('ar, 'tr, 'is, 'dl, 'lr, 'ev) Service
     \<Rightarrow> Transaction Result outcome \<times> ('ar, 'tr, 'is, 'dl, 'lr, 'ev) Service" where
  "undo_payment W req a e s =
     with_outcome (debit_at (to_account a) (amount req) (objects s)) (\<lambda>(_, h) s.
       fail_txn (ports W) (attempt_txn a) (error_code e) (error_message e) (s\<lparr>objects := h\<rparr>)) s"

definition post_numbered ::
    "('ar, 'tr, 'is, 'dl, 'lr, 'ev) Wiring \<Rightarrow> PaymentRequest \<Rightarrow> Attempt
     \<Rightarrow> (string \<times> int64) list \<times> ('ar, 'tr, 'is, 'dl, 'lr, 'ev) Service
     \<Rightarrow> Transaction Result outcome \<times> ('ar, 'tr, 'is, 'dl, 'lr, 'ev) Service" where
  "post_numbered W req a = (\<lambda>(ns, s).
     with_outcome (ledger_post (ports W) (numbered_posting req (txn_id (attempt_txn a)) ns) (ledger s)) (\<lambda>(p, l) s.
       let s = s\<lparr>ledger := l\<rparr>
       in if Status_isErr p
          then with_outcome (credit_at (from_account a) (amount req) (objects s)) (\<lambda>(_, h) s.
                 undo_payment W req a (err p) (s\<lparr>objects := h\<rparr>)) s
          else capture_payment (ports W) (chosen a) (gateway a) (attempt_txn a) s) s)"

lemma post_payment_numbered:
  "post_payment (ports W) req (from_account a) (to_account a) (chosen a) (gateway a) (attempt_txn a) s =
   post_numbered W req a (draw 2 [] s)"
  unfolding post_payment_def post_numbered_def undo_payment_def Let_def
  by (simp add: numbered_posting_def mkPosting_def numeral_2_eq_2 split_beta add.commute)

fun remaining ::
    "('ar, 'tr, 'is, 'dl, 'lr, 'ev) Wiring \<Rightarrow> int64 \<Rightarrow> PaymentRequest \<Rightarrow> Stage
     \<Rightarrow> ('ar, 'tr, 'is, 'dl, 'lr, 'ev) Service
     \<Rightarrow> Transaction Result outcome \<times> ('ar, 'tr, 'is, 'dl, 'lr, 'ev) Service" where
  "remaining W now req Minting s = pay W now req s"
| "remaining W now req (Claiming txnId) s =
     (let (won, ids) = idempotency_putIfAbsent (ports W) (idempotencyKey req) txnId (idempotency s);
          s = s\<lparr>idempotency := ids\<rparr>
      in if \<not> won then (Returns (replay (ports W) req s), s)
         else with_outcome (build now (request_builder req txnId)) (locked_payment W req) s)"
| "remaining W now req Duplicate s = (Returns (replay (ports W) req s), s)"
| "remaining W now req (Replaying i) s =
     (Returns (case transactions_find (ports W) i (transactions s) of
         Some prior \<Rightarrow> Result_ok prior | None \<Rightarrow> duplicate_answer req), s)"
| "remaining W now req (Locking txn) s = locked_payment W req txn s"
| "remaining W now req (Checking txn) s = unlocked W req (process_payment W req txn s)"
| "remaining W now req (Debiting a) s = unlocked W req
     (move_money (ports W) req (from_account a) (to_account a) (chosen a) (gateway a) (attempt_txn a) s)"
| "remaining W now req (Crediting a) s = unlocked W req
     (with_outcome (credit_at (to_account a) (amount req) (objects s)) (\<lambda>(_, h) s.
        post_numbered W req a (draw 2 [] (s\<lparr>objects := h\<rparr>))) s)"
| "remaining W now req (Numbering a ns) s = unlocked W req (post_numbered W req a (draw (Suc (1 - length ns)) ns s))"
| "remaining W now req (Sequencing a ns e) s = unlocked W req
     (post_numbered W req a (draw (1 - length ns) (ns @ [(e, seq s)]) (s\<lparr>seq := seq s + 1\<rparr>)))"
| "remaining W now req (Posting a ns) s = unlocked W req (post_numbered W req a (ns, s))"
| "remaining W now req (Recrediting a e) s = unlocked W req
     (with_outcome (credit_at (from_account a) (amount req) (objects s)) (\<lambda>(_, h) s.
        undo_payment W req a e (s\<lparr>objects := h\<rparr>)) s)"
| "remaining W now req (Redebiting a e) s = unlocked W req (undo_payment W req a e s)"
| "remaining W now req (Saving txn ty r) s = unlocked W req
     (Returns r, publish_event (ports W) txn ty (s\<lparr>transactions := transactions_save (ports W) txn (transactions s)\<rparr>))"
| "remaining W now req (Publishing txn ty r) s = unlocked W req (Returns r, publish_event (ports W) txn ty s)"
| "remaining W now req (Releasing r) s = unlocked W req (r, s)"
| "remaining W now req (Finished r) s = (r, s)"

lemma remaining_failing:
  "remaining W now req (failing txn e) s = unlocked W req (fail_txn (ports W) txn (error_code e) (error_message e) s)"
  by (simp add: failing_def fail_txn_def Let_def)

lemma remaining_capturing:
  "remaining W now req (capturing a) s =
     unlocked W req (capture_payment (ports W) (chosen a) (gateway a) (attempt_txn a) s)"
  by (simp add: capturing_def capture_payment_def remaining_failing Let_def)

lemma remaining_touch:
  "(st', s') = touch m f s \<Longrightarrow> remaining W now req st' s' =
     (case m of Returns (st, h) \<Rightarrow> remaining W now req (f st) (s\<lparr>objects := h\<rparr>)
      | Throws e \<Rightarrow> unlocked W req (Throws e, s)
      | Undefined \<Rightarrow> unlocked W req (Undefined, s)
      | Blocks \<Rightarrow> unlocked W req (Blocks, s))"
  by (cases m) (auto simp: touch_def)

lemma remaining_check:
  "remaining W now req (check_request W req txn (accounts s)) s = unlocked W req (process_payment W req txn s)"
  by (cases "run (validation W) txn")
    (simp_all add: check_request_def process_payment_def remaining_failing mkError_def split: option.split Result.split)

lemma remaining_step:
  assumes "call_step W now req st s = Some (st', s')"
  shows "remaining W now req st' s' = remaining W now req st s"
proof (cases st)
  case Minting
  with assms show ?thesis by (auto simp: pay_def split_beta Let_def)
next
  case (Claiming txnId)
  with assms show ?thesis
    by (cases "build now (request_builder req txnId)") (auto simp: split_beta Let_def)
next
  case Duplicate
  with assms show ?thesis by (auto simp: replay_def duplicate_answer_def split: option.splits)
next
  case (Locking txn)
  with assms show ?thesis by (auto simp: locked_payment_def unlocked_def split_beta)
next
  case (Checking txn)
  with assms remaining_check show ?thesis by auto
next
  case (Debiting a)
  let ?d = "debit_at (from_account a) (amount req) (objects s)"
  from assms have "(st', s') = touch ?d (\<lambda>d. if Status_isErr d then failing (attempt_txn a) (err d) else Crediting a) s" by (simp add: Debiting)
  from remaining_touch [OF this, of W now req] show ?thesis
    by (cases ?d) (auto simp: Debiting move_money_def remaining_failing post_payment_numbered Let_def)
next
  case (Crediting a)
  let ?d = "credit_at (to_account a) (amount req) (objects s)"
  from assms have "(st', s') = touch ?d (\<lambda>_. Numbering a []) s" by (simp add: Crediting)
  from remaining_touch [OF this, of W now req] show ?thesis
    by (cases ?d) (auto simp: Crediting numeral_2_eq_2)
next
  case (Numbering a ns)
  with assms show ?thesis by (auto simp: split_beta Let_def)
next
  case (Sequencing a ns e)
  with assms show ?thesis by (cases ns) (auto simp: split_beta Let_def)
next
  case (Posting a ns)
  let ?m = "ledger_post (ports W) (numbered_posting req (txn_id (attempt_txn a)) ns) (ledger s)"
  show ?thesis
    using assms by (cases ?m) (auto simp: Posting post_numbered_def remaining_capturing Let_def split: if_splits)
next
  case (Recrediting a e)
  let ?d = "credit_at (from_account a) (amount req) (objects s)"
  from assms have "(st', s') = touch ?d (\<lambda>_. Redebiting a e) s" by (simp add: Recrediting)
  from remaining_touch [OF this, of W now req] show ?thesis by (cases ?d) (auto simp: Recrediting)
next
  case (Redebiting a e)
  let ?d = "debit_at (to_account a) (amount req) (objects s)"
  from assms have "(st', s') = touch ?d (\<lambda>_. failing (attempt_txn a) e) s" by (simp add: Redebiting)
  from remaining_touch [OF this, of W now req] show ?thesis
    by (cases ?d) (auto simp: Redebiting undo_payment_def remaining_failing)
qed (use assms in \<open>auto simp: unlocked_def\<close>)

section \<open>Calls together\<close>

record 'svc Traffic =
  service :: 'svc
  stages :: "Stage list"

text \<open>
  A call takes effect at the step that decides its answer: when the payee is credited, or the payment is
  refused or ends in an exception. A call whose key is taken takes no effect. The events of a step are
  the calls that take effect in it.
\<close>

fun undecided :: "Stage \<Rightarrow> bool" where
  "undecided Minting = True"
| "undecided (Claiming txnId) = True"
| "undecided (Locking txn) = True"
| "undecided (Checking txn) = True"
| "undecided (Debiting a) = True"
| "undecided (Crediting a) = True"
| "undecided st = False"

definition takes_effect :: "Stage \<Rightarrow> Stage \<Rightarrow> bool" where
  "takes_effect st st' \<longleftrightarrow> undecided st \<and> \<not> undecided st' \<and> st' \<noteq> Duplicate"

inductive traffic_step ::
    "('ar, 'tr, 'is, 'dl, 'lr, 'ev) Wiring \<Rightarrow> (int64 \<times> PaymentRequest) list
     \<Rightarrow> ('ar, 'tr, 'is, 'dl, 'lr, 'ev) Service Traffic \<Rightarrow> nat list
     \<Rightarrow> ('ar, 'tr, 'is, 'dl, 'lr, 'ev) Service Traffic \<Rightarrow> bool" for W calls where
  moves: "i < length (stages t) \<Longrightarrow> calls ! i = (now, req) \<Longrightarrow>
     call_step W now req (stages t ! i) (service t) = Some (st, s) \<Longrightarrow>
     traffic_step W calls t (if takes_effect (stages t ! i) st then [i] else [])
       \<lparr>service = s, stages = (stages t)[i := st]\<rparr>"

definition new_traffic :: "(int64 \<times> PaymentRequest) list \<Rightarrow> 'svc \<Rightarrow> 'svc Traffic" where
  "new_traffic calls s = \<lparr>service = s, stages = replicate (length calls) Minting\<rparr>"

inductive_cases traffic_stepE: "traffic_step W calls t es u"

lemma at_rest_traffic:
  "at_rest (traffic_step W calls) t \<longleftrightarrow> (\<forall>i < length (stages t).
     call_step W (fst (calls ! i)) (snd (calls ! i)) (stages t ! i) (service t) = None)"
  unfolding at_rest_def
proof
  assume n: "\<nexists>es u. traffic_step W calls t es u"
  show "\<forall>i < length (stages t). call_step W (fst (calls ! i)) (snd (calls ! i)) (stages t ! i) (service t) = None"
  proof (intro allI impI)
    fix i assume i: "i < length (stages t)"
    show "call_step W (fst (calls ! i)) (snd (calls ! i)) (stages t ! i) (service t) = None"
    proof (rule ccontr)
      assume "call_step W (fst (calls ! i)) (snd (calls ! i)) (stages t ! i) (service t) \<noteq> None"
      then obtain st s where "call_step W (fst (calls ! i)) (snd (calls ! i)) (stages t ! i) (service t) = Some (st, s)"
        by auto
      from moves [OF i prod.collapse [symmetric] this] n show False by blast
    qed
  qed
qed (auto elim!: traffic_stepE)

lemma traffic_steps_length: "runs (traffic_step W calls) t es u \<Longrightarrow> length (stages u) = length (stages t)"
  by (induction rule: runs.induct) (auto elim!: traffic_stepE)

text \<open>The steps of one call on its own are \<open>pay\<close>.\<close>

lemma alone_remaining:
  assumes "runs (traffic_step W [(now, req)]) t es u" "stages t = [st]"
  shows "\<exists>st'. stages u = [st'] \<and> remaining W now req st' (service u) = remaining W now req st (service t)"
  using assms
proof (induction rule: runs.induct)
  case (extend es u fs v)
  from extend.IH [OF extend.prems] obtain st' where
    st': "stages u = [st']" "remaining W now req st' (service u) = remaining W now req st (service t)" by blast
  from extend.hyps(2) show ?case
    by cases (use st' in \<open>auto dest: remaining_step\<close>)
qed simp

lemma steps_pay:
  assumes run: "runs (traffic_step W [(now, req)]) (new_traffic [(now, req)] s) es u"
    and rest: "at_rest (traffic_step W [(now, req)]) u"
  shows "(\<exists>r. stages u = [Finished r] \<and> pay W now req s = (r, service u)) \<or>
    (\<exists>txn. stages u = [Locking txn] \<and> locks_acquire (ports W) (lock_key req) (locks (service u)) = None \<and>
       pay W now req s = (Blocks, service u))"
proof -
  obtain st where st: "stages u = [st]" "remaining W now req st (service u) = pay W now req s"
    using alone_remaining [OF run] by (auto simp: new_traffic_def)
  have "call_step W now req st (service u) = None"
    using rest st(1) by (simp add: at_rest_traffic)
  with st show ?thesis by (auto simp: call_step_None locked_payment_def)
qed

section \<open>Every call ends\<close>

text \<open>The number of steps a call can still take.\<close>

fun distance :: "Stage \<Rightarrow> nat" where
  "distance Minting = 16"
| "distance (Claiming txnId) = 15"
| "distance Duplicate = 2"
| "distance (Replaying i) = 1"
| "distance (Locking txn) = 14"
| "distance (Checking txn) = 13"
| "distance (Debiting a) = 12"
| "distance (Crediting a) = 11"
| "distance (Numbering a ns) = (if ns = [] then 10 else 8)"
| "distance (Sequencing a ns e) = (if ns = [] then 9 else 7)"
| "distance (Posting a ns) = 6"
| "distance (Recrediting a e) = 5"
| "distance (Redebiting a e) = 4"
| "distance (Saving txn ty r) = 3"
| "distance (Publishing txn ty r) = 2"
| "distance (Releasing r) = 1"
| "distance (Finished r) = 0"

definition to_go :: "'svc Traffic \<Rightarrow> nat" where
  "to_go t = sum_list (map distance (stages t))"

lemma distance_proceed:
  "(\<And>x. m = Returns x \<Longrightarrow> distance (f x) < n) \<Longrightarrow> (\<And>r. distance (exit r) < n) \<Longrightarrow> distance (proceed m f exit) < n"
  by (cases m) auto

lemma distance_touch: "touch m f s = (st', s') \<Longrightarrow> (\<And>x. distance (f x) < n) \<Longrightarrow> 1 < n \<Longrightarrow> distance st' < n"
  by (auto simp: touch_def intro!: distance_proceed)

lemma distance_failing [simp]: "distance (failing txn e) = 3"
  by (simp add: failing_def)

lemma distance_capturing [simp]: "distance (capturing a) = 3"
  by (simp add: capturing_def Let_def)

lemma distance_step:
  assumes "call_step W now req st s = Some (st', s')"
  shows "distance st' < distance st"
proof (cases st)
  case (Claiming txnId)
  have "distance (proceed (build now (request_builder req txnId)) Locking Finished) < 15"
    by (rule distance_proceed) simp_all
  with assms Claiming show ?thesis by (auto simp: split_beta Let_def)
next
  case (Checking txn)
  have "distance (check_request W req txn (accounts s)) < 13"
    unfolding check_request_def by (rule distance_proceed) (auto split: option.split Result.split)
  with assms Checking show ?thesis by auto
next
  case (Debiting a)
  show ?thesis by (rule distance_touch) (use assms Debiting in auto)
next
  case (Crediting a)
  show ?thesis by (rule distance_touch) (use assms Crediting in auto)
next
  case (Recrediting a e)
  show ?thesis by (rule distance_touch) (use assms Recrediting in auto)
next
  case (Redebiting a e)
  show ?thesis by (rule distance_touch) (use assms Redebiting in auto)
next
  case (Posting a ns)
  have "distance (proceed m (\<lambda>(p, l). if Status_isErr p then Recrediting a (err p) else capturing a) Releasing) < 6"
    for m :: "(Status \<times> 'e) outcome" by (rule distance_proceed) (auto split: prod.split)
  with assms Posting show ?thesis by (auto simp: Let_def)
qed (use assms in \<open>auto simp: split_beta Let_def split: option.split\<close>)

lemma sum_list_update_less:
  fixes f :: "'a \<Rightarrow> nat"
  assumes "i < length xs" "f y < f (xs ! i)"
  shows "sum_list (map f (xs[i := y])) < sum_list (map f xs)"
  using assms
proof (induction xs arbitrary: i)
  case (Cons x xs)
  then show ?case by (cases i) auto
qed simp

lemma traffic_step_to_go: "traffic_step W calls t es u \<Longrightarrow> to_go u < to_go t"
  by (auto simp: to_go_def intro!: sum_list_update_less distance_step elim!: traffic_stepE)

interpretation traffic_machine: machine "traffic_step W calls" "\<lambda>_. True" to_go for W calls
  by unfold_locales (auto intro: traffic_step_to_go)

lemma new_traffic_to_go: "to_go (new_traffic calls s) = 16 * length calls"
  by (simp add: to_go_def new_traffic_def sum_list_replicate)

lemma traffic_ends: "\<exists>k es t. steps (traffic_step W calls) k t0 es t \<and> at_rest (traffic_step W calls) t"
  by (rule traffic_machine.comes_to_rest) simp

text \<open>A call that has ended takes no further part.\<close>

lemma ended_stays:
  assumes "runs (traffic_step W calls) t es u" "stages t ! i = Finished r"
  shows "stages u ! i = Finished r"
  using assms
proof (induction rule: runs.induct)
  case (extend es u fs v)
  from extend.hyps(2) show ?case
  proof cases
    case (moves j now req st s)
    then show ?thesis using extend.IH [OF extend.prems] by (cases "i = j") auto
  qed
qed

end
