(* ===== verification/Concurrent_Payments.thy ===== *)
theory Concurrent_Payments
  imports Payment_Threads Payment_Guarantees
begin

text \<open>
  Any number of calls of \<open>pay\<close> at once, over any ports that keep their contracts. \<open>stage_ok\<close> is what a
  call knows at a stage; from it \<open>step_cases\<close> lists what a step can do. The invariants follow by cases:
  who holds a lock is alone with it, money that left the payer and has not reached the payee is all that is
  missing from the balances, each key has one owner. They give that no interleaving overdraws, overflows,
  deadlocks or charges a key twice.
\<close>

section \<open>What a call knows\<close>

definition requested :: "PaymentRequest \<Rightarrow> Transaction \<Rightarrow> bool" where
  "requested req txn \<longleftrightarrow> payerAccountId req \<noteq> [] \<and> payeeAccountId req \<noteq> [] \<and>
     (\<exists>now i. txn = mkTransaction now i (idempotencyKey req) (payerAccountId req) (payeeAccountId req)
        (amount req) (req_method req))"

definition attempted ::
    "('ar, 'tr, 'is, 'dl, 'lr, 'ev) Wiring \<Rightarrow> (string \<rightharpoonup> addr) \<Rightarrow> PaymentRequest \<Rightarrow> Attempt \<Rightarrow> bool" where
  "attempted W m req a \<longleftrightarrow>
     (\<exists>txn. requested req txn \<and> attempt_txn a = setStatus AUTHORIZED txn \<and> admitted W req txn) \<and>
     m (payerAccountId req) = Some (from_account a) \<and> m (payeeAccountId req) = Some (to_account a) \<and>
     create (strategies W) (req_method req) = Some (chosen a)"

fun stage_ok ::
    "('ar, 'tr, 'is, 'dl, 'lr, 'ev) Wiring \<Rightarrow> (string \<rightharpoonup> addr) \<Rightarrow> heap \<Rightarrow> PaymentRequest \<Rightarrow> Stage \<Rightarrow> bool" where
  "stage_ok W m h req (Claiming i) = (i \<noteq> [])"
| "stage_ok W m h req (Locking txn) = requested req txn"
| "stage_ok W m h req (Checking txn) = requested req txn"
| "stage_ok W m h req (Debiting a) = attempted W m req a"
| "stage_ok W m h req (Crediting a) = (attempted W m req a \<and> 0 \<le> units (amount req) \<and>
     (\<exists>x. h (from_account a) = Some x \<and> account_currency x = currency (amount req)))"
| "stage_ok W m h req (Numbering a ns) = (attempted W m req a \<and> 0 \<le> units (amount req) \<and> length ns \<le> 1)"
| "stage_ok W m h req (Sequencing a ns e) = (attempted W m req a \<and> 0 \<le> units (amount req) \<and> length ns \<le> 1)"
| "stage_ok W m h req (Posting a ns) = (attempted W m req a \<and> 0 \<le> units (amount req) \<and> length ns = 2)"
| "stage_ok W m h req (Recrediting a e) = False"
| "stage_ok W m h req (Redebiting a e) = False"
| "stage_ok W m h req (Releasing r) = (r \<noteq> Undefined \<and> r \<noteq> Blocks)"
| "stage_ok W m h req (Finished r) = (r \<noteq> Undefined \<and> r \<noteq> Blocks)"
| "stage_ok W m h req st = True"

lemma build_requested:
  "build now (request_builder req i) = Returns txn \<Longrightarrow> requested req txn"
  by (auto simp: build_def request_builder_def builder_defs requested_def split: if_splits)

lemma build_refused:
  "i \<noteq> [] \<Longrightarrow> build now (request_builder req i) = Throws e \<Longrightarrow> payerAccountId req = [] \<or> payeeAccountId req = []"
  by (auto simp: build_def request_builder_def builder_defs split: if_splits)

lemma requested_sel:
  assumes "requested req txn"
  shows "txn_status txn = INITIATED" "txn_payer txn = payerAccountId req" "txn_payee txn = payeeAccountId req"
    "txn_amount txn = amount req" "txn_method txn = req_method req"
  using assms by (auto simp: requested_def)

lemma numbered_posting_pair:
  assumes "length ns = 2"
  obtains e1 n1 e2 n2 where "numbered_posting req t ns =
    [mkLedgerEntry e1 t (payerAccountId req) DEBIT (amount req) n1,
     mkLedgerEntry e2 t (payeeAccountId req) CREDIT (amount req) n2]"
  using assms by (auto simp: numbered_posting_def numeral_2_eq_2 length_Suc_conv)

lemma numbered_posting_balanced:
  assumes "0 \<le> units (amount req)" "length ns = 2"
  shows "balanced (numbered_posting req t ns) \<and> sums_fit 0 (numbered_posting req t ns)"
  using assms(1) in_int64_neg [of "minorUnits (amount req)"]
  by (rule_tac numbered_posting_pair [OF assms(2), of req t])
    (auto simp: balanced_def posting_currency_def signed_units_def)

lemma touch_cases:
  assumes "touch m f s = (st', s')"
  obtains (returned) x h where "m = Returns (x, h)" "st' = f x" "s' = s\<lparr>objects := h\<rparr>"
  | (ended) "\<And>x. m \<noteq> Returns x" "s' = s"
  using assms by (cases m) (auto simp: touch_def)

text \<open>\<open>check_request\<close>: refused, thrown out, or admitted.\<close>

lemma check_request_cases:
  assumes "requested req txn"
  obtains (refused) e where "check_request W req txn ar = failing txn e"
      "\<not> (admitted W req txn \<and> accounts_find (ports W) (payerAccountId req) ar \<noteq> None \<and>
        accounts_find (ports W) (payeeAccountId req) ar \<noteq> None \<and> approves (strategies W) (req_method req))"
  | (threw) e where "check_request W req txn ar = Releasing (Throws e)" "run (validation W) txn = Throws e"
  | (undefined) "run (validation W) txn = Undefined \<or> run (validation W) txn = Blocks"
  | (admitted) p q strategy auth where "run (validation W) txn = Returns Status_ok"
      "create (strategies W) (req_method req) = Some strategy"
      "accounts_find (ports W) (payerAccountId req) ar = Some p" "accounts_find (ports W) (payeeAccountId req) ar = Some q"
      "check_request W req txn ar = Debiting \<lparr>attempt_txn = setStatus AUTHORIZED txn, from_account = p, to_account = q,
         chosen = strategy, gateway = auth\<rparr>"
proof (cases "run (validation W) txn")
  case (Returns v)
  have na: "\<not> approves (strategies W) (req_method req)"
    if "create (strategies W) (req_method req) = Some strategy" "authorize strategy txn = Result_err e" for strategy e
    using that by (metis approves_def approving_def Result_isOk.simps(2))
  show ?thesis
  proof (cases "Status_isErr v")
    case True
    with Returns show ?thesis by (intro refused [of "err v"]) (auto simp: check_request_def admitted_def)
  next
    case False
    then have v: "v = Status_ok" using run_Returns_ok [OF Returns] by (simp add: Status_isErr_def)
    note run = Returns [unfolded v]
    show ?thesis
    proof (cases "accounts_find (ports W) (payerAccountId req) ar = None \<or>
        accounts_find (ports W) (payeeAccountId req) ar = None \<or> create (strategies W) (req_method req) = None")
      case True
      with run show ?thesis
        by (cases "accounts_find (ports W) (payerAccountId req) ar"; cases "accounts_find (ports W) (payeeAccountId req) ar")
          (rule refused; simp add: check_request_def admitted_def)+
    next
      case False
      then obtain p q strategy where found: "accounts_find (ports W) (payerAccountId req) ar = Some p"
        "accounts_find (ports W) (payeeAccountId req) ar = Some q" "create (strategies W) (req_method req) = Some strategy"
        by auto
      show ?thesis
      proof (cases "authorize strategy txn")
        case (Result_ok auth)
        with run found requested_sel(1) [OF assms] show ?thesis
          by (intro admitted [of strategy p q auth]) (simp_all add: check_request_def advance_INITIATED)
      next
        case (Result_err e)
        with run found na show ?thesis by (intro refused [of e]) (simp_all add: check_request_def)
      qed
    qed
  qed
next
  case (Throws e)
  then show ?thesis by (intro threw [of e]) (simp_all add: check_request_def)
qed (use undefined in simp_all)

section \<open>Sums and sets over the calls\<close>

definition sum_calls :: "(PaymentRequest \<Rightarrow> Stage \<Rightarrow> int) \<Rightarrow> (int64 \<times> PaymentRequest) list \<Rightarrow> Stage list \<Rightarrow> int" where
  "sum_calls f calls sts = (\<Sum>i < length sts. f (snd (calls ! i)) (sts ! i))"

lemma sum_calls_update:
  assumes "i < length sts"
  shows "sum_calls f calls (sts[i := st]) = sum_calls f calls sts - f (snd (calls ! i)) (sts ! i) + f (snd (calls ! i)) st"
proof -
  let ?g = "\<lambda>xs j. f (snd (calls ! j)) (xs ! j)"
  have "sum (?g (sts[i := st])) {..<length sts} = ?g (sts[i := st]) i + sum (?g (sts[i := st])) ({..<length sts} - {i})"
    by (rule sum.remove) (use assms in auto)
  moreover have "sum (?g sts) {..<length sts} = ?g sts i + sum (?g sts) ({..<length sts} - {i})"
    by (rule sum.remove) (use assms in auto)
  moreover have "sum (?g (sts[i := st])) ({..<length sts} - {i}) = sum (?g sts) ({..<length sts} - {i})"
    by (rule sum.cong) auto
  ultimately show ?thesis using assms by (simp add: sum_calls_def)
qed

lemma sum_calls_nonneg:
  "(\<And>i. i < length sts \<Longrightarrow> 0 \<le> f (snd (calls ! i)) (sts ! i)) \<Longrightarrow> 0 \<le> sum_calls f calls sts"
  unfolding sum_calls_def by (rule sum_nonneg) simp

lemma sum_calls_member:
  assumes "i < length sts" "\<And>j. j < length sts \<Longrightarrow> 0 \<le> f (snd (calls ! j)) (sts ! j)"
  shows "f (snd (calls ! i)) (sts ! i) \<le> sum_calls f calls sts"
  unfolding sum_calls_def
  using member_le_sum [of i "{..<length sts}" "\<lambda>j. f (snd (calls ! j)) (sts ! j)"] assms by auto

text \<open>The money between a payer's debit and the payee's credit.\<close>

fun afloat :: "Currency \<Rightarrow> PaymentRequest \<Rightarrow> Stage \<Rightarrow> int" where
  "afloat c req (Crediting a) = in_currency c (amount req)"
| "afloat c req st = 0"

text \<open>What has moved on an account and is not yet in the journal.\<close>

definition posting_effect :: "Currency \<Rightarrow> string \<Rightarrow> PaymentRequest \<Rightarrow> int" where
  "posting_effect c k req = (if k = payeeAccountId req then in_currency c (amount req) else 0) -
     (if k = payerAccountId req then in_currency c (amount req) else 0)"

fun unposted :: "Currency \<Rightarrow> string \<Rightarrow> PaymentRequest \<Rightarrow> Stage \<Rightarrow> int" where
  "unposted c k req (Crediting a) = - (if k = payerAccountId req then in_currency c (amount req) else 0)"
| "unposted c k req (Numbering a ns) = posting_effect c k req"
| "unposted c k req (Sequencing a ns e) = posting_effect c k req"
| "unposted c k req (Posting a ns) = posting_effect c k req"
| "unposted c k req st = 0"

lemma ledger_balance_numbered:
  assumes "length ns = 2"
  shows "ledger_balance c k (numbered_posting req t ns) = posting_effect c k req"
  by (rule numbered_posting_pair [OF assms, of req t]) (auto simp: ledger_balance_def posting_effect_def)

text \<open>The stages inside the scope of the lock guard.\<close>

fun guarded :: "Stage \<Rightarrow> bool" where
  "guarded (Checking txn) = True"
| "guarded (Debiting a) = True"
| "guarded (Crediting a) = True"
| "guarded (Numbering a ns) = True"
| "guarded (Sequencing a ns e) = True"
| "guarded (Posting a ns) = True"
| "guarded (Recrediting a e) = True"
| "guarded (Redebiting a e) = True"
| "guarded (Saving txn ty r) = True"
| "guarded (Publishing txn ty r) = True"
| "guarded (Releasing r) = True"
| "guarded st = False"

definition inside :: "Stage list \<Rightarrow> nat set" where
  "inside sts = {i. i < length sts \<and> guarded (sts ! i)}"

definition call_key :: "(int64 \<times> PaymentRequest) list \<Rightarrow> nat \<Rightarrow> string" where
  "call_key calls i = lock_key (snd (calls ! i))"

lemma inside_update:
  "i < length sts \<Longrightarrow> inside (sts[i := st]) = (if guarded st then insert i (inside sts) else inside sts - {i})"
  by (auto simp: inside_def nth_list_update split: if_splits)

lemma capturing_cases:
  obtains t ty r where "capturing a = Saving t ty r"
  by (cases "Status_isErr (capture (chosen a) (attempt_txn a) (gateway a))")
    (auto simp: capturing_def failing_def Let_def intro: that)

text \<open>The calls that own their key: they have claimed it, and go on or have taken effect.\<close>

fun owns :: "Stage \<Rightarrow> bool" where
  "owns (Locking txn) = True"
| "owns (Checking txn) = True"
| "owns (Debiting a) = True"
| "owns (Crediting a) = True"
| "owns st = False"

definition won :: "nat list \<Rightarrow> Stage list \<Rightarrow> nat set" where
  "won es sts = {i. i < length sts \<and> (i \<in> set es \<or> owns (sts ! i))}"

definition request_key :: "(int64 \<times> PaymentRequest) list \<Rightarrow> nat \<Rightarrow> string" where
  "request_key calls i = idempotencyKey (snd (calls ! i))"

lemma owns_undecided: "owns st \<Longrightarrow> undecided st"
  by (cases st) simp_all

section \<open>What a step can do\<close>

text \<open>The service a step starts from, as far as the steps of the other calls leave it alone.\<close>

context payment_service
begin

definition tame ::
    "('ar, 'tr, 'is, 'dl, 'lr, 'ev) Wiring \<Rightarrow> heap \<Rightarrow> PaymentRequest \<Rightarrow> Stage
     \<Rightarrow> ('ar, 'tr, 'is, 'dl, 'lr, 'ev) Service \<Rightarrow> bool" where
  "tame W h req st s \<longleftrightarrow> ports W = P \<and> (\<forall>txn. run (validation W) txn \<noteq> Undefined \<and> run (validation W) txn \<noteq> Blocks) \<and>
     stage_ok W (acc_view (accounts s)) h req st \<and> registered h (acc_view (accounts s)) \<and> shape (objects s) = shape h \<and>
     (\<forall>a. st = Crediting a \<longrightarrow> credit_at (to_account a) (amount req) (objects s) \<noteq> Undefined)"

lemma tame_parts:
  assumes "tame W h req st s"
  shows "ports W = P" "stage_ok W (acc_view (accounts s)) h req st"
    and "\<And>txn. run (validation W) txn \<noteq> Undefined \<and> run (validation W) txn \<noteq> Blocks"
    and "\<And>k p. acc_view (accounts s) k = Some p \<Longrightarrow> \<exists>x. objects s p = Some x"
    and "\<And>a. st = Crediting a \<Longrightarrow> credit_at (to_account a) (amount req) (objects s) \<noteq> Undefined"
  using assms shape_dom [of "objects s" h] by (auto simp: tame_def registered_def) blast

text \<open>The stages with more than one way on, one by one.\<close>

lemma step_claiming:
  assumes tame: "tame W h req (Claiming i) s" and step: "call_step W now req (Claiming i) s = Some (st', s')"
  obtains (claimed) txn ids where "key_view (idempotency s) (idempotencyKey req) = None"
      "requested req txn" "st' = Locking txn" "s' = s\<lparr>idempotency := ids\<rparr>"
      "key_view ids = (key_view (idempotency s))(idempotencyKey req \<mapsto> i)"
  | (invalid) e ids where "key_view (idempotency s) (idempotencyKey req) = None"
      "payerAccountId req = [] \<or> payeeAccountId req = []" "st' = Finished (Throws e)" "s' = s\<lparr>idempotency := ids\<rparr>"
      "key_view ids = (key_view (idempotency s))(idempotencyKey req \<mapsto> i)"
  | (lost) ids where "key_view (idempotency s) (idempotencyKey req) \<noteq> None" "st' = Duplicate"
      "s' = s\<lparr>idempotency := ids\<rparr>" "key_view ids = key_view (idempotency s)"
proof -
  note t = tame_parts [OF tame]
  let ?put = "idempotency_putIfAbsent P (idempotencyKey req) i (idempotency s)"
  obtain won ids where put: "?put = (won, ids)" by fastforce
  have win: "won \<longleftrightarrow> key_view (idempotency s) (idempotencyKey req) = None"
    and view: "key_view ids = (if won then (key_view (idempotency s))(idempotencyKey req \<mapsto> i) else key_view (idempotency s))"
    using keys.put_wins [of "idempotencyKey req" i "idempotency s"]
      keys.put_view [of "idempotencyKey req" i "idempotency s"] by (simp_all add: put)
  show thesis
  proof (cases won)
    case False
    with step win view show ?thesis by (intro lost [of ids]) (auto simp: t(1) put)
  next
    case True
    show ?thesis
    proof (cases "build now (request_builder req i)")
      case (Returns txn)
      with True step win view build_requested [OF Returns] show ?thesis
        by (intro claimed [of txn ids]) (auto simp: t(1) put)
    next
      case (Throws e)
      with build_refused [OF _ Throws] t(2) True step win view show ?thesis
        by (intro invalid [of e ids]) (auto simp: t(1) put)
    qed (simp_all add: build_never_undefined)
  qed
qed

lemma step_checking:
  assumes tame: "tame W h req (Checking txn) s" and step: "call_step W now req (Checking txn) s = Some (st', s')"
  obtains (refused) t e where "st' = Saving t ''PaymentFailed'' (Result_err e)" "s' = s"
      "\<not> (admitted W req txn \<and> acc_view (accounts s) (payerAccountId req) \<noteq> None \<and>
        acc_view (accounts s) (payeeAccountId req) \<noteq> None \<and> approves (strategies W) (req_method req))"
  | (threw) e where "st' = Releasing (Throws e)" "s' = s" "run (validation W) txn = Throws e"
  | (admitted) a where "st' = Debiting a" "s' = s" "attempted W (acc_view (accounts s)) req a"
proof -
  note t = tame_parts [OF tame]
  have r: "requested req txn" using t(2) by simp
  have eq: "st' = check_request W req txn (accounts s)" "s' = s" using step by auto
  show thesis
  proof (rule check_request_cases [OF r, of W "accounts s"])
    fix e
    assume "check_request W req txn (accounts s) = failing txn e"
      "\<not> (admitted W req txn \<and> accounts_find (ports W) (payerAccountId req) (accounts s) \<noteq> None \<and>
        accounts_find (ports W) (payeeAccountId req) (accounts s) \<noteq> None \<and> approves (strategies W) (req_method req))"
    with eq show ?thesis by (intro refused) (auto simp: failing_def Result_fail_def t(1) ar.find_view)
  next
    fix e
    assume "check_request W req txn (accounts s) = Releasing (Throws e)" "run (validation W) txn = Throws e"
    with eq show ?thesis by (intro threw [of e]) simp_all
  next
    assume "run (validation W) txn = Undefined \<or> run (validation W) txn = Blocks"
    with t(3) show ?thesis by blast
  next
    fix p q strategy auth
    let ?a = "\<lparr>attempt_txn = setStatus AUTHORIZED txn, from_account = p, to_account = q, chosen = strategy, gateway = auth\<rparr>"
    assume "run (validation W) txn = Returns Status_ok" "create (strategies W) (req_method req) = Some strategy"
      "accounts_find (ports W) (payerAccountId req) (accounts s) = Some p"
      "accounts_find (ports W) (payeeAccountId req) (accounts s) = Some q"
      "check_request W req txn (accounts s) = Debiting ?a"
    with r eq show ?thesis by (intro admitted) (auto simp: attempted_def admitted_def t(1) ar.find_view)
  qed
qed

lemma step_debiting:
  assumes tame: "tame W h req (Debiting a) s" and step: "call_step W now req (Debiting a) s = Some (st', s')"
  obtains (declined) t d where "st' = Saving t ''PaymentFailed'' (Result_err (err d))" "s' = s"
      "debit_at (from_account a) (amount req) (objects s) = Returns (d, objects s)" "Status_isErr d"
  | (debited) hp where "st' = Crediting a" "s' = s\<lparr>objects := hp\<rparr>"
      "debit_at (from_account a) (amount req) (objects s) = Returns (Status_ok, hp)"
proof -
  note t = tame_parts [OF tame]
  let ?d = "debit_at (from_account a) (amount req) (objects s)"
  obtain x where x: "objects s (from_account a) = Some x" using t(2,4) by (auto simp: attempted_def)
  obtain d hp where d: "?d = Returns (d, hp)" using debit_at_total [of "objects s", OF x] by blast
  show thesis
  proof (cases "Status_isErr d")
    case True
    with debit_at_err [OF d] have "hp = objects s" by simp
    with True d step show ?thesis
      by (intro declined) (auto simp: touch_def failing_def Result_fail_def mkError_def)
  next
    case False
    obtain y where "debit (amount req) x = Returns (d, y)"
      using d x by (auto simp: debit_at_def outcome_simps)
    with False have "d = Status_ok" using debit_Returns_ok [of "amount req" x d y] by (simp add: Status_isErr_def)
    with False d step show ?thesis by (intro debited) (auto simp: touch_def)
  qed
qed

lemma step_crediting:
  assumes tame: "tame W h req (Crediting a) s" and step: "call_step W now req (Crediting a) s = Some (st', s')"
  obtains c hp where "st' = Numbering a []" "s' = s\<lparr>objects := hp\<rparr>"
    "credit_at (to_account a) (amount req) (objects s) = Returns (c, hp)"
proof -
  note t = tame_parts [OF tame]
  obtain x where x: "objects s (to_account a) = Some x" using t(2,4) by (auto simp: attempted_def)
  obtain c hp where "credit_at (to_account a) (amount req) (objects s) = Returns (c, hp)"
    by (rule credit_at_cases [of "objects s" "to_account a" x "amount req"]) (use x t(5) in auto)
  with step show thesis by (intro that) (auto simp: touch_def)
qed

lemma step_posting:
  assumes tame: "tame W h req (Posting a ns) s" and step: "call_step W now req (Posting a ns) s = Some (st', s')"
  obtains l where "st' = capturing a" "s' = s\<lparr>ledger := l\<rparr>"
    "journal l = journal (ledger s) @ numbered_posting req (txn_id (attempt_txn a)) ns"
proof -
  note t = tame_parts [OF tame]
  let ?es = "numbered_posting req (txn_id (attempt_txn a)) ns"
  have a: "0 \<le> units (amount req)" "length ns = 2" using t(2) by simp_all
  obtain l where l: "ledger_post P ?es (ledger s) = Returns (Status_ok, l)"
    using lr.post_accepts numbered_posting_balanced [OF a] by blast
  with lr.post_ok [OF l] step show thesis by (intro that [of l]) (auto simp: t(1) Let_def)
qed

text \<open>All steps.\<close>

lemma step_cases:
  assumes tame: "tame W h req st s" and step: "call_step W now req st s = Some (st', s')"
  obtains (minted) i where "st = Minting" "st' = Claiming i" "i = fst (next_id (txnIds s))"
      "s' = s\<lparr>txnIds := snd (next_id (txnIds s))\<rparr>"
  | (claimed) i txn ids where "st = Claiming i" "key_view (idempotency s) (idempotencyKey req) = None"
      "requested req txn" "st' = Locking txn" "s' = s\<lparr>idempotency := ids\<rparr>"
      "key_view ids = (key_view (idempotency s))(idempotencyKey req \<mapsto> i)"
  | (invalid) i e ids where "st = Claiming i" "key_view (idempotency s) (idempotencyKey req) = None"
      "payerAccountId req = [] \<or> payeeAccountId req = []" "st' = Finished (Throws e)" "s' = s\<lparr>idempotency := ids\<rparr>"
      "key_view ids = (key_view (idempotency s))(idempotencyKey req \<mapsto> i)"
  | (lost) i ids where "st = Claiming i" "key_view (idempotency s) (idempotencyKey req) \<noteq> None" "st' = Duplicate"
      "s' = s\<lparr>idempotency := ids\<rparr>" "key_view ids = key_view (idempotency s)"
  | (answered) "st = Duplicate \<or> (\<exists>i. st = Replaying i)" "(\<exists>i. st' = Replaying i) \<or> (\<exists>r. st' = Finished (Returns r))"
      "s' = s"
  | (locked) txn dl where "st = Locking txn" "requested req txn" "st' = Checking txn" "s' = s\<lparr>locks := dl\<rparr>"
      "lock_key req \<notin> held (locks s)" "held dl = insert (lock_key req) (held (locks s))"
  | (refused) txn t e where "st = Checking txn" "requested req txn" "st' = Saving t ''PaymentFailed'' (Result_err e)" "s' = s"
      "\<not> (admitted W req txn \<and> acc_view (accounts s) (payerAccountId req) \<noteq> None \<and>
        acc_view (accounts s) (payeeAccountId req) \<noteq> None \<and> approves (strategies W) (req_method req))"
  | (threw) txn e where "st = Checking txn" "requested req txn" "st' = Releasing (Throws e)" "s' = s"
      "run (validation W) txn = Throws e"
  | (admitted) txn a where "st = Checking txn" "st' = Debiting a" "s' = s" "attempted W (acc_view (accounts s)) req a"
  | (declined) a t d where "st = Debiting a" "attempted W (acc_view (accounts s)) req a"
      "st' = Saving t ''PaymentFailed'' (Result_err (err d))" "s' = s"
      "debit_at (from_account a) (amount req) (objects s) = Returns (d, objects s)" "Status_isErr d"
  | (debited) a hp where "st = Debiting a" "attempted W (acc_view (accounts s)) req a" "st' = Crediting a"
      "s' = s\<lparr>objects := hp\<rparr>" "debit_at (from_account a) (amount req) (objects s) = Returns (Status_ok, hp)"
  | (credited) a c hp where "st = Crediting a" "attempted W (acc_view (accounts s)) req a" "0 \<le> units (amount req)"
      "st' = Numbering a []" "s' = s\<lparr>objects := hp\<rparr>"
      "credit_at (to_account a) (amount req) (objects s) = Returns (c, hp)"
  | (numbered) a ns e where "st = Numbering a ns" "st' = Sequencing a ns e" "s' = s\<lparr>entryIds := snd (next_id (entryIds s))\<rparr>"
  | (sequenced) a ns e ns' where "st = Sequencing a ns e" "s' = s\<lparr>seq := seq s + 1\<rparr>"
      "st' = Numbering a ns' \<and> length ns' = 1 \<or> st' = Posting a ns' \<and> length ns' = 2"
  | (posted) a ns l where "st = Posting a ns" "attempted W (acc_view (accounts s)) req a" "length ns = 2"
      "st' = capturing a" "s' = s\<lparr>ledger := l\<rparr>"
      "journal l = journal (ledger s) @ numbered_posting req (txn_id (attempt_txn a)) ns"
  | (saved) t ty r where "st = Saving t ty r" "st' = Publishing t ty r"
      "s' = s\<lparr>transactions := transactions_save P t (transactions s)\<rparr>"
  | (published) t ty r where "st = Publishing t ty r" "st' = Releasing (Returns r)" "s' = publish_event P t ty s"
  | (released) r dl where "st = Releasing r" "st' = Finished r" "s' = s\<lparr>locks := dl\<rparr>"
      "held dl = held (locks s) - {lock_key req}"
proof -
  note W = tame_parts(1) [OF tame] and ok = tame_parts(2) [OF tame]
  show thesis
  proof (cases st)
    case Minting
    with step minted show ?thesis by (simp add: split_beta Let_def)
  next
    case (Claiming i)
    show ?thesis
      by (rule step_claiming [OF tame [unfolded Claiming] step [unfolded Claiming]]) (rule claimed invalid lost, rule Claiming, assumption+)+
  next
    case (Locking txn)
    then obtain dl where dl: "locks_acquire P (lock_key req) (locks s) = Some dl" "st' = Checking txn" "s' = s\<lparr>locks := dl\<rparr>"
      using step by (auto simp: W)
    from dl.acquire_Some [OF dl(1)] dl(2,3) Locking ok show ?thesis by (intro locked [of txn dl]) simp_all
  next
    case (Checking txn)
    have r: "requested req txn" using ok Checking by simp
    show ?thesis
      by (rule step_checking [OF tame [unfolded Checking] step [unfolded Checking]])
        (use Checking r refused threw admitted in blast)+
  next
    case (Debiting a)
    have a: "attempted W (acc_view (accounts s)) req a" using ok Debiting by simp
    show ?thesis
      by (rule step_debiting [OF tame [unfolded Debiting] step [unfolded Debiting]])
        (use Debiting a declined debited in blast)+
  next
    case (Crediting a)
    have a: "attempted W (acc_view (accounts s)) req a" "0 \<le> units (amount req)" using ok Crediting by simp_all
    show ?thesis
      by (rule step_crediting [OF tame [unfolded Crediting] step [unfolded Crediting]]) (use Crediting a credited in blast)
  next
    case (Numbering a ns)
    with step show ?thesis by (intro numbered [of a ns]) (auto simp: split_beta Let_def)
  next
    case (Sequencing a ns e)
    from step Sequencing ok show ?thesis
      by (cases ns) (auto simp: Let_def intro: sequenced [of a ns e "ns @ [(e, seq s)]"])
  next
    case (Posting a ns)
    have a: "attempted W (acc_view (accounts s)) req a" "length ns = 2" using ok Posting by simp_all
    show ?thesis
      by (rule step_posting [OF tame [unfolded Posting] step [unfolded Posting]]) (use Posting a posted in blast)
  next
    case (Saving t ty r)
    with step saved show ?thesis by (auto simp: W)
  next
    case (Publishing t ty r)
    with step published show ?thesis by (auto simp: W)
  next
    case (Releasing r)
    with step show ?thesis by (intro released [of r "locks_release P (lock_key req) (locks s)"]) (auto simp: W dl.release_held)
  qed (use step ok answered in \<open>auto split: option.splits\<close>)
qed

lemma step_stage_ok:
  assumes "tame W h req st s" "call_step W now req st s = Some (st', s')"
  shows "stage_ok W (acc_view (accounts s)) h req st'" and "accounts s' = accounts s"
proof -
  have ok: "stage_ok W (acc_view (accounts s)) h req st" and sh: "shape (objects s) = shape h"
    using assms(1) by (simp_all add: tame_def)
  show "accounts s' = accounts s"
    by (rule step_cases [OF assms]) (simp_all add: publish_event_def)
  show "stage_ok W (acc_view (accounts s)) h req st'"
  proof (rule step_cases [OF assms])
    fix a hp
    assume a: "attempted W (acc_view (accounts s)) req a" "st' = Crediting a"
      and d: "debit_at (from_account a) (amount req) (objects s) = Returns (Status_ok, hp)"
    obtain x where x: "objects s (from_account a) = Some x" "account_currency x = currency (amount req)" "0 \<le> units (amount req)"
      by (rule debit_at_effect [OF d]) simp_all
    obtain y where "h (from_account a) = Some y" "account_currency y = account_currency x"
      using shape_Some [OF sh [symmetric] x(1)] by metis
    with a x show ?thesis by auto
  next
    fix a ns l assume "st' = capturing a"
    then show ?thesis by (rule_tac capturing_cases [of a]) simp
  qed (use ok in \<open>auto\<close>)
qed

lemma step_locks:
  assumes "tame W h req st s" "call_step W now req st s = Some (st', s')"
  shows "held (locks s') = (if guarded st' = guarded st then held (locks s)
      else if guarded st' then insert (lock_key req) (held (locks s)) else held (locks s) - {lock_key req})"
    and "guarded st' \<Longrightarrow> \<not> guarded st \<Longrightarrow> lock_key req \<notin> held (locks s)"
proof -
  have cap: "guarded (capturing a)" for a by (rule capturing_cases [of a]) simp
  show "held (locks s') = (if guarded st' = guarded st then held (locks s)
      else if guarded st' then insert (lock_key req) (held (locks s)) else held (locks s) - {lock_key req})"
    by (rule step_cases [OF assms]) (auto simp: publish_event_def cap)
  show "guarded st' \<Longrightarrow> \<not> guarded st \<Longrightarrow> lock_key req \<notin> held (locks s)"
    by (rule step_cases [OF assms]) (auto simp: cap)
qed

text \<open>What a step does to the balances: nothing, a debit, or a credit.\<close>

lemma step_money:
  assumes tame: "tame W h req st s" and step: "call_step W now req st s = Some (st', s')"
    and match: "matched h (acc_view (accounts s)) req" and fin: "finite (dom (objects s))" and sol: "solvent (objects s)"
  shows "shape (objects s') = shape (objects s)" "solvent (objects s')"
    "total c (objects s') + afloat c req st' = total c (objects s) + afloat c req st"
proof -
  have sh: "shape (objects s) = shape h" and ok: "stage_ok W (acc_view (accounts s)) h req st"
    using tame by (simp_all add: tame_def)
  have cap: "afloat c req (capturing a) = 0" for a by (rule capturing_cases [of a]) simp
  have "shape (objects s') = shape (objects s) \<and> solvent (objects s') \<and>
    total c (objects s') + afloat c req st' = total c (objects s) + afloat c req st"
  proof (rule step_cases [OF tame step])
    fix a hp
    assume "st = Debiting a" "st' = Crediting a" "s' = s\<lparr>objects := hp\<rparr>"
      and d: "debit_at (from_account a) (amount req) (objects s) = Returns (Status_ok, hp)"
    then show ?thesis by (rule_tac debit_at_effect [OF d]) (use fin sol in simp_all)
  next
    fix a cst hp
    assume a: "st = Crediting a" "attempted W (acc_view (accounts s)) req a" "st' = Numbering a []" "s' = s\<lparr>objects := hp\<rparr>"
      and c: "credit_at (to_account a) (amount req) (objects s) = Returns (cst, hp)" and pos: "0 \<le> units (amount req)"
    obtain x where x: "h (from_account a) = Some x" "account_currency x = currency (amount req)" using ok a(1) by auto
    show ?thesis
    proof (rule credit_at_effect [OF c pos])
      fix b
      assume b: "objects s (to_account a) = Some b" "shape hp = shape (objects s)" "solvent (objects s) \<Longrightarrow> solvent hp"
        "\<And>c. finite (dom (objects s)) \<Longrightarrow> total c hp =
           total c (objects s) + (if account_currency b = currency (amount req) then in_currency c (amount req) else 0)"
      obtain b0 where b0: "h (to_account a) = Some b0" "account_currency b0 = account_currency b"
        using shape_Some [OF sh [symmetric] b(1)] by metis
      have "account_currency b = currency (amount req)"
        using match x b0 a(2) by (auto simp: matched_def attempted_def)
      with a b fin sol show ?thesis by simp
    qed
  qed (use sol cap in \<open>auto simp: publish_event_def\<close>)
  then show "shape (objects s') = shape (objects s)" "solvent (objects s')"
    "total c (objects s') + afloat c req st' = total c (objects s) + afloat c req st" by simp_all
qed

section \<open>The invariant\<close>

definition ready ::
    "('ar, 'tr, 'is, 'dl, 'lr, 'ev) Wiring \<Rightarrow> ('ar, 'tr, 'is, 'dl, 'lr, 'ev) Service \<Rightarrow> (int64 \<times> PaymentRequest) list \<Rightarrow> bool" where
  "ready W s0 calls \<longleftrightarrow> ports W = P \<and> (\<forall>txn. run (validation W) txn \<noteq> Undefined \<and> run (validation W) txn \<noteq> Blocks) \<and>
     registered (objects s0) (acc_view (accounts s0)) \<and> funded (objects s0) \<and> held (locks s0) = {} \<and>
     (\<forall>(now, req) \<in> set calls. matched (objects s0) (acc_view (accounts s0)) req)"

definition knows ::
    "('ar, 'tr, 'is, 'dl, 'lr, 'ev) Wiring \<Rightarrow> ('ar, 'tr, 'is, 'dl, 'lr, 'ev) Service \<Rightarrow> (int64 \<times> PaymentRequest) list
     \<Rightarrow> ('ar, 'tr, 'is, 'dl, 'lr, 'ev) Service Traffic \<Rightarrow> bool" where
  "knows W s0 calls t \<longleftrightarrow> length (stages t) = length calls \<and> accounts (service t) = accounts s0 \<and>
     (\<forall>i < length calls. stage_ok W (acc_view (accounts s0)) (objects s0) (snd (calls ! i)) (stages t ! i))"

definition exclusive ::
    "(int64 \<times> PaymentRequest) list \<Rightarrow> ('ar, 'tr, 'is, 'dl, 'lr, 'ev) Service Traffic \<Rightarrow> bool" where
  "exclusive calls t \<longleftrightarrow> held (locks (service t)) = call_key calls ` inside (stages t) \<and>
     inj_on (call_key calls) (inside (stages t))"

definition preserves_money ::
    "('ar, 'tr, 'is, 'dl, 'lr, 'ev) Service \<Rightarrow> (int64 \<times> PaymentRequest) list
     \<Rightarrow> ('ar, 'tr, 'is, 'dl, 'lr, 'ev) Service Traffic \<Rightarrow> bool" where
  "preserves_money s0 calls t \<longleftrightarrow> shape (objects (service t)) = shape (objects s0) \<and> solvent (objects (service t)) \<and>
     (\<forall>c. total c (objects (service t)) + sum_calls (afloat c) calls (stages t) = total c (objects s0))"

definition traffic_ok ::
    "('ar, 'tr, 'is, 'dl, 'lr, 'ev) Wiring \<Rightarrow> ('ar, 'tr, 'is, 'dl, 'lr, 'ev) Service \<Rightarrow> (int64 \<times> PaymentRequest) list
     \<Rightarrow> ('ar, 'tr, 'is, 'dl, 'lr, 'ev) Service Traffic \<Rightarrow> bool" where
  "traffic_ok W s0 calls t \<longleftrightarrow> knows W s0 calls t \<and> exclusive calls t \<and> preserves_money s0 calls t"

lemma new_traffic_ok:
  assumes "ready W s0 calls"
  shows "traffic_ok W s0 calls (new_traffic calls s0)"
proof -
  have "inside (stages (new_traffic calls s0)) = {}" by (auto simp: inside_def new_traffic_def)
  moreover have "sum_calls (afloat c) calls (stages (new_traffic calls s0)) = 0" for c
    by (simp add: sum_calls_def new_traffic_def)
  ultimately show ?thesis
    using assms by (simp add: traffic_ok_def knows_def exclusive_def preserves_money_def ready_def funded_def new_traffic_def)
qed

lemma afloat_nonneg:
  "stage_ok W m h req st \<Longrightarrow> 0 \<le> afloat c req st"
  by (cases st) (auto simp: in_currency_def)

lemma traffic_tame:
  assumes ready: "ready W s0 calls" and ok: "traffic_ok W s0 calls t" and i: "i < length (stages t)"
  shows "tame W (objects s0) (snd (calls ! i)) (stages t ! i) (service t)"
proof -
  let ?req = "snd (calls ! i)" and ?s = "service t"
  have k: "length (stages t) = length calls" "accounts ?s = accounts s0"
    "\<And>j. j < length calls \<Longrightarrow> stage_ok W (acc_view (accounts s0)) (objects s0) (snd (calls ! j)) (stages t ! j)"
    and m: "shape (objects ?s) = shape (objects s0)" "solvent (objects ?s)"
    "\<And>c. total c (objects ?s) + sum_calls (afloat c) calls (stages t) = total c (objects s0)"
    using ok by (simp_all add: traffic_ok_def knows_def preserves_money_def)
  have fund: "finite (dom (objects s0))" "\<And>c. total c (objects s0) \<le> int64_max"
    using ready by (simp_all add: ready_def funded_def)
  have "credit_at (to_account a) (amount ?req) (objects ?s) \<noteq> Undefined" if st: "stages t ! i = Crediting a" for a
  proof
    assume u: "credit_at (to_account a) (amount ?req) (objects ?s) = Undefined"
    let ?c = "currency (amount ?req)"
    have a: "attempted W (acc_view (accounts s0)) ?req a" "0 \<le> units (amount ?req)" using k(1,3) i st by force+
    then obtain b0 where "objects s0 (to_account a) = Some b0"
      using ready by (fastforce simp: attempted_def ready_def registered_def)
    then obtain b where b: "objects ?s (to_account a) = Some b" using shape_Some [OF m(1)] by metis
    have o: "account_currency b = ?c" "int64_max < funds b + units (amount ?req)"
      using credit_at_overflow [OF u b a(2)] by simp_all
    have "finite (dom (objects ?s))" using shape_dom [OF m(1)] fund(1) by simp
    then have "funds b \<le> total ?c (objects ?s)" using m(2) b o(1) by (intro holding_le_total)
    moreover have "afloat ?c ?req (stages t ! i) \<le> sum_calls (afloat ?c) calls (stages t)"
      using i k(1,3) by (intro sum_calls_member) (auto intro: afloat_nonneg)
    ultimately show False using o(2) m(3) [of ?c] fund(2) [of ?c] st by (simp add: in_currency_def)
  qed
  with ready k m(1) i show ?thesis by (simp add: tame_def ready_def)
qed

lemma exclusive_step:
  assumes ex: "exclusive calls t" and i: "i < length (stages t)"
    and held: "held (locks s') = (if guarded st' = guarded (stages t ! i) then held (locks (service t))
      else if guarded st' then insert (call_key calls i) (held (locks (service t))) else held (locks (service t)) - {call_key calls i})"
    and free: "guarded st' \<Longrightarrow> \<not> guarded (stages t ! i) \<Longrightarrow> call_key calls i \<notin> held (locks (service t))"
  shows "exclusive calls \<lparr>service = s', stages = (stages t)[i := st']\<rparr>"
proof -
  let ?I = "inside (stages t)"
  have h: "held (locks (service t)) = call_key calls ` ?I" and inj: "inj_on (call_key calls) ?I"
    using ex by (simp_all add: exclusive_def)
  have mem: "i \<in> ?I \<longleftrightarrow> guarded (stages t ! i)" using i by (simp add: inside_def)
  show ?thesis
  proof (cases "guarded st'"; cases "guarded (stages t ! i)")
    assume "guarded st'" "\<not> guarded (stages t ! i)"
    with held free mem h inj i show ?thesis by (simp add: exclusive_def inside_update)
  next
    assume g: "\<not> guarded st'" "guarded (stages t ! i)"
    have "call_key calls ` (?I - {i}) = call_key calls ` ?I - {call_key calls i}"
      using inj mem g(2) by (auto simp: inj_on_def)
    with g held h inj i show ?thesis by (simp add: exclusive_def inside_update inj_on_diff)
  qed (use held mem h inj i in \<open>simp_all add: exclusive_def inside_update insert_absorb\<close>)
qed

lemma traffic_step_ok:
  assumes ready: "ready W s0 calls" and ok: "traffic_ok W s0 calls t" and step: "traffic_step W calls t es u"
  shows "traffic_ok W s0 calls u"
  using step
proof cases
  case (moves i now req st s)
  let ?s = "service t"
  have req: "snd (calls ! i) = req" using moves(4) by simp
  note tame = traffic_tame [OF ready ok moves(3), unfolded req]
  note k = ok [unfolded traffic_ok_def knows_def preserves_money_def]
  have i: "i < length calls" using moves(3) k by simp
  have "knows W s0 calls u"
    using step_stage_ok [OF tame moves(5)] k moves(2) i req by (auto simp: knows_def nth_list_update)
  moreover have "exclusive calls u"
    unfolding moves(2)
    by (rule exclusive_step) (use k moves(3) step_locks [OF tame moves(5)] in \<open>simp_all add: call_key_def req\<close>)
  moreover have "preserves_money s0 calls u"
  proof -
    have "matched (objects s0) (acc_view (accounts ?s)) req"
      using ready i k moves(4) nth_mem [OF i] by (auto simp: ready_def)
    moreover have "finite (dom (objects ?s))"
      using ready k shape_dom by (metis funded_def ready_def)
    ultimately have m: "shape (objects s) = shape (objects ?s)" "solvent (objects s)"
      "\<And>c. total c (objects s) + afloat c req st = total c (objects ?s) + afloat c req (stages t ! i)"
      using step_money [OF tame moves(5)] k by blast+
    have "total c (objects s) + sum_calls (afloat c) calls ((stages t)[i := st]) = total c (objects s0)" for c
    proof -
      have "total c (objects ?s) + sum_calls (afloat c) calls (stages t) = total c (objects s0)" using k by blast
      with m(3) [of c] sum_calls_update [OF moves(3), of "afloat c" calls st, unfolded req] show ?thesis by linarith
    qed
    with m(1,2) k show ?thesis by (simp add: preserves_money_def moves(2))
  qed
  ultimately show ?thesis by (simp add: traffic_ok_def)
qed

lemma traffic_runs_ok:
  assumes "ready W s0 calls" "runs (traffic_step W calls) (new_traffic calls s0) es t"
  shows "traffic_ok W s0 calls t"
  using assms(2) by (induction rule: runs.induct) (auto intro: new_traffic_ok traffic_step_ok assms(1))

section \<open>Nobody waits for ever\<close>

text \<open>Where no call can move, every call has returned or thrown, no lock is held and no money is missing.\<close>

lemma rest_finished:
  assumes ready: "ready W s0 calls" and ok: "traffic_ok W s0 calls t" and rest: "at_rest (traffic_step W calls) t"
  shows "i < length calls \<Longrightarrow> \<exists>r. stages t ! i = Finished r \<and> r \<noteq> Undefined \<and> r \<noteq> Blocks"
    and "held (locks (service t)) = {}" and "total c (objects (service t)) = total c (objects s0)"
proof -
  have W: "ports W = P" using ready by (simp add: ready_def)
  have k: "length (stages t) = length calls"
    "\<And>j. j < length calls \<Longrightarrow> stage_ok W (acc_view (accounts s0)) (objects s0) (snd (calls ! j)) (stages t ! j)"
    "held (locks (service t)) = call_key calls ` inside (stages t)"
    "\<And>c. total c (objects (service t)) + sum_calls (afloat c) calls (stages t) = total c (objects s0)"
    using ok by (simp_all add: traffic_ok_def knows_def exclusive_def preserves_money_def)
  have stuck: "(\<exists>txn. stages t ! j = Locking txn \<and> locks_acquire P (lock_key (snd (calls ! j))) (locks (service t)) = None) \<or>
      (\<exists>r. stages t ! j = Finished r)" if "j < length calls" for j
    using rest that k(1) call_step_None [of W _ _ "stages t ! j"] unfolding at_rest_traffic W by metis
  then have "\<not> guarded (stages t ! j)" if "j < length calls" for j using that by force
  then have empty: "inside (stages t) = {}" using k(1) by (auto simp: inside_def)
  then show held: "held (locks (service t)) = {}" using k(3) by simp
  have fin: "\<exists>r. stages t ! j = Finished r" if "j < length calls" for j
    using stuck [OF that] dl.acquire_free [of "lock_key (snd (calls ! j))" "locks (service t)"] held by auto
  show "\<exists>r. stages t ! i = Finished r \<and> r \<noteq> Undefined \<and> r \<noteq> Blocks" if "i < length calls"
    using fin [OF that] k(2) [OF that] by auto
  have "sum_calls (afloat c) calls (stages t) = 0"
    unfolding sum_calls_def using fin k(1) by (intro sum.neutral) fastforce
  then show "total c (objects (service t)) = total c (objects s0)" using k(4) [of c] by simp
qed

section \<open>Each key has one owner\<close>

lemma step_keys:
  assumes "tame W h req st s" "call_step W now req st s = Some (st', s')"
  shows "dom (key_view (idempotency s')) =
      (if \<not> owns st \<and> (owns st' \<or> takes_effect st st') then insert (idempotencyKey req) (dom (key_view (idempotency s)))
       else dom (key_view (idempotency s)))"
    and "\<not> owns st \<Longrightarrow> owns st' \<or> takes_effect st st' \<Longrightarrow> idempotencyKey req \<notin> dom (key_view (idempotency s)) \<and> undecided st"
    and "owns st \<Longrightarrow> owns st' \<or> takes_effect st st'"
    and "undecided st \<Longrightarrow> \<not> undecided st' \<Longrightarrow> \<not> takes_effect st st' \<Longrightarrow>
      idempotencyKey req \<in> dom (key_view (idempotency s)) \<and> \<not> owns st"
    and "\<not> undecided st \<Longrightarrow> \<not> undecided st' \<and> \<not> takes_effect st st'"
proof -
  have cap: "\<not> undecided (capturing a)" "\<not> owns (capturing a)" for a by (rule capturing_cases [of a]; simp)+
  note simps = takes_effect_def publish_event_def cap
  show "dom (key_view (idempotency s')) =
      (if \<not> owns st \<and> (owns st' \<or> takes_effect st st') then insert (idempotencyKey req) (dom (key_view (idempotency s)))
       else dom (key_view (idempotency s)))"
    by (rule step_cases [OF assms]) (auto simp: simps)
  show "\<not> owns st \<Longrightarrow> owns st' \<or> takes_effect st st' \<Longrightarrow> idempotencyKey req \<notin> dom (key_view (idempotency s)) \<and> undecided st"
    by (rule step_cases [OF assms]) (auto simp: simps)
  show "owns st \<Longrightarrow> owns st' \<or> takes_effect st st'"
    by (rule step_cases [OF assms]) (auto simp: simps)
  show "undecided st \<Longrightarrow> \<not> undecided st' \<Longrightarrow> \<not> takes_effect st st' \<Longrightarrow>
      idempotencyKey req \<in> dom (key_view (idempotency s)) \<and> \<not> owns st"
    by (rule step_cases [OF assms]) (auto simp: simps)
  show "\<not> undecided st \<Longrightarrow> \<not> undecided st' \<and> \<not> takes_effect st st'"
    by (rule step_cases [OF assms]) (auto simp: simps)
qed

definition one_owner ::
    "('ar, 'tr, 'is, 'dl, 'lr, 'ev) Service \<Rightarrow> (int64 \<times> PaymentRequest) list \<Rightarrow> nat list
     \<Rightarrow> ('ar, 'tr, 'is, 'dl, 'lr, 'ev) Service Traffic \<Rightarrow> bool" where
  "one_owner s0 calls es t \<longleftrightarrow>
     distinct es \<and> (\<forall>i \<in> set es. i < length (stages t) \<and> \<not> undecided (stages t ! i)) \<and>
     dom (key_view (idempotency (service t))) = dom (key_view (idempotency s0)) \<union> request_key calls ` won es (stages t) \<and>
     inj_on (request_key calls) (won es (stages t)) \<and>
     request_key calls ` won es (stages t) \<inter> dom (key_view (idempotency s0)) = {} \<and>
     (\<forall>i < length (stages t). \<not> undecided (stages t ! i) \<longrightarrow> i \<in> set es \<or>
        request_key calls i \<in> dom (key_view (idempotency s0)) \<union> request_key calls ` (won es (stages t) - {i}))"

lemma one_owner_step:
  assumes ready: "ready W s0 calls" and ok: "traffic_ok W s0 calls t" and step: "traffic_step W calls t fs u"
    and own: "one_owner s0 calls es t"
  shows "one_owner s0 calls (es @ fs) u"
  using step
proof cases
  case (moves i now req st s)
  let ?st = "stages t ! i" and ?K = "request_key calls" and ?W = "won es (stages t)"
    and ?W' = "won (es @ fs) (stages u)" and ?D = "dom (key_view (idempotency s0))"
  have req: "snd (calls ! i) = req" using moves(4) by simp
  note keys = step_keys [OF traffic_tame [OF ready ok moves(3), unfolded req] moves(5)]
  have o: "distinct es" "\<And>j. j \<in> set es \<Longrightarrow> j < length (stages t) \<and> \<not> undecided (stages t ! j)"
    "dom (key_view (idempotency (service t))) = ?D \<union> ?K ` ?W" "inj_on ?K ?W" "?K ` ?W \<inter> ?D = {}"
    "\<And>j. j < length (stages t) \<Longrightarrow> \<not> undecided (stages t ! j) \<Longrightarrow> j \<in> set es \<or> ?K j \<in> ?D \<union> ?K ` (?W - {j})"
    using own by (simp_all add: one_owner_def)
  have key: "?K i = idempotencyKey req" by (simp add: request_key_def req)
  have len: "length (stages u) = length (stages t)" using moves(2) by simp
  have in_won: "i \<in> ?W \<longleftrightarrow> i \<in> set es \<or> owns ?st" using moves(3) by (simp add: won_def)
  have W': "?W' = (if \<not> owns ?st \<and> (owns st \<or> takes_effect ?st st) then insert i ?W else ?W)"
    using keys(2,3,5) moves(1-3) in_won owns_undecided [of ?st] owns_undecided [of st]
    by (auto simp: won_def nth_list_update split: if_splits)
  have fresh: "?K i \<notin> ?D \<union> ?K ` ?W" if "\<not> owns ?st" "owns st \<or> takes_effect ?st st"
    using keys(2) [OF that] o(3) key by simp
  have es: "set (es @ fs) = (if takes_effect ?st st then insert i (set es) else set es)" using moves(1) by auto
  have un: "i \<notin> set es" if "takes_effect ?st st" using that o(2) by (auto simp: takes_effect_def)
  have "distinct (es @ fs)" using o(1) un moves(1) by auto
  moreover have "\<forall>j \<in> set (es @ fs). j < length (stages u) \<and> \<not> undecided (stages u ! j)"
    using o(2) moves(2,3) keys(5) unfolding es by (auto simp: nth_list_update takes_effect_def split: if_splits)
  moreover have "dom (key_view (idempotency (service u))) = ?D \<union> ?K ` ?W'"
    unfolding W' using keys(1) o(3) key moves(2) by simp
  moreover have "inj_on ?K ?W'" unfolding W' using o(4) fresh by auto
  moreover have "?K ` ?W' \<inter> ?D = {}" unfolding W' using o(5) fresh by auto
  moreover have "j \<in> set (es @ fs) \<or> ?K j \<in> ?D \<union> ?K ` (?W' - {j})"
    if j: "j < length (stages u)" "\<not> undecided (stages u ! j)" for j
  proof (cases "j = i \<and> undecided ?st")
    case True
    then have st: "\<not> undecided st" using j moves(2,3) by simp
    show ?thesis
    proof (cases "takes_effect ?st st")
      case False
      from keys(4) [OF conjunct2 [OF True] st False] have k: "?K i \<in> ?D \<union> ?K ` ?W" "\<not> owns ?st"
        unfolding o(3) key by simp_all
      have "i \<notin> ?W" using k(2) in_won o(2) True by blast
      with k(1) True show ?thesis unfolding W' by auto
    qed (use True es in simp)
  next
    case False
    then have "\<not> undecided (stages t ! j)" using j moves(2,3) keys(5) by (cases "j = i") auto
    with o(6) [of j] j(1) len have "j \<in> set es \<or> ?K j \<in> ?D \<union> ?K ` (?W - {j})" by simp
    moreover have "?W \<subseteq> ?W'" unfolding W' by auto
    then have "?K ` (?W - {j}) \<subseteq> ?K ` (?W' - {j})" by (intro image_mono Diff_mono) simp_all
    ultimately show ?thesis by auto
  qed
  ultimately show ?thesis by (simp add: one_owner_def)
qed

lemma new_one_owner: "one_owner s0 calls [] (new_traffic calls s0)"
proof -
  have "won [] (stages (new_traffic calls s0)) = {}" by (auto simp: won_def new_traffic_def)
  then show ?thesis unfolding one_owner_def by (simp add: new_traffic_def)
qed

lemma runs_one_owner:
  assumes "ready W s0 calls" "runs (traffic_step W calls) (new_traffic calls s0) es t"
  shows "one_owner s0 calls es t"
  using assms(2)
proof (induction rule: runs.induct)
  case (extend es t fs u)
  from one_owner_step [OF assms(1) traffic_runs_ok [OF assms(1) extend.hyps(1)] extend.hyps(2) extend.IH] show ?case .
qed (rule new_one_owner)

section \<open>The journal\<close>

lemma step_nets_to_zero:
  assumes tame: "tame W h req st s" and step: "call_step W now req st s = Some (st', s')"
    and net: "nets_to_zero (journal (ledger s))"
  shows "nets_to_zero (journal (ledger s'))"
proof (rule step_cases [OF tame step])
  fix a ns l
  assume a: "st = Posting a ns" "length ns = 2" "s' = s\<lparr>ledger := l\<rparr>"
    "journal l = journal (ledger s) @ numbered_posting req (txn_id (attempt_txn a)) ns"
  have "0 \<le> units (amount req)" using tame a(1) by (simp add: tame_def)
  then have "nets_to_zero (numbered_posting req (txn_id (attempt_txn a)) ns)"
    using numbered_posting_balanced [OF _ a(2)] balanced_nets_to_zero by blast
  with net a(3,4) show ?thesis by (simp add: nets_to_zero_def)
qed (use net in \<open>simp_all add: publish_event_def\<close>)

lemma step_journal:
  assumes tame: "tame W h req st s" and step: "call_step W now req st s = Some (st', s')"
    and match: "matched h (acc_view (accounts s)) req" and k: "acc_view (accounts s) k = Some p"
  shows "holding c (objects s' p) - ledger_balance c k (journal (ledger s')) - unposted c k req st' =
      holding c (objects s p) - ledger_balance c k (journal (ledger s)) - unposted c k req st"
proof -
  have sh: "shape (objects s) = shape h" and ok: "stage_ok W (acc_view (accounts s)) h req st"
    and reg: "registered h (acc_view (accounts s))"
    using tame by (simp_all add: tame_def)
  have same: "p = r \<longleftrightarrow> k = j" if "acc_view (accounts s) j = Some r" for j r
    using ar.registered_distinct [OF reg] k that by (simp add: ar.find_view)
  have cap: "unposted c k req (capturing a) = 0" for a by (rule capturing_cases [of a]) simp
  show "holding c (objects s' p) - ledger_balance c k (journal (ledger s')) - unposted c k req st' =
      holding c (objects s p) - ledger_balance c k (journal (ledger s)) - unposted c k req st"
  proof (rule step_cases [OF tame step])
    fix a hp
    assume a: "st = Debiting a" "attempted W (acc_view (accounts s)) req a" "st' = Crediting a" "s' = s\<lparr>objects := hp\<rparr>"
      and d: "debit_at (from_account a) (amount req) (objects s) = Returns (Status_ok, hp)"
    have "holding c (hp p) = holding c (objects s p) - (if p = from_account a then in_currency c (amount req) else 0)"
      by (rule debit_at_effect [OF d]) simp_all
    moreover have "p = from_account a \<longleftrightarrow> k = payerAccountId req" using same a(2) by (simp add: attempted_def)
    ultimately show ?thesis using a by simp
  next
    fix a cst hp
    assume a: "st = Crediting a" "attempted W (acc_view (accounts s)) req a" "st' = Numbering a []" "s' = s\<lparr>objects := hp\<rparr>"
      and cr: "credit_at (to_account a) (amount req) (objects s) = Returns (cst, hp)" and pos: "0 \<le> units (amount req)"
    obtain x where x: "h (from_account a) = Some x" "account_currency x = currency (amount req)" using ok a(1) by auto
    show ?thesis
    proof (rule credit_at_effect [OF cr pos])
      fix b
      assume b: "objects s (to_account a) = Some b"
        and hold: "\<And>r c. holding c (hp r) = holding c (objects s r) +
          (if r = to_account a \<and> account_currency b = currency (amount req) then in_currency c (amount req) else 0)"
      obtain b0 where b0: "h (to_account a) = Some b0" "account_currency b0 = account_currency b"
        using shape_Some [OF sh [symmetric] b] by metis
      have "account_currency b = currency (amount req)"
        using match x b0 a(2) by (auto simp: matched_def attempted_def)
      with hold have "holding c (hp p) = holding c (objects s p) + (if p = to_account a then in_currency c (amount req) else 0)"
        by simp
      moreover have "p = to_account a \<longleftrightarrow> k = payeeAccountId req" using same a(2) by (simp add: attempted_def)
      ultimately show ?thesis using a by (simp add: posting_effect_def)
    qed
  qed (use ok in \<open>auto simp: publish_event_def cap ledger_balance_append ledger_balance_numbered\<close>)
qed

definition reconciles ::
    "('ar, 'tr, 'is, 'dl, 'lr, 'ev) Service \<Rightarrow> (int64 \<times> PaymentRequest) list
     \<Rightarrow> ('ar, 'tr, 'is, 'dl, 'lr, 'ev) Service Traffic \<Rightarrow> bool" where
  "reconciles s0 calls t \<longleftrightarrow> (\<forall>c k p. acc_view (accounts s0) k = Some p \<longrightarrow>
     holding c (objects (service t) p) - ledger_balance c k (journal (ledger (service t))) - sum_calls (unposted c k) calls (stages t) =
     holding c (objects s0 p) - ledger_balance c k (journal (ledger s0)))"

lemma runs_journal:
  assumes ready: "ready W s0 calls" and run: "runs (traffic_step W calls) (new_traffic calls s0) es t"
  shows "reconciles s0 calls t \<and>
    (nets_to_zero (journal (ledger s0)) \<longrightarrow> nets_to_zero (journal (ledger (service t))))"
  using run
proof (induction rule: runs.induct)
  case start
  show ?case by (simp add: reconciles_def new_traffic_def sum_calls_def)
next
  case (extend es t fs u)
  note ok = traffic_runs_ok [OF ready extend.hyps(1)]
  from extend.hyps(2) show ?case
  proof cases
    case (moves i now req st s)
    have req: "snd (calls ! i) = req" using moves(4) by simp
    note tame = traffic_tame [OF ready ok moves(3), unfolded req]
    have i: "i < length calls" and acc: "accounts (service t) = accounts s0"
      using moves(3) ok by (simp_all add: traffic_ok_def knows_def)
    have match: "matched (objects s0) (acc_view (accounts (service t))) req"
      using ready nth_mem [OF i] moves(4) by (auto simp: ready_def acc)
    have "holding c (objects s p) - ledger_balance c k (journal (ledger s)) - sum_calls (unposted c k) calls ((stages t)[i := st]) =
        holding c (objects s0 p) - ledger_balance c k (journal (ledger s0))"
      if k: "acc_view (accounts s0) k = Some p" for c k p
    proof -
      have "holding c (objects (service t) p) - ledger_balance c k (journal (ledger (service t))) -
        sum_calls (unposted c k) calls (stages t) = holding c (objects s0 p) - ledger_balance c k (journal (ledger s0))"
        using extend.IH k by (simp add: reconciles_def)
      with step_journal [OF tame moves(5) match, unfolded acc, OF k, of c]
        sum_calls_update [OF moves(3), of "unposted c k" calls st, unfolded req] show ?thesis by linarith
    qed
    with extend.IH step_nets_to_zero [OF tame moves(5)] moves(2) show ?thesis by (simp add: reconciles_def)
  qed
qed

end

end
