(* ===== verification/InMemory_Account_Repository.thy ===== *)
theory InMemory_Account_Repository
  imports Ports
begin

text \<open>
  \<open>adapters/InMemoryAccountRepository.hpp\<close>: a map from account ids to shared account objects. Both
  methods hold the mutex for their whole body. \<open>save\<close> reads the account behind the pointer to find
  its id, so a null or dangling pointer is undefined.
\<close>

record InMemoryAccountRepository =
  acc_store :: "string \<rightharpoonup> addr"

definition new_acc_repo :: InMemoryAccountRepository where
  "new_acc_repo = \<lparr>acc_store = Map.empty\<rparr>"

definition mem_acc_find :: "string \<Rightarrow> InMemoryAccountRepository \<Rightarrow> addr option" where
  "mem_acc_find k r = (case acc_store r k of None \<Rightarrow> None | Some p \<Rightarrow> Some p)"

definition mem_acc_save :: "heap \<Rightarrow> addr \<Rightarrow> InMemoryAccountRepository \<Rightarrow> InMemoryAccountRepository outcome" where
  "mem_acc_save h p r =
     (case h p of
        None \<Rightarrow> Undefined
      | Some a \<Rightarrow> Returns (r\<lparr>acc_store := (acc_store r)(account_id a \<mapsto> p)\<rparr>))"

interpretation mem_acc: account_repository mem_acc_find mem_acc_save acc_store
  by unfold_locales (auto simp: mem_acc_find_def mem_acc_save_def split: option.splits)

lemma new_acc_repo_registered: "registered h (acc_store new_acc_repo)"
  by (simp add: registered_def new_acc_repo_def)

end
