(* ===== verification/InMemory_Transaction_Repository.thy ===== *)
theory InMemory_Transaction_Repository
  imports Ports
begin

text \<open>
  \<open>adapters/InMemoryTransactionRepository.hpp\<close>: a map from transaction ids to transactions, the last
  write winning.
\<close>

record InMemoryTransactionRepository =
  txn_store :: "string \<rightharpoonup> Transaction"

definition new_txn_repo :: InMemoryTransactionRepository where
  "new_txn_repo = \<lparr>txn_store = Map.empty\<rparr>"

definition mem_txn_find :: "string \<Rightarrow> InMemoryTransactionRepository \<Rightarrow> Transaction option" where
  "mem_txn_find k r = (case txn_store r k of None \<Rightarrow> None | Some t \<Rightarrow> Some t)"

definition mem_txn_save :: "Transaction \<Rightarrow> InMemoryTransactionRepository \<Rightarrow> InMemoryTransactionRepository" where
  "mem_txn_save t r = r\<lparr>txn_store := (txn_store r)(txn_id t \<mapsto> t)\<rparr>"

interpretation mem_txn: transaction_repository mem_txn_find mem_txn_save txn_store "\<lambda>_. True"
  by unfold_locales (auto simp: mem_txn_find_def mem_txn_save_def split: option.splits)

end
