(* ===== verification/InMemory_Idempotency_Store.thy ===== *)
theory InMemory_Idempotency_Store
  imports Ports
begin

text \<open>
  \<open>adapters/InMemoryIdempotencyStore.hpp\<close>: a map from idempotency keys to transaction ids;
  \<open>putIfAbsent\<close> checks and inserts under one lock.
\<close>

record InMemoryIdempotencyStore =
  key_store :: "string \<rightharpoonup> string"

definition new_key_store :: InMemoryIdempotencyStore where
  "new_key_store = \<lparr>key_store = Map.empty\<rparr>"

definition mem_key_get :: "string \<Rightarrow> InMemoryIdempotencyStore \<Rightarrow> string option" where
  "mem_key_get k r = (case key_store r k of None \<Rightarrow> None | Some v \<Rightarrow> Some v)"

definition mem_putIfAbsent :: "string \<Rightarrow> string \<Rightarrow> InMemoryIdempotencyStore \<Rightarrow> bool \<times> InMemoryIdempotencyStore" where
  "mem_putIfAbsent k v r =
     (case key_store r k of
        None \<Rightarrow> (True, r\<lparr>key_store := (key_store r)(k \<mapsto> v)\<rparr>)
      | Some _ \<Rightarrow> (False, r))"

interpretation mem_key: idempotency_store mem_key_get mem_putIfAbsent key_store
  by unfold_locales (auto simp: mem_key_get_def mem_putIfAbsent_def split: option.splits)

end
