(* ===== verification/InMemory_Distributed_Lock.thy ===== *)
theory InMemory_Distributed_Lock
  imports Ports
begin

text \<open>
  \<open>adapters/InMemoryDistributedLock.hpp\<close>: one mutex per key, created on first use. An entry of the
  map says whether the key's mutex is locked; \<open>mutexFor\<close> creates it unlocked. The guard's
  destructor unlocks the mutex and leaves it in the map.
\<close>

record InMemoryDistributedLock =
  key_locks :: "string \<rightharpoonup> bool"

definition new_lock_table :: InMemoryDistributedLock where
  "new_lock_table = \<lparr>key_locks = Map.empty\<rparr>"

definition mutexFor :: "string \<Rightarrow> InMemoryDistributedLock \<Rightarrow> bool \<times> InMemoryDistributedLock" where
  "mutexFor k r =
     (case key_locks r k of
        None \<Rightarrow> (False, r\<lparr>key_locks := (key_locks r)(k \<mapsto> False)\<rparr>)
      | Some locked \<Rightarrow> (locked, r))"

definition mem_lock_acquire :: "string \<Rightarrow> InMemoryDistributedLock \<Rightarrow> InMemoryDistributedLock option" where
  "mem_lock_acquire k r =
     (let (locked, r1) = mutexFor k r
      in if locked then None else Some (r1\<lparr>key_locks := (key_locks r1)(k \<mapsto> True)\<rparr>))"

definition mem_lock_release :: "string \<Rightarrow> InMemoryDistributedLock \<Rightarrow> InMemoryDistributedLock" where
  "mem_lock_release k r = r\<lparr>key_locks := (key_locks r)(k \<mapsto> False)\<rparr>"

definition held_keys :: "InMemoryDistributedLock \<Rightarrow> string set" where
  "held_keys r = {k. key_locks r k = Some True}"

interpretation mem_lock: distributed_lock mem_lock_acquire mem_lock_release held_keys
  by unfold_locales
    (auto simp: mem_lock_acquire_def mem_lock_release_def mutexFor_def held_keys_def split: option.splits)

end
