(* ===== verification/InMemory_Ledger_Repository.thy ===== *)
theory InMemory_Ledger_Repository
  imports Ports
begin

text \<open>
  \<open>adapters/InMemoryLedgerRepository.hpp\<close>: the append-only journal. \<open>net_loop\<close> is the checking loop of
  \<open>post\<close> with its early return (\<open>Inl\<close>) and its accumulator (\<open>Inr\<close>). Lemmas: the loop computes the
  sum of the signed amounts, so \<open>post\<close> accepts exactly the balanced postings whose running sum fits.
\<close>

record InMemoryLedgerRepository =
  entries :: "LedgerEntry list"

definition new_ledger :: InMemoryLedgerRepository where
  "new_ledger = \<lparr>entries = []\<rparr>"

fun net_loop :: "Currency \<Rightarrow> int64 \<Rightarrow> LedgerEntry list \<Rightarrow> (Status + int64) outcome" where
  "net_loop ccy net [] = Returns (Inr net)"
| "net_loop ccy net (e # es) =
     (if currency (entry_amount e) \<noteq> ccy
      then Returns (Inl (Status_fail VALIDATION_FAILED ''mixed currencies in one posting''))
      else obind (signedAmount e) (\<lambda>m.
           obind (add64 net (minorUnits m)) (\<lambda>net'. net_loop ccy net' es)))"

definition mem_post ::
    "LedgerEntry list \<Rightarrow> InMemoryLedgerRepository \<Rightarrow> (Status \<times> InMemoryLedgerRepository) outcome" where
  "mem_post es r =
     (if es = [] then Returns (Status_fail VALIDATION_FAILED ''ledger posting must have entries'', r)
      else obind (net_loop (currency (entry_amount (hd es))) 0 es) (\<lambda>res.
        case res of
          Inl st \<Rightarrow> Returns (st, r)
        | Inr net \<Rightarrow>
            if sint net \<noteq> 0
            then Returns (Status_fail INTERNAL_ERROR
                   (''unbalanced posting: net '' @ show_int (sint net) @ '' minor units (must be 0)''), r)
            else Returns (Status_ok, r\<lparr>entries := entries r @ es\<rparr>)))"

fun entriesFor_loop :: "string \<Rightarrow> LedgerEntry list \<Rightarrow> LedgerEntry list \<Rightarrow> LedgerEntry list" where
  "entriesFor_loop a out [] = out"
| "entriesFor_loop a out (e # es) =
     entriesFor_loop a (if entry_accountId e = a then out @ [e] else out) es"

definition mem_entriesFor :: "string \<Rightarrow> InMemoryLedgerRepository \<Rightarrow> LedgerEntry list" where
  "mem_entriesFor a r = entriesFor_loop a [] (entries r)"

section \<open>The loops\<close>

lemma signedAmount_fits:
  assumes "in_int64 (signed_units e)"
  obtains m where "signedAmount e = Returns m" "units m = signed_units e"
  by (rule signedAmount_cases [of e]) (use assms in \<open>auto simp: signed_units_def in_int64_def intro: that\<close>)

lemma net_loop_sum:
  assumes "net_loop ccy net es = Returns (Inr n)"
  shows "(\<forall>e \<in> set es. currency (entry_amount e) = ccy) \<and> sint n = sint net + sum_list (map signed_units es)"
  using assms
proof (induction es arbitrary: net)
  case (Cons e es)
  then obtain m net' where m: "signedAmount e = Returns m" and net': "add64 net (minorUnits m) = Returns net'"
    and rest: "net_loop ccy net' es = Returns (Inr n)" and c: "currency (entry_amount e) = ccy"
    by (auto simp: outcome_simps split: if_splits)
  from m have "units m = signed_units e" by (simp add: signedAmount_Returns)
  with net' have "sint net' = sint net + signed_units e" by (simp add: add64_def checked64_Returns)
  with Cons.IH [OF rest] c show ?case by simp
qed simp

lemma net_loop_rejects: "net_loop ccy net es = Returns (Inl st) \<Longrightarrow> Status_isErr st"
  by (induction es arbitrary: net) (auto simp: outcome_simps split: if_splits)

lemma net_loop_accepts:
  assumes "\<forall>e \<in> set es. currency (entry_amount e) = ccy" "sums_fit (sint net) es"
  shows "\<exists>n. net_loop ccy net es = Returns (Inr n)"
  using assms
proof (induction es arbitrary: net)
  case (Cons e es)
  obtain m where m: "signedAmount e = Returns m" "units m = signed_units e"
    using Cons.prems by (auto elim: signedAmount_fits)
  obtain net' where net': "add64 net (minorUnits m) = Returns net'" "sint net' = sint net + signed_units e"
    using Cons.prems m checked64_in_range [of "sint net + units m"] by (auto simp: add64_def)
  with Cons.prems have "\<exists>n. net_loop ccy net' es = Returns (Inr n)"
    by (intro Cons.IH) simp_all
  with m net' Cons.prems show ?case by simp
qed simp

lemma entriesFor_loop_filter: "entriesFor_loop a out es = out @ filter (\<lambda>e. entry_accountId e = a) es"
  by (induction es arbitrary: out) simp_all

text \<open>A posting that returns is rejected with the journal unchanged or is balanced and appended.\<close>

lemma mem_post_cases:
  assumes "mem_post es r = Returns (st, r')"
  obtains (rejected) "Status_isErr st" "r' = r"
  | (accepted) "st = Status_ok" "balanced es" "r' = r\<lparr>entries := entries r @ es\<rparr>"
proof (cases "es = []")
  case True
  with assms show ?thesis by (intro rejected) (auto simp: mem_post_def)
next
  case False
  with assms obtain res where res: "net_loop (posting_currency es) 0 es = Returns res"
    by (auto simp: mem_post_def posting_currency_def outcome_simps)
  show ?thesis
  proof (cases res)
    case (Inl st1)
    with res net_loop_rejects assms False show ?thesis
      by (intro rejected) (auto simp: mem_post_def posting_currency_def)
  next
    case (Inr n)
    with assms res False rejected accepted net_loop_sum [OF res [unfolded Inr]] show ?thesis
      by (auto simp: mem_post_def posting_currency_def [symmetric] balanced_def split: if_splits)
  qed
qed

lemma mem_post_ok:
  assumes "mem_post es r = Returns (st, r')" "Status_isOk st"
  shows "st = Status_ok \<and> balanced es \<and> entries r' = entries r @ es"
  using assms by (auto elim!: mem_post_cases simp: Status_isErr_def)

lemma mem_post_err: "mem_post es r = Returns (st, r') \<Longrightarrow> Status_isErr st \<Longrightarrow> r' = r"
  by (auto elim!: mem_post_cases)

lemma mem_post_accepts:
  assumes "balanced es" "sums_fit 0 es"
  shows "mem_post es r = Returns (Status_ok, r\<lparr>entries := entries r @ es\<rparr>)"
proof -
  from assms obtain n where n: "net_loop (posting_currency es) 0 es = Returns (Inr n)"
    using net_loop_accepts [of es "posting_currency es" 0] by (auto simp: balanced_def)
  moreover from net_loop_sum [OF n] assms(1) have "sint n = 0" by (simp add: balanced_def)
  moreover from assms(1) have "es \<noteq> []" by (simp add: balanced_def)
  ultimately show ?thesis unfolding mem_post_def posting_currency_def by simp
qed

interpretation mem_ledger: ledger_repository mem_post mem_entriesFor entries
proof unfold_locales
  show "st = Status_ok \<and> balanced es \<and> entries s' = entries s @ es"
    if "mem_post es s = Returns (st, s')" "Status_isOk st" for es s st s'
    using that by (rule mem_post_ok)
  show "s' = s" if "mem_post es s = Returns (st, s')" "Status_isErr st" for es s st s'
    using that by (rule mem_post_err)
  show "\<exists>s'. mem_post es s = Returns (Status_ok, s')" if "balanced es" "sums_fit 0 es" for es s
    using mem_post_accepts [OF that] by blast
  show "mem_entriesFor a s = filter (\<lambda>e. entry_accountId e = a) (entries s)" for a s
    by (simp add: mem_entriesFor_def entriesFor_loop_filter)
qed

end
