(* ===== verification/InMemory_Event_Publisher.thy ===== *)
theory InMemory_Event_Publisher
  imports Ports
begin

text \<open>
  \<open>adapters/InMemoryEventPublisher.hpp\<close>: the event log and the fan-out to subscribers. A subscriber
  is a callback with an effect on the world outside the program, given as a function on that world;
  \<open>publish\<close> appends to the log, takes a snapshot of the subscribers and calls them in order.
\<close>

type_synonym 'w Subscriber = "DomainEvent \<Rightarrow> 'w \<Rightarrow> 'w"

record 'w InMemoryEventPublisher =
  subscribers :: "'w Subscriber list"
  event_log :: "DomainEvent list"
  outside :: 'w

definition new_publisher :: "'w \<Rightarrow> 'w InMemoryEventPublisher" where
  "new_publisher w = \<lparr>subscribers = [], event_log = [], outside = w\<rparr>"

definition subscribe :: "'w Subscriber \<Rightarrow> 'w InMemoryEventPublisher \<Rightarrow> 'w InMemoryEventPublisher" where
  "subscribe s r = r\<lparr>subscribers := subscribers r @ [s]\<rparr>"

definition mem_publish :: "DomainEvent \<Rightarrow> 'w InMemoryEventPublisher \<Rightarrow> 'w InMemoryEventPublisher" where
  "mem_publish e r =
     (let r1 = r\<lparr>event_log := event_log r @ [e]\<rparr>;
          snapshot = subscribers r1
      in r1\<lparr>outside := fold (\<lambda>s. s e) snapshot (outside r1)\<rparr>)"

interpretation mem_events: event_publisher mem_publish event_log
  by unfold_locales (simp add: mem_publish_def)

lemma mem_publish_subscribers [simp]: "subscribers (mem_publish e r) = subscribers r"
  by (simp add: mem_publish_def)

text \<open>A subscriber that counts its calls sees every event of the log published after it joined.\<close>

lemma fold_mem_publish_outside:
  "outside (fold mem_publish es r) = fold (\<lambda>e w. fold (\<lambda>s. s e) (subscribers r) w) es (outside r)"
proof (induction es arbitrary: r)
  case (Cons e es)
  have "outside (mem_publish e r) = fold (\<lambda>s. s e) (subscribers r) (outside r)"
    by (simp add: mem_publish_def)
  with Cons [of "mem_publish e r"] show ?case by simp
qed simp

text \<open>Every event is logged and reaches every subscriber: events in the order of publication, subscribers in that of
  subscription.\<close>

lemma publish_delivers_in_order:
  "event_log (fold mem_publish es r) = event_log r @ es \<and>
   outside (fold mem_publish es r) = fold (\<lambda>e w. fold (\<lambda>s. s e) (subscribers r) w) es (outside r)"
  by (simp add: mem_events.fold_publish_log fold_mem_publish_outside)

end
