(* ===== verification/File_Transaction_Repository.thy ===== *)
theory File_Transaction_Repository
  imports Ports "HOL-Library.AList" "HOL-Library.Multiset"
begin

text \<open>
  \<open>adapters/FileTransactionRepository.hpp\<close>: the durable adapter. Its state is the in-memory index
  (an association list with distinct keys for the \<open>unordered_map\<close>), the content of the file
  (\<open>None\<close> when there is none) and whether the file can be opened for writing: \<open>flushToDisk\<close> never
  looks at the stream's state. \<open>flushToDisk\<close> writes in the map's iteration order, which the standard
  leaves open: it is the parameter \<open>iter\<close>, any function that permutes the entries. The clock is an
  argument where the C++ constructor of a transaction reads it.

  Lemmas: serialising and deserialising a line, reloading a flushed file, and what a separator
  inside a field does to both.
\<close>

abbreviation DELIM :: char where "DELIM \<equiv> CHR 0x09"
abbreviation NEWLINE :: char where "NEWLINE \<equiv> CHR 0x0A"

type_synonym Index = "(string \<times> Transaction) list"

record FileTransactionRepository =
  index :: Index
  disk :: "string option"
  writable :: bool

section \<open>Serialisation\<close>

definition serialize :: "Transaction \<Rightarrow> string" where
  "serialize t =
     txn_id t @ DELIM #
     txn_idempotencyKey t @ DELIM #
     txn_payer t @ DELIM #
     txn_payee t @ DELIM #
     show_int (units (txn_amount t)) @ DELIM #
     show_int (int_of_Currency (currency (txn_amount t))) @ DELIM #
     show_int (int_of_method (txn_method t)) @ DELIM #
     show_int (int_of_status (txn_status t)) @ DELIM #
     show_int (sint (txn_createdAtEpoch t))"

fun take_fields :: "nat \<Rightarrow> char \<Rightarrow> string \<Rightarrow> string list option" where
  "take_fields 0 d s = Some []"
| "take_fields (Suc n) d s =
     (case getline d s of
        None \<Rightarrow> None
      | Some (f, rest) \<Rightarrow> map_option ((#) f) (take_fields n d rest))"

definition deserialize :: "int64 \<Rightarrow> string \<Rightarrow> Transaction option outcome" where
  "deserialize now line =
     (case take_fields 9 DELIM line of
        Some [i, key, payer, payee, minor, ccy, meth, status, created] \<Rightarrow>
          obind (stoll minor) (\<lambda>minor.
          obind (stoi ccy) (\<lambda>ccy.
          obind (stoi meth) (\<lambda>meth.
          obind (stoi status) (\<lambda>status.
          obind (stoll created) (\<lambda>created.
            Returns (Some (rehydrate i key payer payee (fromMinor minor (Currency_of_int ccy))
              (method_of_int meth) (status_of_int status) created now)))))))
      | _ \<Rightarrow> Returns None)"

section \<open>Loading and flushing\<close>

definition insert_or_assign :: "Transaction \<Rightarrow> Index \<Rightarrow> Index" where
  "insert_or_assign t idx = AList.update (txn_id t) t idx"

function load_loop :: "int64 \<Rightarrow> Index \<Rightarrow> string \<Rightarrow> Index outcome" where
  "load_loop now idx s =
     (case getline NEWLINE s of
        None \<Rightarrow> Returns idx
      | Some (line, rest) \<Rightarrow>
          if line = [] then load_loop now idx rest
          else obind (deserialize now line) (\<lambda>t.
                 load_loop now (case t of None \<Rightarrow> idx | Some t \<Rightarrow> insert_or_assign t idx) rest))"
  by pat_completeness auto
termination
  by (relation "measure (\<lambda>(now, idx, s). length s)") (auto dest: getline_shorter)

declare load_loop.simps [simp del]

definition loadFromDisk :: "int64 \<Rightarrow> string option \<Rightarrow> Index outcome" where
  "loadFromDisk now d = (case d of None \<Rightarrow> Returns [] | Some content \<Rightarrow> load_loop now [] content)"

definition open_file_repo :: "int64 \<Rightarrow> string option \<Rightarrow> bool \<Rightarrow> FileTransactionRepository outcome" where
  "open_file_repo now d w =
     obind (loadFromDisk now d) (\<lambda>idx. Returns \<lparr>index = idx, disk = d, writable = w\<rparr>)"

definition file_text :: "Transaction list \<Rightarrow> string" where
  "file_text ts = concat (map (\<lambda>t. serialize t @ [NEWLINE]) ts)"

definition flushToDisk :: "(Index \<Rightarrow> Index) \<Rightarrow> FileTransactionRepository \<Rightarrow> FileTransactionRepository" where
  "flushToDisk iter r =
     (if writable r then r\<lparr>disk := Some (file_text (map snd (iter (index r))))\<rparr> else r)"

definition file_find :: "string \<Rightarrow> FileTransactionRepository \<Rightarrow> Transaction option" where
  "file_find k r = map_of (index r) k"

definition file_save ::
    "(Index \<Rightarrow> Index) \<Rightarrow> Transaction \<Rightarrow> FileTransactionRepository \<Rightarrow> FileTransactionRepository" where
  "file_save iter t r = flushToDisk iter (r\<lparr>index := insert_or_assign t (index r)\<rparr>)"

definition file_size :: "FileTransactionRepository \<Rightarrow> nat" where
  "file_size r = length (index r)"

text \<open>A process restart: the object is gone, a new one is built on the same file.\<close>

definition reopen :: "int64 \<Rightarrow> FileTransactionRepository \<Rightarrow> FileTransactionRepository outcome" where
  "reopen now r = open_file_repo now (disk r) (writable r)"

section \<open>The index\<close>

definition file_view :: "FileTransactionRepository \<Rightarrow> (string \<rightharpoonup> Transaction)" where
  "file_view r = map_of (index r)"

definition index_ok :: "Index \<Rightarrow> bool" where
  "index_ok idx \<longleftrightarrow> distinct (map fst idx) \<and> (\<forall>(k, t) \<in> set idx. txn_id t = k)"

definition file_inv :: "FileTransactionRepository \<Rightarrow> bool" where
  "file_inv r \<longleftrightarrow> index_ok (index r)"

lemma map_of_insert_or_assign [simp]: "map_of (insert_or_assign t idx) = (map_of idx)(txn_id t \<mapsto> t)"
  by (simp add: insert_or_assign_def update_conv')

lemma index_ok_insert: "index_ok idx \<Longrightarrow> index_ok (insert_or_assign t idx)"
proof -
  assume ok: "index_ok idx"
  then have d: "distinct (map fst (insert_or_assign t idx))"
    by (simp add: index_ok_def insert_or_assign_def distinct_update)
  have "txn_id u = k" if "(k, u) \<in> set (insert_or_assign t idx)" for k u
    using ok map_of_is_SomeI [OF d that]
    by (auto simp: index_ok_def dest!: map_of_SomeD split: if_splits)
  with d show ?thesis by (auto simp: index_ok_def)
qed

lemma flushToDisk_sel [simp]: "index (flushToDisk iter r) = index r" "writable (flushToDisk iter r) = writable r"
  by (simp_all add: flushToDisk_def)

lemma file_save_index [simp]: "index (file_save iter t r) = insert_or_assign t (index r)"
  by (simp add: file_save_def)

interpretation file_txn: transaction_repository file_find "file_save iter" file_view file_inv for iter
  by unfold_locales (simp_all add: file_find_def file_view_def file_inv_def index_ok_insert)

section \<open>One line\<close>

text \<open>A transaction whose text fields hold no separator and whose enumerators are named.\<close>

definition plain :: "string \<Rightarrow> bool" where
  "plain s \<longleftrightarrow> DELIM \<notin> set s \<and> NEWLINE \<notin> set s"

definition storable :: "Transaction \<Rightarrow> bool" where
  "storable t \<longleftrightarrow> plain (txn_id t) \<and> plain (txn_idempotencyKey t) \<and> plain (txn_payer t) \<and> plain (txn_payee t) \<and>
     named_currency (currency (txn_amount t)) \<and> named_method (txn_method t) \<and> named_status (txn_status t)"

lemma take_fields_delimited:
  "d \<notin> set f \<Longrightarrow> take_fields (Suc n) d (f @ d # rest) = map_option ((#) f) (take_fields n d rest)"
  by (simp add: getline_delimited)

lemma take_fields_last: "d \<notin> set f \<Longrightarrow> f \<noteq> [] \<Longrightarrow> take_fields (Suc 0) d f = Some [f]"
  by (simp add: getline_last)

lemma take_fields_serialize:
  assumes "plain (txn_id t)" "plain (txn_idempotencyKey t)" "plain (txn_payer t)" "plain (txn_payee t)"
  shows "take_fields 9 DELIM (serialize t) =
    Some [txn_id t, txn_idempotencyKey t, txn_payer t, txn_payee t, show_int (units (txn_amount t)),
      show_int (int_of_Currency (currency (txn_amount t))), show_int (int_of_method (txn_method t)),
      show_int (int_of_status (txn_status t)), show_int (sint (txn_createdAtEpoch t))]"
  using assms
  by (simp add: serialize_def plain_def numeral_eq_Suc take_fields_delimited take_fields_last
      del: take_fields.simps(2))

text \<open>A separator inside the idempotency key shifts every later field by one.\<close>

lemma take_fields_shifted:
  assumes "plain (txn_id t)" "plain a" "plain b" "plain (txn_payer t)" "plain (txn_payee t)"
    and "txn_idempotencyKey t = a @ DELIM # b"
  shows "take_fields 9 DELIM (serialize t) =
    Some [txn_id t, a, b, txn_payer t, txn_payee t, show_int (units (txn_amount t)),
      show_int (int_of_Currency (currency (txn_amount t))), show_int (int_of_method (txn_method t)),
      show_int (int_of_status (txn_status t))]"
  using assms
  by (simp add: serialize_def plain_def numeral_eq_Suc take_fields_delimited
      del: take_fields.simps(2))

lemma deserialize_serialize:
  assumes "storable t"
  shows "deserialize now (serialize t) = Returns (Some t)"
  using assms by (simp add: storable_def deserialize_def take_fields_serialize)

lemma serialize_no_newline: "storable t \<Longrightarrow> NEWLINE \<notin> set (serialize t)"
  by (auto simp: storable_def plain_def serialize_def)

lemma serialize_nonempty [simp]: "serialize t \<noteq> []"
  by (simp add: serialize_def)

section \<open>The whole file\<close>

lemma load_loop_Nil [simp]: "load_loop now idx [] = Returns idx"
  by (subst load_loop.simps) simp

lemma load_loop_line:
  assumes "storable t"
  shows "load_loop now idx (serialize t @ NEWLINE # rest) = load_loop now (insert_or_assign t idx) rest"
  by (subst load_loop.simps)
    (simp add: getline_delimited serialize_no_newline deserialize_serialize assms)

lemma load_loop_file_text:
  assumes "\<forall>t \<in> set ts. storable t"
  shows "load_loop now idx (file_text ts) = Returns (fold insert_or_assign ts idx)"
  using assms by (induction ts arbitrary: idx) (simp_all add: file_text_def load_loop_line)

lemma map_of_fold_insert:
  "map_of (fold insert_or_assign ts idx) = map_of idx ++ map_of (rev (map (\<lambda>t. (txn_id t, t)) ts))"
  by (induction ts arbitrary: idx) (auto simp: map_add_def fun_eq_iff split: option.splits)

lemma index_ok_fold: "index_ok idx \<Longrightarrow> index_ok (fold insert_or_assign ts idx)"
  by (induction ts arbitrary: idx) (simp_all add: index_ok_insert)

definition all_storable :: "FileTransactionRepository \<Rightarrow> bool" where
  "all_storable r \<longleftrightarrow> (\<forall>(k, t) \<in> set (index r). storable t)"

lemma index_entries: "index_ok idx \<Longrightarrow> map (\<lambda>t. (txn_id t, t)) (map snd idx) = idx"
  by (auto simp: index_ok_def intro!: map_idI)

lemma index_ok_perm:
  assumes "index_ok idx" "mset idx' = mset idx"
  shows "index_ok idx'" "set idx' = set idx"
proof -
  show "set idx' = set idx" using assms(2) by (rule mset_eq_setD)
  moreover have "distinct (map fst idx')"
    using assms by (metis index_ok_def mset_eq_imp_distinct_iff mset_map)
  ultimately show "index_ok idx'" using assms(1) by (simp add: index_ok_def)
qed

text \<open>What is on the disk after a flush reloads to the same map, whatever the iteration order.\<close>

lemma reload_flushed:
  assumes ok: "index_ok idx" and st: "\<forall>(k, t) \<in> set idx. storable t" and perm: "mset idx' = mset idx"
  obtains idx2 where "load_loop now [] (file_text (map snd idx')) = Returns idx2"
    and "map_of idx2 = map_of idx" and "index_ok idx2"
proof -
  let ?ts = "map snd idx'"
  note ok' = index_ok_perm [OF ok perm]
  have "\<forall>t \<in> set ?ts. storable t" using st ok'(2) by auto
  then have "load_loop now [] (file_text ?ts) = Returns (fold insert_or_assign ?ts [])"
    by (rule load_loop_file_text)
  moreover have "map_of (fold insert_or_assign ?ts []) = map_of (rev idx')"
    using index_entries [OF ok'(1)] by (simp add: map_of_fold_insert)
  moreover have "map_of (rev idx') = map_of idx"
    using ok ok' by (intro map_of_inject_set [THEN iffD2]) (auto simp: index_ok_def rev_map [symmetric])
  moreover have "index_ok (fold insert_or_assign ?ts [])"
    by (rule index_ok_fold) (simp add: index_ok_def)
  ultimately show ?thesis using that by simp
qed

section \<open>Durability as an interface\<close>

locale durable_transaction_repository = transaction_repository find save view inv
  for find :: "string \<Rightarrow> 'tr \<Rightarrow> Transaction option"
    and save :: "Transaction \<Rightarrow> 'tr \<Rightarrow> 'tr"
    and view :: "'tr \<Rightarrow> (string \<rightharpoonup> Transaction)"
    and inv :: "'tr \<Rightarrow> bool" +
  fixes restart :: "int64 \<Rightarrow> 'tr \<Rightarrow> 'tr outcome"
    and durable :: "'tr \<Rightarrow> bool"
    and safe :: "Transaction \<Rightarrow> bool"
  assumes restart_after_save: "inv s \<Longrightarrow> durable s \<Longrightarrow> safe t \<Longrightarrow>
      \<exists>s'. restart now (save t s) = Returns s' \<and> inv s' \<and> durable s' \<and> view s' = view (save t s)"
    and save_durable: "inv s \<Longrightarrow> durable s \<Longrightarrow> safe t \<Longrightarrow> durable (save t s)"
begin

text \<open>Whatever was saved last, a restart finds every saved transaction again.\<close>

lemma find_after_restart:
  assumes "inv s" "durable s" "safe t"
  obtains s' where "restart now (save t s) = Returns s'"
    and "\<And>k. find k s' = (if k = txn_id t then Some t else find k s)"
proof -
  from restart_after_save [OF assms] obtain s' where
    "restart now (save t s) = Returns s'" "inv s'" "view s' = view (save t s)" by blast
  moreover have "find k s' = (if k = txn_id t then Some t else find k s)" for k
    using find_view [OF \<open>inv s'\<close>, of k] find_view [OF assms(1), of k] save_view [OF assms(1), of t]
      \<open>view s' = view (save t s)\<close> by simp
  ultimately show ?thesis using that by blast
qed

lemma fold_save_durable:
  "inv s \<Longrightarrow> durable s \<Longrightarrow> \<forall>t \<in> set ts. safe t \<Longrightarrow> inv (fold save ts s) \<and> durable (fold save ts s)"
  by (induction ts arbitrary: s) (simp_all add: save_inv save_durable)

end

text \<open>The one law the adapter needs of \<open>unordered_map\<close> iteration: each entry is visited exactly once.\<close>

locale iteration_order =
  fixes iter :: "Index \<Rightarrow> Index"
  assumes iter_perm: "mset (iter idx) = mset idx"

definition file_durable :: "FileTransactionRepository \<Rightarrow> bool" where
  "file_durable r \<longleftrightarrow> writable r \<and> all_storable r"

lemma all_storable_save:
  assumes "file_inv r" "all_storable r" "storable t"
  shows "all_storable (file_save iter t r)"
proof -
  have "index_ok (insert_or_assign t (index r))" using assms(1) by (simp add: file_inv_def index_ok_insert)
  then have "storable u" if "(k, u) \<in> set (insert_or_assign t (index r))" for k u
    using that assms(2,3) map_of_is_SomeI [of "insert_or_assign t (index r)" k u]
    by (auto simp: index_ok_def all_storable_def dest!: map_of_SomeD split: if_splits)
  then show ?thesis by (auto simp: all_storable_def)
qed

lemma fold_file_save_durable:
  assumes "file_inv r" "file_durable r" "\<forall>u \<in> set ts. storable u"
  shows "file_inv (fold (file_save iter) ts r) \<and> file_durable (fold (file_save iter) ts r)"
  using assms
proof (induction ts arbitrary: r)
  case (Cons u ts)
  have "file_durable (file_save iter u r)"
    using all_storable_save [of r u iter] Cons.prems by (simp add: file_durable_def file_save_def)
  with Cons show ?case by (simp add: file_txn.save_inv)
qed simp

lemma file_restart_after_save:
  assumes "\<And>idx. mset (iter idx) = mset idx" "file_inv r" "file_durable r" "storable t"
  shows "\<exists>r'. reopen now (file_save iter t r) = Returns r' \<and> file_inv r' \<and> file_durable r' \<and>
           file_view r' = file_view (file_save iter t r)"
proof -
  let ?idx = "insert_or_assign t (index r)"
  have ok: "index_ok ?idx" using assms(2) by (simp add: file_inv_def index_ok_insert)
  have st: "\<forall>(k, t) \<in> set ?idx. storable t"
    using all_storable_save [of r t iter] assms by (simp add: all_storable_def file_durable_def)
  obtain idx2 where l: "load_loop now [] (file_text (map snd (iter ?idx))) = Returns idx2"
    and m: "map_of idx2 = map_of ?idx" and ok2: "index_ok idx2"
    using reload_flushed [OF ok st assms(1)] by blast
  have "set idx2 = set ?idx"
    using m ok ok2 by (intro map_of_inject_set [THEN iffD1]) (simp_all add: index_ok_def)
  with l m ok2 assms(3) st show ?thesis
    by (auto simp: reopen_def open_file_repo_def loadFromDisk_def file_save_def flushToDisk_def
        file_inv_def file_durable_def all_storable_def file_view_def)
qed

sublocale iteration_order \<subseteq> file_durable: durable_transaction_repository file_find "file_save iter" file_view file_inv
    reopen file_durable storable
proof unfold_locales
  show "\<exists>s'. reopen now (file_save iter t s) = Returns s' \<and> file_inv s' \<and> file_durable s' \<and>
      file_view s' = file_view (file_save iter t s)"
    if "file_inv s" "file_durable s" "storable t" for s t now
    using that iter_perm by (intro file_restart_after_save)
  show "file_durable (file_save iter t s)" if "file_inv s" "file_durable s" "storable t" for s t
    using that all_storable_save [of s t iter]
    by (simp add: file_durable_def) (simp add: file_save_def)
qed

interpretation insertion_order: iteration_order "\<lambda>idx. idx"
  by unfold_locales simp

interpretation reverse_order: iteration_order rev
  by unfold_locales simp

text \<open>\<open>save\<close> never looks at the stream: when the file cannot be opened the save looks successful and is lost at a
  restart.\<close>

lemma unwritable_file_loses_the_save:
  assumes "\<not> writable r"
  shows "file_find (txn_id t) (file_save iter t r) = Some t \<and> disk (file_save iter t r) = disk r \<and>
    reopen now (file_save iter t r) = reopen now r"
  using assms by (simp add: file_find_def file_save_def flushToDisk_def reopen_def)

end
