(* ===== verification/Wiring.thy ===== *)
theory Wiring
  imports Payment_Progress Concurrent_Payments InMemory_Account_Repository InMemory_Transaction_Repository
    InMemory_Idempotency_Store InMemory_Distributed_Lock InMemory_Ledger_Repository
    InMemory_Event_Publisher File_Transaction_Repository
begin

text \<open>
  The composition of service and adapters, as \<open>main.cpp\<close> and the tests do it: the in-memory ports, and
  the same with the file repository in place of the in-memory one. Both satisfy the locale
  \<open>payment_service\<close>, so every guarantee proved against the ports holds of them.
\<close>

type_synonym 'w App =
  "(InMemoryAccountRepository, InMemoryTransactionRepository, InMemoryIdempotencyStore,
    InMemoryDistributedLock, InMemoryLedgerRepository, 'w InMemoryEventPublisher) Service"

type_synonym 'w AppPorts =
  "(InMemoryAccountRepository, InMemoryTransactionRepository, InMemoryIdempotencyStore,
    InMemoryDistributedLock, InMemoryLedgerRepository, 'w InMemoryEventPublisher) Ports"

type_synonym 'w AppWiring =
  "(InMemoryAccountRepository, InMemoryTransactionRepository, InMemoryIdempotencyStore,
    InMemoryDistributedLock, InMemoryLedgerRepository, 'w InMemoryEventPublisher) Wiring"

definition inmemory_ports :: "'w AppPorts" where
  "inmemory_ports =
     \<lparr>accounts_find = mem_acc_find, transactions_find = mem_txn_find, transactions_save = mem_txn_save,
      idempotency_get = mem_key_get, idempotency_putIfAbsent = mem_putIfAbsent,
      locks_acquire = mem_lock_acquire, locks_release = mem_lock_release,
      ledger_post = mem_post, events_publish = mem_publish\<rparr>"

definition durable_ports ::
    "(Index \<Rightarrow> Index) \<Rightarrow> (InMemoryAccountRepository, FileTransactionRepository, InMemoryIdempotencyStore,
      InMemoryDistributedLock, InMemoryLedgerRepository, 'w InMemoryEventPublisher) Ports" where
  "durable_ports iter =
     \<lparr>accounts_find = mem_acc_find, transactions_find = file_find, transactions_save = file_save iter,
      idempotency_get = mem_key_get, idempotency_putIfAbsent = mem_putIfAbsent,
      locks_acquire = mem_lock_acquire, locks_release = mem_lock_release,
      ledger_post = mem_post, events_publish = mem_publish\<rparr>"

definition inmemory_wiring :: "Money \<Rightarrow> Money \<Rightarrow> 'w AppWiring" where
  "inmemory_wiring limit threshold =
     \<lparr>ports = inmemory_ports, strategies = new_factory, validation = standard_chain limit threshold\<rparr>"

definition empty_app :: "'w InMemoryEventPublisher \<Rightarrow> 'w App" where
  "empty_app publisher =
     new_service new_acc_repo Map.empty new_txn_repo new_key_store new_lock_table new_ledger publisher"

text \<open>\<open>accounts.save(std::make_shared<Account>(...))\<close> at a fresh address.\<close>

definition open_account :: "addr \<Rightarrow> Account \<Rightarrow> 'w App \<Rightarrow> 'w App outcome" where
  "open_account p a s =
     (let h = (objects s)(p \<mapsto> a)
      in obind (mem_acc_save h p (accounts s)) (\<lambda>r. Returns (s\<lparr>objects := h, accounts := r\<rparr>)))"

lemmas mem_ports_axioms = mem_acc.account_repository_axioms mem_txn.transaction_repository_axioms
  mem_key.idempotency_store_axioms mem_lock.distributed_lock_axioms mem_ledger.ledger_repository_axioms
  mem_events.event_publisher_axioms file_txn.transaction_repository_axioms

interpretation app: payment_service inmemory_ports mem_acc_save acc_store txn_store "\<lambda>_. True"
  key_store held_keys mem_entriesFor entries event_log
  by (rule payment_service.intro) (simp_all add: inmemory_ports_def mem_ports_axioms)

interpretation durable_app: payment_service "durable_ports iter" mem_acc_save acc_store file_view file_inv
  key_store held_keys mem_entriesFor entries event_log for iter
  by (rule payment_service.intro) (simp_all add: durable_ports_def mem_ports_axioms)

lemma inmemory_wiring_sel [simp]:
  "ports (inmemory_wiring l t) = inmemory_ports" "strategies (inmemory_wiring l t) = new_factory"
  "validation (inmemory_wiring l t) = standard_chain l t"
  by (simp_all add: inmemory_wiring_def)

lemma standard_chain_returns: "run (standard_chain l t) txn \<noteq> Undefined" "run (standard_chain l t) txn \<noteq> Blocks"
  by (auto simp: standard_chain_list check_Basic LimitValidationHandler_def FraudCheckHandler_def
      Money_greater_def Money_ge_def assertSameCcy_def)

lemma empty_app_sel [simp]:
  "accounts (empty_app pub) = new_acc_repo" "objects (empty_app pub) = Map.empty"
  "transactions (empty_app pub) = new_txn_repo" "idempotency (empty_app pub) = new_key_store"
  "locks (empty_app pub) = new_lock_table" "ledger (empty_app pub) = new_ledger" "events (empty_app pub) = pub"
  "txnIds (empty_app pub) = mkIdGenerator ''txn'' 1" "entryIds (empty_app pub) = mkIdGenerator ''le'' 1"
  "seq (empty_app pub) = 1"
  by (simp_all add: empty_app_def new_service_def)

section \<open>Well-formed applications\<close>

text \<open>Registered accounts, all funds representable, nothing owed, a balanced journal, no lock held.\<close>

definition app_ok :: "'w App \<Rightarrow> bool" where
  "app_ok s \<longleftrightarrow> registered (objects s) (acc_store (accounts s)) \<and> funded (objects s) \<and>
     nets_to_zero (entries (ledger s)) \<and> held_keys (locks s) = {}"

lemma empty_app_ok: "app_ok (empty_app pub)"
  by (simp add: app_ok_def registered_def new_acc_repo_def funded_def solvent_def total_def nets_to_zero_def
      new_ledger_def held_keys_def new_lock_table_def)

lemma open_account_app_ok:
  assumes "app_ok s" "objects s p = None" "0 \<le> funds a"
    and "\<forall>c. total c (objects s) + in_currency c (balance a) \<le> int64_max"
    and "open_account p a s = Returns s'"
  shows "app_ok s'"
proof -
  let ?h = "(objects s)(p \<mapsto> a)"
  have s': "s' = s\<lparr>objects := ?h, accounts := (accounts s)\<lparr>acc_store := (acc_store (accounts s))(account_id a \<mapsto> p)\<rparr>\<rparr>"
    using assms(5) by (auto simp: open_account_def mem_acc_save_def)
  have fin: "finite (dom (objects s))" using assms(1) by (simp add: app_ok_def funded_def)
  have "total c ?h = total c (objects s) + in_currency c (balance a)" for c
  proof -
    have "total c ?h = holding c (?h p) + (\<Sum>r \<in> dom (objects s). holding c (?h r))"
      unfolding total_def using fin assms(2) by (simp add: domIff)
    moreover have "(\<Sum>r \<in> dom (objects s). holding c (?h r)) = total c (objects s)"
      unfolding total_def using assms(2) by (intro sum.cong) auto
    ultimately show ?thesis by (simp add: in_currency_def)
  qed
  moreover have "registered ?h ((acc_store (accounts s))(account_id a \<mapsto> p))"
    using assms(1,2) by (auto simp: app_ok_def registered_def) (metis option.distinct(1))
  moreover have "solvent ?h" using assms(1,3) by (auto simp: app_ok_def funded_def solvent_def)
  ultimately show ?thesis using assms(1,4) fin by (simp add: s' app_ok_def funded_def)
qed

end
