(* ===== verification/App_Guarantees.thy ===== *)
theory App_Guarantees
  imports Wiring
begin

text \<open>
  The guarantees of \<open>Payment_History\<close> and \<open>Payment_Progress\<close> at the two wirings: well-formed in-memory
  applications stay well-formed, the demo chain and factory capture exactly the \<open>capturable\<close>
  requests, and a service over the file repository finds its transactions after a restart.
  \<open>restart_durable\<close> is a new process: the repository reads its file again, the in-memory key store,
  the locks and the id counters start from nothing. Accounts, ledger and events are carried over, as
  if they too were durable.
\<close>

section \<open>In memory\<close>

lemma app_ok_parts:
  assumes "app_ok s"
  shows "registered (objects s) (acc_store (accounts s))" "funded (objects s)" "nets_to_zero (entries (ledger s))"
    "held_keys (locks s) = {}"
  using assms by (simp_all add: app_ok_def)

lemma pays_app_ok:
  fixes s :: "'w App"
  assumes W: "ports W = inmemory_ports" and chain: "\<And>t. run (validation W) t \<noteq> Undefined" "\<And>t. run (validation W) t \<noteq> Blocks"
    and ok: "app_ok s" and match: "\<forall>(now, req) \<in> set rs. matched (objects s) (acc_store (accounts s)) req"
  shows "app_ok (snd (pays W rs s))" and "Undefined \<notin> set (fst (pays W rs s))" "Blocks \<notin> set (fst (pays W rs s))"
proof -
  note p = app_ok_parts [OF ok]
  note c = app.pays_conserve [OF W chain(1) p(1) TrueI p(2) match]
  show "app_ok (snd (pays W rs s))"
    using app.pays_registered [OF W p(1) TrueI, of rs] c app.pays_net_to_zero [OF W p(1) TrueI p(3), of rs]
      app.pays_frame [OF W p(1) TrueI, of rs] p(4)
    by (simp add: app_ok_def)
  show "Undefined \<notin> set (fst (pays W rs s))" using c by blast
  show "Blocks \<notin> set (fst (pays W rs s))" by (rule app.pays_never_block [OF W chain(2) p(1) TrueI p(4)])
qed

lemma new_factory_approves: "approves new_factory m"
  by (simp add: approves_def create_approving)

text \<open>When the demo wiring captures a payment.\<close>

definition capturable :: "Money \<Rightarrow> Money \<Rightarrow> PaymentRequest \<Rightarrow> (string \<rightharpoonup> addr) \<Rightarrow> heap \<Rightarrow> bool" where
  "capturable limit threshold req m h \<longleftrightarrow>
     payerAccountId req \<noteq> [] \<and> payeeAccountId req \<noteq> [] \<and> payerAccountId req \<noteq> payeeAccountId req \<and>
     currency (amount req) = currency limit \<and> currency (amount req) = currency threshold \<and>
     0 < units (amount req) \<and> units (amount req) \<le> units limit \<and> units (amount req) < units threshold \<and>
     named_method (req_method req) \<and> m (payeeAccountId req) \<noteq> None \<and>
     (\<exists>p a. m (payerAccountId req) = Some p \<and> h p = Some a \<and>
        account_currency a = currency (amount req) \<and> units (amount req) \<le> funds a)"

lemma capturable_spendable:
  assumes "capturable limit threshold req m h" "strategies W = new_factory" "validation W = standard_chain limit threshold"
  shows "spendable W req"
  using assms create_approving create_new_factory [of "req_method req"]
  by (auto simp: capturable_def spendable_def run_standard_accepts)

lemma capturable_accounts:
  assumes "capturable limit threshold req m h"
  obtains p a q where "m (payerAccountId req) = Some p" "h p = Some a" "m (payeeAccountId req) = Some q"
    "account_currency a = currency (amount req)" "0 \<le> units (amount req)" "units (amount req) \<le> funds a"
  using assms by (auto simp: capturable_def)

lemma succeeded_iff_capturable:
  fixes s :: "'w App"
  assumes "app_ok s" and "key_store (idempotency s) (idempotencyKey req) = None"
    and "pay (inmemory_wiring limit threshold) now req s = (res, s')"
  shows "succeeded res \<longleftrightarrow> capturable limit threshold req (acc_store (accounts s)) (objects s)"
proof
  note reg = app_ok_parts(1) [OF assms(1)]
  assume "succeeded res"
  show "capturable limit threshold req (acc_store (accounts s)) (objects s)"
  proof (rule app.pay_cases [OF inmemory_wiring_sel(1) reg assms(3)])
    fix p q
    assume adm: "admitted (inmemory_wiring limit threshold) req (new_txn now req s)"
      and ids: "payerAccountId req \<noteq> []" "payeeAccountId req \<noteq> []"
      and v: "acc_store (accounts s) (payerAccountId req) = Some p" "acc_store (accounts s) (payeeAccountId req) = Some q"
      and t: "transferred p q (amount req) (objects s) (objects s')"
    from t obtain st h1 where d: "debit_at p (amount req) (objects s) = Returns (st, h1)" "Status_isOk st"
      by (auto simp: transferred_def)
    obtain a where a: "objects s p = Some a" "account_currency a = currency (amount req)"
      "units (amount req) \<le> funds a" by (rule debit_at_effect [OF d])
    with adm ids v show ?thesis
      by (auto simp: capturable_def admitted_def run_standard_accepts create_new_factory)
  qed (use assms(2) \<open>succeeded res\<close> in \<open>auto simp: succeeded_def split: outcome.splits\<close>)
next
  assume c: "capturable limit threshold req (acc_store (accounts s)) (objects s)"
  then obtain p a q where v: "acc_store (accounts s) (payerAccountId req) = Some p" "objects s p = Some a"
      "acc_store (accounts s) (payeeAccountId req) = Some q"
      "account_currency a = currency (amount req)" "0 \<le> units (amount req)" "units (amount req) \<le> funds a"
    by (rule capturable_accounts)
  have "spendable (inmemory_wiring limit threshold :: 'w AppWiring) req"
    using c by (rule capturable_spendable) simp_all
  then obtain s1 where "pay (inmemory_wiring limit threshold) now req s =
      (Returns (Result_ok (setStatus CAPTURED (new_txn now req s))), s1)"
    using app.pay_captures [OF inmemory_wiring_sel(1) app_ok_parts(1,2) [OF assms(1)] assms(2) _ _ v(1,2,3,4,5,6)]
      app_ok_parts(4) [OF assms(1)] by blast
  then show "succeeded res" using assms(3) by simp
qed

lemma captured_call:
  fixes s :: "'w App"
  assumes ok: "app_ok s" and key: "key_store (idempotency s) (idempotencyKey req) = None"
    and cap: "capturable limit threshold req (acc_store (accounts s)) (objects s)" and pay: "pay (inmemory_wiring limit threshold) now req s = (res, s')"
  obtains p q where "res = Returns (Result_ok (setStatus CAPTURED (new_txn now req s)))"
    "acc_store (accounts s) (payerAccountId req) = Some p" "acc_store (accounts s) (payeeAccountId req) = Some q"
    "transferred p q (amount req) (objects s) (objects s')"
    "entries (ledger s') = entries (ledger s) @ payment_posting req (new_txn now req s) s"
proof -
  have "succeeded res" using succeeded_iff_capturable [OF ok key pay] cap by simp
  show ?thesis
    by (rule app.pay_cases [OF inmemory_wiring_sel(1) app_ok_parts(1) [OF ok] pay])
      (use \<open>succeeded res\<close> key that in \<open>auto simp: succeeded_def split: outcome.splits\<close>)
qed

text \<open>The limit handler compares amounts of two currencies, and the comparison throws.\<close>

lemma foreign_currency_call:
  fixes s :: "'w App"
  assumes "app_ok s" "key_store (idempotency s) (idempotencyKey req) = None"
    and "payerAccountId req \<noteq> []" "payeeAccountId req \<noteq> []" "payerAccountId req \<noteq> payeeAccountId req"
    and "0 < units (amount req)" "currency (amount req) \<noteq> currency limit"
    and "pay (inmemory_wiring limit threshold) now req s = (res, s')"
  shows "res = Throws (Invalid_argument (''Money currency mismatch: cannot mix '' @
      toCode (currency (amount req)) @ '' and '' @ toCode (currency limit)))"
proof -
  let ?W = "inmemory_wiring limit threshold :: 'w AppWiring" and ?txn = "new_txn now req s"
  have free: "lock_key req \<notin> held_keys (locks s)" using assms(1) by (simp add: app_ok_def)
  obtain g ks dl where pay: "pay ?W now req s =
      (case process_payment ?W req ?txn (s\<lparr>txnIds := g, idempotency := ks, locks := dl\<rparr>) of
         (res, s1) \<Rightarrow> (res, s1\<lparr>locks := locks_release (inmemory_ports :: 'w AppPorts) (lock_key req) (locks s1)\<rparr>))"
    by (rule app.pay_reaches_process [OF inmemory_wiring_sel(1) [of limit threshold] assms(2-4) free, where now = now])
  have "run (standard_chain limit threshold) ?txn = Throws (Invalid_argument (''Money currency mismatch: cannot mix '' @
      toCode (currency (amount req)) @ '' and '' @ toCode (currency limit)))"
    using assms(5-7) by (simp add: standard_chain_list check_Basic check_Limit_mixed)
  then show ?thesis using pay assms(8) by (simp add: process_payment_def)
qed

section \<open>The durable service\<close>

text \<open>A process restart with the file repository: the key store and the id counters start again.\<close>

type_synonym 'w DurableApp =
  "(InMemoryAccountRepository, FileTransactionRepository, InMemoryIdempotencyStore,
    InMemoryDistributedLock, InMemoryLedgerRepository, 'w InMemoryEventPublisher) Service"

definition restart_durable :: "int64 \<Rightarrow> 'w DurableApp \<Rightarrow> 'w DurableApp outcome" where
  "restart_durable now s =
     obind (reopen now (transactions s)) (\<lambda>tr.
       Returns (new_service (accounts s) (objects s) tr new_key_store new_lock_table (ledger s) (events s)))"

definition durable_wiring ::
    "(Index \<Rightarrow> Index) \<Rightarrow> Money \<Rightarrow> Money \<Rightarrow> (InMemoryAccountRepository, FileTransactionRepository,
      InMemoryIdempotencyStore, InMemoryDistributedLock, InMemoryLedgerRepository, 'w InMemoryEventPublisher) Wiring" where
  "durable_wiring iter limit threshold =
     \<lparr>ports = durable_ports iter, strategies = new_factory, validation = standard_chain limit threshold\<rparr>"

definition durable_boot :: "InMemoryAccountRepository \<Rightarrow> heap \<Rightarrow> unit DurableApp" where
  "durable_boot ar h = new_service ar h \<lparr>index = [], disk = None, writable = True\<rparr>
     new_key_store new_lock_table new_ledger (new_publisher ())"

lemma durable_wiring_sel [simp]:
  "ports (durable_wiring iter l t) = durable_ports iter" "strategies (durable_wiring iter l t) = new_factory"
  "validation (durable_wiring iter l t) = standard_chain l t"
  by (simp_all add: durable_wiring_def)

lemma new_service_sel [simp]:
  "accounts (new_service ar h tr ids dl lr ev) = ar" "objects (new_service ar h tr ids dl lr ev) = h"
  "transactions (new_service ar h tr ids dl lr ev) = tr" "idempotency (new_service ar h tr ids dl lr ev) = ids"
  "locks (new_service ar h tr ids dl lr ev) = dl" "ledger (new_service ar h tr ids dl lr ev) = lr"
  "events (new_service ar h tr ids dl lr ev) = ev" "txnIds (new_service ar h tr ids dl lr ev) = mkIdGenerator ''txn'' 1"
  by (simp_all add: new_service_def)

lemma new_stores_sel [simp]: "key_store new_key_store = Map.empty" "held_keys new_lock_table = {}"
  by (simp_all add: new_key_store_def held_keys_def new_lock_table_def)

text \<open>A capturable request on a durable service: captured, and on the disk.\<close>

lemma durable_capture:
  assumes iter: "\<And>idx. mset (iter idx) = mset idx"
    and reg: "registered (objects s) (acc_store (accounts s))" and fund: "funded (objects s)"
    and key: "key_store (idempotency s) (idempotencyKey req) = None" and free: "held_keys (locks s) = {}"
    and tr: "file_inv (transactions s)" "file_durable (transactions s)" "storable (new_txn now req s)"
    and cap: "capturable limit threshold req (acc_store (accounts s)) (objects s)"
  obtains p q s1 r where "pay (durable_wiring iter limit threshold) now req s =
      (Returns (Result_ok (setStatus CAPTURED (new_txn now req s))), s1)"
    and "acc_store (accounts s) (payerAccountId req) = Some p" "acc_store (accounts s) (payeeAccountId req) = Some q"
    and "transferred p q (amount req) (objects s) (objects s1)" "accounts s1 = accounts s"
    and "reopen now2 (transactions s1) = Returns r" "file_inv r" "file_durable r"
    and "file_find (txn_id (new_txn now req s)) r = Some (setStatus CAPTURED (new_txn now req s))"
proof -
  let ?W = "durable_wiring iter limit threshold" and ?t = "setStatus CAPTURED (new_txn now req s)"
  note W = durable_wiring_sel(1) [of iter limit threshold]
  obtain p a q where v: "acc_store (accounts s) (payerAccountId req) = Some p" "objects s p = Some a"
      "acc_store (accounts s) (payeeAccountId req) = Some q"
      "account_currency a = currency (amount req)" "0 \<le> units (amount req)" "units (amount req) \<le> funds a"
    by (rule capturable_accounts [OF cap])
  have sp: "spendable ?W req" by (rule capturable_spendable [OF cap]) simp_all
  have lock: "lock_key req \<notin> held_keys (locks s)" using free by simp
  obtain s1 where s1: "pay ?W now req s = (Returns (Result_ok ?t), s1)"
    and t: "transferred p q (amount req) (objects s) (objects s1)"
    by (rule durable_app.pay_captures [OF W reg fund key lock sp v])
  have rec: "accounts s1 = accounts s" "transactions s1 = file_save iter ?t (transactions s)"
    using durable_app.pay_recorded(1) [OF W reg key s1] by (simp_all add: recorded_def durable_ports_def)
  have st: "storable ?t" using tr(3) by (simp add: storable_def)
  obtain r where r: "reopen now2 (transactions s1) = Returns r" "file_inv r" "file_durable r"
    "file_view r = file_view (file_save iter ?t (transactions s))"
    using file_restart_after_save [of iter "transactions s" ?t now2, OF iter tr(1,2) st] rec(2) by metis
  then have "file_find (txn_id (new_txn now req s)) r = Some ?t"
    by (simp add: file_find_def file_view_def)
  with s1 v t rec(1) r show ?thesis using that by blast
qed

text \<open>A call that ends in an exception has already claimed its key: a retry is answered as a duplicate.\<close>

lemma thrown_request_is_wedged:
  fixes s :: "'w App"
  assumes "ports W = inmemory_ports" "registered (objects s) (acc_store (accounts s))"
    and "key_store (idempotency s) (idempotencyKey req) = None"
    and "txn_store (transactions s) (txn_id (new_txn now req s)) = None"
    and "pay W now req s = (Throws e, s1)" "pay W now2 req s1 = (res, s2)"
  shows "res = Returns (Result_fail DUPLICATE_REQUEST (''duplicate request for idempotency key: '' @ idempotencyKey req))"
proof -
  have books: "same_books s s1"
    by (rule app.pay_cases [OF assms(1,2,5)]) (use assms(3) in auto)
  have k: "key_store (idempotency s1) (idempotencyKey req) = Some (txn_id (new_txn now req s))"
    using app.pay_keys [OF assms(1,2), of now req] assms(3,5) by simp
  from app.pay_claimed(1) [OF assms(1) k, of now2] assms(4,6) books
  show ?thesis by (simp add: same_books_def inmemory_ports_def mem_txn_find_def)
qed

end
