(* ===== verification/Floating.thy ===== *)
theory Floating
  imports Money
begin

text \<open>
  \<open>Money::fromMajor\<close>, the one place where the code computes with \<open>double\<close>. A finite double is a pair
  of significand and exponent, \<open>(m, e)\<close> for \<open>m * 2 ^ e\<close>; an operation computes the exact result and
  rounds it to 53 bits, to nearest and ties to even. Infinities, NaN and the limits of the exponent
  are outside this representation. The cast to \<open>int64_t\<close> truncates and is undefined out of range.
\<close>

type_synonym double = "int \<times> int"

fun bit_count :: "nat \<Rightarrow> nat" where
  "bit_count n = (if n = 0 then 0 else Suc (bit_count (n div 2)))"

declare bit_count.simps [simp del]

definition round_div :: "int \<Rightarrow> nat \<Rightarrow> int" where
  "round_div n k =
     (if k = 0 then n
      else let q = n div 2 ^ k; r = n mod 2 ^ k; half = 2 ^ (k - 1)
           in if r < half \<or> (r = half \<and> even q) then q else q + 1)"

definition round53 :: "double \<Rightarrow> double" where
  "round53 x = (let (m, e) = x; k = bit_count (nat \<bar>m\<bar>) - 53 in (round_div m k, e + int k))"

definition double_mul :: "double \<Rightarrow> double \<Rightarrow> double" where
  "double_mul x y = round53 (fst x * fst y, snd x + snd y)"

definition double_add :: "double \<Rightarrow> double \<Rightarrow> double" where
  "double_add x y =
     (let e = min (snd x) (snd y)
      in round53 (fst x * 2 ^ nat (snd x - e) + fst y * 2 ^ nat (snd y - e), e))"

definition double_trunc :: "double \<Rightarrow> int" where
  "double_trunc x = (if 0 \<le> snd x then fst x * 2 ^ nat (snd x) else fst x sdiv 2 ^ nat (- snd x))"

definition fromMajor :: "double \<Rightarrow> Currency \<Rightarrow> Money outcome" where
  "fromMajor majorUnits ccy =
     (let half = (if 0 \<le> fst majorUnits then (1, - 1) else (- 1, - 1));
          minor = double_trunc (double_add (double_mul majorUnits (100, 0)) half)
      in obind (checked64 minor) (\<lambda>minor. Returns (fromMinor minor ccy)))"

section \<open>Whole amounts are converted exactly\<close>

lemma bit_count_less: "n < 2 ^ k \<Longrightarrow> bit_count n \<le> k"
proof (induction k arbitrary: n)
  case 0
  then show ?case by (simp add: bit_count.simps)
next
  case (Suc k)
  then have "n div 2 < 2 ^ k" by simp
  with Suc.IH show ?case by (subst bit_count.simps) auto
qed

lemma bit_count_eq: "2 ^ k \<le> n \<Longrightarrow> n < 2 ^ Suc k \<Longrightarrow> bit_count n = Suc k"
proof (induction k arbitrary: n)
  case 0
  then have "n = 1" by simp
  then show ?case by (simp add: bit_count.simps)
next
  case (Suc k)
  then have "2 ^ k \<le> n div 2" "n div 2 < 2 ^ Suc k" "n \<noteq> 0" by auto
  with Suc.IH show ?case by (subst bit_count.simps) simp
qed

lemma round53_exact: "\<bar>m\<bar> < 2 ^ 53 \<Longrightarrow> round53 (m, e) = (m, e)"
proof -
  assume "\<bar>m\<bar> < 2 ^ 53"
  then have "nat \<bar>m\<bar> < 2 ^ 53" by (simp add: nat_less_iff)
  then have "bit_count (nat \<bar>m\<bar>) \<le> 53" by (rule bit_count_less)
  then show ?thesis by (simp add: round53_def round_div_def)
qed

lemma sdiv_half: "0 \<le> n \<Longrightarrow> (200 * n + 1) sdiv 2 = 100 * (n :: int)"
  "n < 0 \<Longrightarrow> (200 * n - 1) sdiv 2 = 100 * (n :: int)"
proof -
  show "(200 * n + 1) sdiv 2 = 100 * n" if "0 \<le> n"
    using that by (simp add: signed_divide_int_def sgn_if)
  show "(200 * n - 1) sdiv 2 = 100 * n" if "n < 0"
  proof -
    have "\<bar>200 * n - 1\<bar> div 2 = - (100 * n)" using that by simp
    then show ?thesis using that by (simp add: signed_divide_int_def sgn_if)
  qed
qed

lemma fromMajor_whole:
  assumes "\<bar>n\<bar> < 2 ^ 45"
  obtains m where "fromMajor (n, 0) c = Returns m" "units m = 100 * n" "currency m = c"
proof -
  have mul: "double_mul (n, 0) (100, 0) = (n * 100, 0)"
    using assms by (simp add: double_mul_def round53_exact abs_mult)
  let ?half = "if 0 \<le> n then 1 else - 1 :: int"
  have "\<bar>200 * n + ?half\<bar> < 2 ^ 53" using assms by (auto split: if_splits)
  then have add: "double_add (n * 100, 0) (?half, - 1) = (200 * n + ?half, - 1)"
    by (simp add: double_add_def round53_exact algebra_simps)
  have tr: "double_trunc (200 * n + ?half, - 1) = 100 * n"
    using sdiv_half [of n] by (simp add: double_trunc_def)
  have "in_int64 (100 * n)" using assms by (auto simp: in_int64_def)
  then obtain w where w: "checked64 (100 * n) = Returns w" "sint w = 100 * n"
    using checked64_in_range by blast
  have "(if 0 \<le> n then (1 :: int, - 1 :: int) else (- 1, - 1)) = (?half, - 1)" by simp
  then have "fromMajor (n, 0) c = Returns (fromMinor w c)"
    unfolding fromMajor_def Let_def fst_conv mul by (simp only: add tr w obind.simps)
  with w that show ?thesis by simp
qed

end
