(* ===== verification/Main_Demo.thy ===== *)
theory Main_Demo
  imports App_Guarantees Floating
begin

text \<open>
  \<open>src/main.cpp\<close>: the composition root, the seeded accounts, and the requests of its scenarios. The
  event subscriber is a parameter, the printing is in \<open>Main_Console\<close>. Scenario 5 submits its fifty requests
  to a thread pool, see \<open>Main_Threads\<close>; here they run one after the other, in an order that is left open.
\<close>

definition main_wiring :: "'w AppWiring outcome" where
  "main_wiring =
     obind (fromMajor (100000, 0) INR) (\<lambda>limit.
     obind (fromMajor (50000, 0) INR) (\<lambda>threshold.
       Returns (inmemory_wiring limit threshold)))"

definition main_seed :: "'w Subscriber \<Rightarrow> 'w \<Rightarrow> 'w App outcome" where
  "main_seed printer w =
     obind (fromMajor (2000, 0) INR) (\<lambda>opening.
     obind (open_account 0 (mkAccount ''acc_user_42'' USER_WALLET opening)
              (empty_app (subscribe printer (new_publisher w))))
       (open_account 1 (mkAccount ''acc_merchant_7'' MERCHANT (Money_zero INR))))"

definition main_request :: "string \<Rightarrow> int \<Rightarrow> PaymentMethod \<Rightarrow> PaymentRequest outcome" where
  "main_request key majorUnits m =
     obind (fromMajor (majorUnits, 0) INR) (\<lambda>amt.
       Returns \<lparr>idempotencyKey = key, payerAccountId = ''acc_user_42'', payeeAccountId = ''acc_merchant_7'',
         amount = amt, req_method = m\<rparr>)"

text \<open>Scenarios 1 to 4: a payment, its retry, an amount beyond every limit, an amount held for review.\<close>

definition main_scenarios :: "(PaymentRequest list) outcome" where
  "main_scenarios =
     obind (main_request ''idem-key-001'' 500 UPI) (\<lambda>req.
     obind (main_request ''idem-key-001'' 500 UPI) (\<lambda>retry.
     obind (main_request ''idem-key-002'' 999999 CARD_method) (\<lambda>big.
     obind (main_request ''idem-key-003'' 60000 CARD_method) (\<lambda>fraud.
       Returns [req, retry, big, fraud]))))"

definition main_run ::
    "'w Subscriber \<Rightarrow> 'w \<Rightarrow> int64 \<Rightarrow> (Transaction Result outcome list \<times> 'w App) outcome" where
  "main_run printer w now =
     obind main_wiring (\<lambda>W. obind (main_seed printer w) (\<lambda>s. obind main_scenarios (\<lambda>rs.
       Returns (pays W (map (Pair now) rs) s))))"

text \<open>Scenario 5.\<close>

definition open_wallet :: "'w App \<Rightarrow> 'w App outcome" where
  "open_wallet s = obind (fromMajor (1200, 0) INR) (\<lambda>opening.
     open_account 2 (mkAccount ''acc_stress'' USER_WALLET opening) s)"

definition stress_request :: "Money \<Rightarrow> nat \<Rightarrow> PaymentRequest" where
  "stress_request amt i =
     \<lparr>idempotencyKey = ''stress-'' @ show_nat i, payerAccountId = ''acc_stress'',
      payeeAccountId = ''acc_merchant_7'', amount = amt, req_method = WALLET\<rparr>"

definition stress_requests :: "PaymentRequest list outcome" where
  "stress_requests = obind (fromMajor (100, 0) INR) (\<lambda>amt. Returns (map (stress_request amt) [0..<50]))"

section \<open>Evaluating it\<close>

lemma fromMajor_small:
  assumes "\<bar>n\<bar> < 2 ^ 45"
  shows "fromMajor (n, 0) c = Returns (fromMinor (word_of_int (100 * n)) c)"
proof -
  obtain m where m: "fromMajor (n, 0) c = Returns m" "units m = 100 * n" "currency m = c"
    using assms by (rule fromMajor_whole)
  have fits: "in_int64 (100 * n)" using assms by (auto simp: in_int64_def)
  have "units (fromMinor (word_of_int (100 * n)) c) = 100 * n"
    unfolding fromMinor_sel by (rule sint_word_of_int64 [OF fits])
  with m have "m = fromMinor (word_of_int (100 * n)) c" by (intro Money_eqI) (simp_all only: fromMinor_sel)
  with m show ?thesis by simp
qed

lemma main_amounts:
  "fromMajor (100000, 0) INR = Returns (fromMinor 10000000 INR)"
  "fromMajor (50000, 0) INR = Returns (fromMinor 5000000 INR)"
  "fromMajor (2000, 0) INR = Returns (fromMinor 200000 INR)"
  "fromMajor (1200, 0) INR = Returns (fromMinor 120000 INR)"
  "fromMajor (500, 0) INR = Returns (fromMinor 50000 INR)"
  "fromMajor (100, 0) INR = Returns (fromMinor 10000 INR)"
  "fromMajor (999999, 0) INR = Returns (fromMinor 99999900 INR)"
  "fromMajor (60000, 0) INR = Returns (fromMinor 6000000 INR)"
  by (simp_all add: fromMajor_small)

abbreviation main_chain_wiring :: "'w AppWiring" where
  "main_chain_wiring \<equiv> inmemory_wiring (fromMinor 10000000 INR) (fromMinor 5000000 INR)"

lemma main_wiring_eq: "main_wiring = Returns main_chain_wiring"
  by (simp add: main_wiring_def main_amounts)

definition seeded :: "'w Subscriber \<Rightarrow> 'w \<Rightarrow> 'w App" where
  "seeded printer w = (empty_app (subscribe printer (new_publisher w)))
     \<lparr>objects := [0 \<mapsto> mkAccount ''acc_user_42'' USER_WALLET (fromMinor 200000 INR),
                 1 \<mapsto> mkAccount ''acc_merchant_7'' MERCHANT (Money_zero INR)],
      accounts := \<lparr>acc_store = [''acc_user_42'' \<mapsto> 0, ''acc_merchant_7'' \<mapsto> 1]\<rparr>\<rparr>"

definition main_pay :: "string \<Rightarrow> int64 \<Rightarrow> PaymentMethod \<Rightarrow> PaymentRequest" where
  "main_pay key minor m = \<lparr>idempotencyKey = key, payerAccountId = ''acc_user_42'',
     payeeAccountId = ''acc_merchant_7'', amount = fromMinor minor INR, req_method = m\<rparr>"

lemma main_seed_eq: "main_seed printer w = Returns (seeded printer w)"
  by (simp add: main_seed_def main_amounts open_account_def mem_acc_save_def new_acc_repo_def seeded_def)

lemma main_scenarios_eq:
  "main_scenarios = Returns
     [main_pay ''idem-key-001'' 50000 UPI, main_pay ''idem-key-001'' 50000 UPI,
      main_pay ''idem-key-002'' 99999900 CARD_method, main_pay ''idem-key-003'' 6000000 CARD_method]"
  by (simp add: main_scenarios_def main_request_def main_amounts main_pay_def)

lemma main_run_eq:
  "main_run printer w now =
     Returns (pays main_chain_wiring
       (map (Pair now)
         [main_pay ''idem-key-001'' 50000 UPI, main_pay ''idem-key-001'' 50000 UPI,
          main_pay ''idem-key-002'' 99999900 CARD_method, main_pay ''idem-key-003'' 6000000 CARD_method])
       (seeded printer w))"
  unfolding main_run_def main_wiring_eq main_seed_eq main_scenarios_eq obind.simps ..

text \<open>What a caller sees of an answer.\<close>

definition verdict :: "Transaction Result outcome \<Rightarrow> (string \<times> TxnStatus) option + ErrorCode" where
  "verdict res = (case res of
       Returns (Result_ok t) \<Rightarrow> Inl (Some (txn_id t, txn_status t))
     | Returns (Result_err e) \<Rightarrow> Inr (error_code e)
     | _ \<Rightarrow> Inl None)"

lemma total_seeded: "total c (objects (seeded printer w)) = (if c = INR then 200000 else 0)"
  by (simp add: seeded_def total_def Money_zero_def)

lemma seeded_sel [simp]:
  "objects (seeded printer w) 0 = Some (mkAccount ''acc_user_42'' USER_WALLET (fromMinor 200000 INR))"
  "objects (seeded printer w) (Suc 0) = Some (mkAccount ''acc_merchant_7'' MERCHANT (Money_zero INR))"
  "acc_store (accounts (seeded printer w)) = [''acc_user_42'' \<mapsto> 0, ''acc_merchant_7'' \<mapsto> 1]"
  "key_store (idempotency (seeded printer w)) = Map.empty" "held_keys (locks (seeded printer w)) = {}"
  "entries (ledger (seeded printer w)) = []"
  by (simp_all add: seeded_def new_key_store_def new_lock_table_def held_keys_def new_ledger_def)

lemma seeded_ok: "app_ok (seeded printer w)"
proof -
  have "finite (dom (objects (seeded printer w)))" by (simp add: seeded_def)
  moreover have "solvent (objects (seeded printer w))" by (auto simp: seeded_def solvent_def split: if_splits)
  ultimately show ?thesis
    by (auto simp: app_ok_def funded_def total_seeded nets_to_zero_def registered_def)
qed

lemma lock_free: "held_keys l = {} \<Longrightarrow> k \<notin> held_keys l" by simp

lemma main_accepts:
  "txn_amount txn = fromMinor 50000 INR \<Longrightarrow> txn_payer txn = ''acc_user_42'' \<Longrightarrow> txn_payee txn = ''acc_merchant_7'' \<Longrightarrow>
   run (standard_chain (fromMinor 10000000 INR) (fromMinor 5000000 INR)) txn = Returns Status_ok"
  by (simp add: run_standard_accepts)

lemma main_rejects:
  "txn_amount txn = fromMinor 99999900 INR \<Longrightarrow> txn_payer txn = ''acc_user_42'' \<Longrightarrow> txn_payee txn = ''acc_merchant_7'' \<Longrightarrow>
   run (standard_chain (fromMinor 10000000 INR) (fromMinor 5000000 INR)) txn =
     Returns (Status_fail VALIDATION_FAILED (''amount '' @ Money_toString (fromMinor 99999900 INR) @
       '' exceeds per-txn limit '' @ Money_toString (fromMinor 10000000 INR)))"
  "txn_amount txn = fromMinor 6000000 INR \<Longrightarrow> txn_payer txn = ''acc_user_42'' \<Longrightarrow> txn_payee txn = ''acc_merchant_7'' \<Longrightarrow>
   run (standard_chain (fromMinor 10000000 INR) (fromMinor 5000000 INR)) txn =
     Returns (Status_fail FRAUD_REJECTED (''amount '' @ Money_toString (fromMinor 6000000 INR) @ '' held for fraud review''))"
  by (simp_all add: standard_chain_list check_Basic check_Limit_same check_Fraud_same)

text \<open>The invariants that survive from one scenario to the next.\<close>

definition between :: "'w App \<Rightarrow> string set \<Rightarrow> bool" where
  "between s ks \<longleftrightarrow> registered (objects s) (acc_store (accounts s)) \<and> held_keys (locks s) = {} \<and>
     acc_store (accounts s) = [''acc_user_42'' \<mapsto> 0, ''acc_merchant_7'' \<mapsto> 1] \<and>
     dom (key_store (idempotency s)) = ks"

lemma main_rejected:
  fixes s :: "'w App"
  assumes b: "between s ks" and key: "key \<notin> ks" and amt: "a = 99999900 \<and> c = VALIDATION_FAILED \<or> a = 6000000 \<and> c = FRAUD_REJECTED"
  obtains s' m' where "pay (main_chain_wiring :: 'w AppWiring) now (main_pay key a CARD_method) s = (Returns (Result_fail c m'), s')"
    and "objects s' = objects s" "ledger s' = ledger s"
proof -
  let ?W = "main_chain_wiring :: 'w AppWiring" and ?r = "main_pay key a CARD_method"
  have pre: "key_store (idempotency s) (idempotencyKey ?r) = None" "lock_key ?r \<notin> held_keys (locks s)"
    "payerAccountId ?r \<noteq> []" "payeeAccountId ?r \<noteq> []"
    using b key by (auto simp: between_def main_pay_def)
  obtain v where v: "run (validation ?W) (new_txn now ?r s) = Returns v" "Status_isErr v" "error_code (err v) = c"
    using amt by (auto simp: main_rejects main_pay_def)
  show thesis
    by (rule app.pay_rejected [OF inmemory_wiring_sel(1) pre v(1,2)]) (use v(3) that in blast)
qed

lemma between_pay:
  assumes "between s ks"
  shows "between (snd (pay (main_chain_wiring :: 'w AppWiring) now req s)) (insert (idempotencyKey req) ks)"
proof -
  have reg: "registered (objects s) (acc_store (accounts s))" using assms unfolding between_def by blast
  note k = app.pay_keeps(1) [OF inmemory_wiring_sel(1) reg TrueI] app.pay_registered [OF inmemory_wiring_sel(1) reg TrueI]
    app.pay_keys [OF inmemory_wiring_sel(1) reg] app.pay_locks [OF inmemory_wiring_sel(1) reg]
  have a: "acc_store (accounts s) = [''acc_user_42'' \<mapsto> 0, ''acc_merchant_7'' \<mapsto> 1]" "held_keys (locks s) = {}"
    "dom (key_store (idempotency s)) = ks" using assms unfolding between_def by blast+
  show ?thesis unfolding between_def by (intro conjI k) (auto simp: k(1,3,4) a(1,2) a(3) [symmetric])
qed

lemma transferred_main:
  assumes "transferred 0 1 (fromMinor 50000 INR)
      [0 \<mapsto> mkAccount ''acc_user_42'' USER_WALLET (fromMinor 200000 INR),
       1 \<mapsto> mkAccount ''acc_merchant_7'' MERCHANT (Money_zero INR)] h2"
  shows "h2 0 = Some (mkAccount ''acc_user_42'' USER_WALLET (fromMinor 150000 INR))"
    and "h2 1 = Some (mkAccount ''acc_merchant_7'' MERCHANT (fromMinor 50000 INR))"
  using assms
  by (auto simp: transferred_def debit_at_def credit_at_def debit_def credit_def isNegative_def Money_compare_same
      Money_minus_def Money_plus_def add64_def sub64_def checked64_def in_int64_def mkAccount_def Money_zero_def)

text \<open>The first payment goes through; the same request again is answered with the same transaction.\<close>

lemma main_first_payment:
  fixes printer :: "'w Subscriber"
  defines "r1 \<equiv> main_pay ''idem-key-001'' 50000 UPI"
  obtains s1 where "pay main_chain_wiring now r1 (seeded printer w) =
      (Returns (Result_ok (setStatus CAPTURED (new_txn now r1 (seeded printer w)))), s1)"
    and "objects s1 0 = Some (mkAccount ''acc_user_42'' USER_WALLET (fromMinor 150000 INR))"
    and "objects s1 1 = Some (mkAccount ''acc_merchant_7'' MERCHANT (fromMinor 50000 INR))"
    and "between s1 {''idem-key-001''}"
    and "credits_of ''acc_merchant_7'' (entries (ledger s1)) = [(CREDIT, fromMinor 50000 INR)]"
proof -
  let ?W = "main_chain_wiring :: 'w AppWiring" and ?s0 = "seeded printer w"
  have ok: "registered (objects ?s0) (acc_store (accounts ?s0))" "funded (objects ?s0)"
    using seeded_ok [of printer w] by (simp_all add: app_ok_def)
  have sp: "spendable ?W r1"
    by (simp add: r1_def spendable_def main_pay_def main_accepts create_def new_factory_def approving_def strategy_defs)
  obtain s1 where s1: "pay ?W now r1 ?s0 = (Returns (Result_ok (setStatus CAPTURED (new_txn now r1 ?s0))), s1)"
    and t: "transferred 0 1 (amount r1) (objects ?s0) (objects s1)"
    by (rule app.pay_captures [OF inmemory_wiring_sel(1) ok _ _ sp, where now = now and p = 0 and q = 1
        and a = "mkAccount ''acc_user_42'' USER_WALLET (fromMinor 200000 INR)"]) (simp_all add: r1_def main_pay_def)
  have "credits_of ''acc_merchant_7'' (entries (ledger s1)) = [(CREDIT, fromMinor 50000 INR)]"
    by (rule app.pay_cases [OF inmemory_wiring_sel(1) ok(1) s1])
      (auto simp: r1_def main_pay_def credits_of_def payment_posting_def mkPosting_def new_factory_approves)
  moreover have "between ?s0 {}" using ok(1) by (simp add: between_def)
  from between_pay [OF this, of now r1] s1 have "between s1 {''idem-key-001''}" by (simp add: r1_def main_pay_def)
  ultimately show thesis
    using s1 transferred_main [of "objects s1"] t by (intro that [of s1]) (simp_all add: r1_def main_pay_def seeded_def)
qed

lemma main_second_payment:
  fixes printer :: "'w Subscriber"
  defines "r1 \<equiv> main_pay ''idem-key-001'' 50000 UPI"
  assumes s1: "pay main_chain_wiring now r1 (seeded printer w) =
      (Returns (Result_ok (setStatus CAPTURED (new_txn now r1 (seeded printer w)))), s1)"
    and b1: "between s1 {''idem-key-001''}"
  obtains s2 where "pay main_chain_wiring now r1 s1 =
      (Returns (Result_ok (setStatus CAPTURED (new_txn now r1 (seeded printer w)))), s2)"
    and "objects s2 = objects s1" "ledger s2 = ledger s1" and "between s2 {''idem-key-001''}"
proof -
  let ?W = "main_chain_wiring :: 'w AppWiring" and ?s0 = "seeded printer w"
  have reg: "registered (objects ?s0) (acc_store (accounts ?s0))"
    using seeded_ok [of printer w] by (simp add: app_ok_def)
  have fresh: "key_store (idempotency ?s0) (idempotencyKey r1) = None" by simp
  have len: "length [] < (2 :: nat) ^ 64" by simp
  note r = app.retry_replays [OF inmemory_wiring_sel(1) reg TrueI fresh s1 len refl, where ?now2.0 = now]
  have "fst (pay ?W now r1 s1) = Returns (Result_ok (setStatus CAPTURED (new_txn now r1 ?s0)))"
    "objects (snd (pay ?W now r1 s1)) = objects s1" "ledger (snd (pay ?W now r1 s1)) = ledger s1"
    using r by (simp_all add: same_books_def)
  moreover have "between (snd (pay ?W now r1 s1)) {''idem-key-001''}"
    using between_pay [OF b1, of now r1] by (simp add: r1_def main_pay_def)
  ultimately show thesis by (metis that prod.collapse)
qed

lemma main_scenarios_run:
  fixes printer :: "'w Subscriber"
  obtains out s' where "main_run printer w now = Returns (out, s')"
    and "map verdict out = [Inl (Some (''txn_1'', CAPTURED)), Inl (Some (''txn_1'', CAPTURED)),
      Inr VALIDATION_FAILED, Inr FRAUD_REJECTED]"
    and "objects s' 0 = Some (mkAccount ''acc_user_42'' USER_WALLET (fromMinor 150000 INR))"
    and "objects s' 1 = Some (mkAccount ''acc_merchant_7'' MERCHANT (fromMinor 50000 INR))"
    and "between s' {''idem-key-001'', ''idem-key-002'', ''idem-key-003''}"
    and "credits_of ''acc_merchant_7'' (entries (ledger s')) = [(CREDIT, fromMinor 50000 INR)]"
proof -
  let ?W = "main_chain_wiring :: 'w AppWiring" and ?s0 = "seeded printer w"
  let ?r1 = "main_pay ''idem-key-001'' 50000 UPI" and ?r3 = "main_pay ''idem-key-002'' 99999900 CARD_method"
    and ?r4 = "main_pay ''idem-key-003'' 6000000 CARD_method"
  let ?once = "Returns (Result_ok (setStatus CAPTURED (new_txn now ?r1 ?s0)))"
  obtain s1 where s1: "pay ?W now ?r1 ?s0 = (?once, s1)"
    and w: "objects s1 0 = Some (mkAccount ''acc_user_42'' USER_WALLET (fromMinor 150000 INR))"
      "objects s1 1 = Some (mkAccount ''acc_merchant_7'' MERCHANT (fromMinor 50000 INR))"
    and b1: "between s1 {''idem-key-001''}"
    and l1: "credits_of ''acc_merchant_7'' (entries (ledger s1)) = [(CREDIT, fromMinor 50000 INR)]"
    by (rule main_first_payment [where 'w = 'w])
  obtain s2 where s2: "pay ?W now ?r1 s1 = (?once, s2)" "objects s2 = objects s1" "ledger s2 = ledger s1"
    and b2: "between s2 {''idem-key-001''}"
    by (rule main_second_payment [OF s1 b1])
  obtain s3 m3 where s3: "pay ?W now ?r3 s2 = (Returns (Result_fail VALIDATION_FAILED m3), s3)" "objects s3 = objects s2" "ledger s3 = ledger s2"
    by (rule main_rejected [OF b2, of "''idem-key-002''" 99999900 VALIDATION_FAILED now]) simp_all
  have b3: "between s3 {''idem-key-001'', ''idem-key-002''}"
    using between_pay [OF b2, of now ?r3] s3 by (simp add: main_pay_def insert_commute)
  obtain s4 m4 where s4: "pay ?W now ?r4 s3 = (Returns (Result_fail FRAUD_REJECTED m4), s4)" "objects s4 = objects s3" "ledger s4 = ledger s3"
    by (rule main_rejected [OF b3, of "''idem-key-003''" 6000000 FRAUD_REJECTED now]) simp_all
  have b4: "between s4 {''idem-key-001'', ''idem-key-002'', ''idem-key-003''}"
    using between_pay [OF b3, of now ?r4] s4 by (simp add: main_pay_def insert_commute)
  let ?out = "[?once, ?once, Returns (Result_fail VALIDATION_FAILED m3), Returns (Result_fail FRAUD_REJECTED m4)]"
  have run: "main_run printer w now = Returns (?out, s4)"
    by (simp add: main_run_eq s1 s2(1) s3(1) s4(1))
  have id: "txn_id (new_txn now ?r1 ?s0) = ''txn_1''"
    by (simp add: seeded_def id_text_def show_nat_small decimal_digits_def)
  show ?thesis
  proof (rule that [OF run])
    show "map verdict ?out = [Inl (Some (''txn_1'', CAPTURED)), Inl (Some (''txn_1'', CAPTURED)),
        Inr VALIDATION_FAILED, Inr FRAUD_REJECTED]"
      by (simp only: list.map verdict_def outcome.case Result.case Result_fail_def mkError_sel setStatus_sel id)
  qed (use w s2(2,3) s3(2,3) s4(2,3) l1 b4 in simp_all)
qed

section \<open>Scenario 5\<close>

text \<open>Where scenario 5 can start: its wallet and its keys are new, the merchant is registered in INR.\<close>

definition stress_ready :: "'w App \<Rightarrow> bool" where
  "stress_ready s \<longleftrightarrow> app_ok s \<and> objects s 2 = None \<and> total INR (objects s) \<le> int64_max - 120000 \<and>
     (\<exists>q b. acc_store (accounts s) ''acc_merchant_7'' = Some q \<and> objects s q = Some b \<and> account_currency b = INR) \<and>
     (\<forall>i. key_store (idempotency s) (''stress-'' @ show_nat i) = None)"

lemma stress_requests_eq: "stress_requests = Returns (map (stress_request (fromMinor 10000 INR)) [0..<50])"
  by (simp add: stress_requests_def main_amounts)

lemma stress_spendable: "spendable main_chain_wiring (stress_request (fromMinor 10000 INR) i)"
  by (simp add: spendable_def stress_request_def run_standard_accepts create_def new_factory_def approving_def strategy_defs)

lemma stress_spending:
  assumes "mset (map snd rs) = mset (map (stress_request (fromMinor 10000 INR)) [0..<50])"
    and "\<forall>i. claimed (''stress-'' @ show_nat i) = None"
  shows "spending main_chain_wiring ''acc_stress'' ''acc_merchant_7'' (fromMinor 10000 INR) claimed rs"
proof -
  have "distinct (map idempotencyKey (map (stress_request (fromMinor 10000 INR)) [0..<50]))"
    by (simp add: distinct_map inj_on_def stress_request_def del: upt_conv_Cons upt_rec_numeral)
  then have "distinct (map idempotencyKey (map snd rs))"
    using assms(1) by (metis mset_map mset_eq_imp_distinct_iff)
  moreover have "\<exists>i. snd r = stress_request (fromMinor 10000 INR) i" if "r \<in> set rs" for r
    using that mset_eq_setD [OF assms(1)] by (auto simp del: upt_rec_numeral dest!: equalityD1 [THEN subsetD])
  ultimately have fields: "distinct (map (\<lambda>r. idempotencyKey (snd r)) rs)"
    "r \<in> set rs \<Longrightarrow> \<exists>i. snd r = stress_request (fromMinor 10000 INR) i" for r
    by (simp_all add: comp_def)
  have "claimed (idempotencyKey (snd r)) = None \<and> spendable main_chain_wiring (snd r) \<and>
      payerAccountId (snd r) = ''acc_stress'' \<and> payeeAccountId (snd r) = ''acc_merchant_7'' \<and>
      amount (snd r) = fromMinor 10000 INR" if r: "r \<in> set rs" for r
  proof -
    obtain i where i: "snd r = stress_request (fromMinor 10000 INR) i" using fields(2) [OF r] by blast
    show ?thesis unfolding i using assms(2) stress_spendable by (simp add: stress_request_def)
  qed
  with fields(1) show ?thesis unfolding spending_def by blast
qed

lemma open_wallet_effect:
  assumes "stress_ready s" "open_wallet s = Returns s1"
  shows "app_ok s1" and "acc_store (accounts s1) = (acc_store (accounts s))(''acc_stress'' \<mapsto> 2)"
    and "objects s1 = (objects s)(2 \<mapsto> mkAccount ''acc_stress'' USER_WALLET (fromMinor 120000 INR))"
    and "idempotency s1 = idempotency s" and "ledger s1 = ledger s"
proof -
  let ?a = "mkAccount ''acc_stress'' USER_WALLET (fromMinor 120000 INR)"
  have o: "open_account 2 ?a s = Returns s1"
    using assms(2) by (simp add: open_wallet_def main_amounts)
  show "app_ok s1"
    by (rule open_account_app_ok [OF _ _ _ _ o])
      (use assms(1) in \<open>auto simp: stress_ready_def in_currency_def app_ok_def funded_def\<close>)
  show "acc_store (accounts s1) = (acc_store (accounts s))(''acc_stress'' \<mapsto> 2)"
    "objects s1 = (objects s)(2 \<mapsto> ?a)" "idempotency s1 = idempotency s" "ledger s1 = ledger s"
    using o by (auto simp: open_account_def mem_acc_save_def)
qed

lemma seeded_stress_ready: "stress_ready (seeded printer w)"
  using seeded_ok [of printer w]
  by (auto simp: stress_ready_def total_seeded Money_zero_def) (simp add: seeded_def)

lemma stress_run:
  fixes s :: "'w App"
  assumes ready: "stress_ready s" and wallet: "open_wallet s = Returns s1"
    and reqs: "stress_requests = Returns reqs" "mset (map snd rs) = mset reqs"
    and run: "pays main_chain_wiring rs s1 = (out, s2)"
  shows "length (filter succeeded out) = 12 \<and>
    (\<exists>a. objects s2 2 = Some a \<and> account_id a = ''acc_stress'' \<and> funds a = 0)"
proof -
  let ?m = "fromMinor 10000 INR" and ?a = "mkAccount ''acc_stress'' USER_WALLET (fromMinor 120000 INR)"
  have rs: "mset (map snd rs) = mset (map (stress_request ?m) [0..<50])"
    using reqs unfolding stress_requests_eq by simp
  then have len: "length rs = 50" by (metis length_map length_upt mset_eq_length diff_zero)
  note w = open_wallet_effect [OF ready wallet]
  from ready obtain q b where q: "acc_store (accounts s) ''acc_merchant_7'' = Some q" "objects s q = Some b"
    "account_currency b = INR" "objects s 2 = None" by (auto simp: stress_ready_def)
  have reg: "registered (objects s1) (acc_store (accounts s1))" and fund: "funded (objects s1)"
    and free: "''account:'' @ ''acc_stress'' \<notin> held_keys (locks s1)"
    using w(1) by (simp_all add: app_ok_def)
  have sp: "spending main_chain_wiring ''acc_stress'' ''acc_merchant_7'' ?m (key_store (idempotency s1)) rs"
    unfolding w(4) by (rule stress_spending [OF rs]) (use ready in \<open>simp add: stress_ready_def\<close>)
  have p: "acc_store (accounts s1) ''acc_stress'' = Some 2" "objects s1 2 = Some ?a" "account_currency ?a = currency ?m"
    by (simp_all add: w)
  have qv: "acc_store (accounts s1) ''acc_merchant_7'' = Some q" "same_currency (objects s1) q ?m"
    using q by (auto simp: w same_currency_def)
  have "int (length (filter succeeded out)) = min 50 12 \<and>
    (\<exists>a. objects s2 2 = Some a \<and> funds a = 120000 - min 50 12 * 10000)"
    using app.pays_spend [OF inmemory_wiring_sel(1) _ _ reg TrueI fund free sp p qv] run by (simp add: len)
  moreover have sh: "shape (objects s2) = shape (objects s1)"
    using app.pays_frame [OF inmemory_wiring_sel(1) reg TrueI] run by (metis snd_conv)
  obtain a where "objects s2 2 = Some a" "account_id a = ''acc_stress''"
    by (rule shape_Some [OF sh p(2)]) simp
  ultimately show ?thesis by auto
qed

end
