(* ===== verification/Blocking_Queue.thy ===== *)
theory Blocking_Queue
  imports Machine
begin

text \<open>
  \<open>infra/BlockingQueue.hpp\<close>: a bounded queue that blocks, with the threads that use it. The state is the
  object and, for each thread, the place in \<open>push\<close>, \<open>pop\<close> or \<open>close\<close> where it is. What a thread does
  between locking \<open>mtx_\<close> and unlocking it, or going to sleep in \<open>wait\<close>, is one step; \<open>notify_one\<close> and
  \<open>notify_all\<close> are called after the unlock, so they are steps of their own, and another thread may run
  in between. A sleeping thread may also wake for no reason, as condition variables allow.

  The lemmas show that the queue is a bounded FIFO, that no wakeup is lost, and that between two calls
  the threads can only take a bounded number of steps.
\<close>

section \<open>The object\<close>

record 'a BlockingQueue =
  capacity :: nat
  queue :: "'a list"
  closed :: bool

definition new_queue :: "nat \<Rightarrow> 'a BlockingQueue" where
  "new_queue c = \<lparr>capacity = c, queue = [], closed = False\<rparr>"

definition isFullLocked :: "'a BlockingQueue \<Rightarrow> bool" where
  "isFullLocked q \<longleftrightarrow> capacity q \<noteq> 0 \<and> length (queue q) \<ge> capacity q"

definition queue_size :: "'a BlockingQueue \<Rightarrow> nat" where
  "queue_size q = length (queue q)"

definition queue_closed :: "'a BlockingQueue \<Rightarrow> bool" where
  "queue_closed q = closed q"

section \<open>Where a thread is\<close>

datatype 'a Place =
    Idle
  | Pushing 'a
  | Push_waits 'a
  | Pushed
  | Push_returns bool
  | Popping
  | Pop_waits
  | Popped 'a
  | Pop_returns "'a option"
  | Closing
  | Closed_notEmpty
  | Closed_notFull
  | Close_returns

text \<open>What happened to the queue, and in which thread.\<close>

datatype 'a QueueEvent =
    Enqueued nat 'a
  | Dequeued nat 'a
  | Refused nat 'a
  | Drained nat
  | Shut nat

text \<open>The critical sections: the place the thread goes to, the queue, and the event.\<close>

definition push_locked ::
    "nat \<Rightarrow> 'a \<Rightarrow> 'a BlockingQueue \<Rightarrow> 'a Place \<times> 'a BlockingQueue \<times> 'a QueueEvent list" where
  "push_locked i x q =
     (if \<not> (closed q \<or> \<not> isFullLocked q) then (Push_waits x, q, [])
      else if closed q then (Push_returns False, q, [Refused i x])
      else (Pushed, q\<lparr>queue := queue q @ [x]\<rparr>, [Enqueued i x]))"

definition pop_locked ::
    "nat \<Rightarrow> 'a BlockingQueue \<Rightarrow> 'a Place \<times> 'a BlockingQueue \<times> 'a QueueEvent list" where
  "pop_locked i q =
     (if \<not> (closed q \<or> queue q \<noteq> []) then (Pop_waits, q, [])
      else case queue q of
          [] \<Rightarrow> (Pop_returns None, q, [Drained i])
        | item # rest \<Rightarrow> (Popped item, q\<lparr>queue := rest\<rparr>, [Dequeued i item]))"

definition close_locked ::
    "nat \<Rightarrow> 'a BlockingQueue \<Rightarrow> 'a Place \<times> 'a BlockingQueue \<times> 'a QueueEvent list" where
  "close_locked i q = (Closed_notEmpty, q\<lparr>closed := True\<rparr>, [Shut i])"

fun locked_section ::
    "nat \<Rightarrow> 'a Place \<Rightarrow> 'a BlockingQueue \<Rightarrow> ('a Place \<times> 'a BlockingQueue \<times> 'a QueueEvent list) option" where
  "locked_section i (Pushing x) q = Some (push_locked i x q)"
| "locked_section i Popping q = Some (pop_locked i q)"
| "locked_section i Closing q = Some (close_locked i q)"
| "locked_section i p q = None"

section \<open>Condition variables\<close>

datatype CondVar = NotEmpty | NotFull

fun waits_on :: "CondVar \<Rightarrow> 'a Place \<Rightarrow> bool" where
  "waits_on NotEmpty Pop_waits = True"
| "waits_on NotFull (Push_waits x) = True"
| "waits_on cv p = False"

text \<open>A woken thread goes for the mutex and tests its predicate again.\<close>

fun woken :: "'a Place \<Rightarrow> 'a Place" where
  "woken Pop_waits = Popping"
| "woken (Push_waits x) = Pushing x"
| "woken p = p"

inductive notify_one :: "CondVar \<Rightarrow> 'a Place list \<Rightarrow> 'a Place list \<Rightarrow> bool" for cv where
  wakes: "j < length ts \<Longrightarrow> waits_on cv (ts ! j) \<Longrightarrow> notify_one cv ts (ts[j := woken (ts ! j)])"
| nobody: "\<forall>p \<in> set ts. \<not> waits_on cv p \<Longrightarrow> notify_one cv ts ts"

definition notify_all :: "CondVar \<Rightarrow> 'a Place list \<Rightarrow> 'a Place list" where
  "notify_all cv ts = map (\<lambda>p. if waits_on cv p then woken p else p) ts"

text \<open>The notifications that follow the critical sections, with the place after them.\<close>

fun notifies_one :: "'a Place \<Rightarrow> (CondVar \<times> 'a Place) option" where
  "notifies_one Pushed = Some (NotEmpty, Push_returns True)"
| "notifies_one (Popped item) = Some (NotFull, Pop_returns (Some item))"
| "notifies_one p = None"

fun notifies_all :: "'a Place \<Rightarrow> (CondVar \<times> 'a Place) option" where
  "notifies_all Closed_notEmpty = Some (NotEmpty, Closed_notFull)"
| "notifies_all Closed_notFull = Some (NotFull, Close_returns)"
| "notifies_all p = None"

section \<open>Steps\<close>

record 'a Monitor =
  object :: "'a BlockingQueue"
  places :: "'a Place list"

inductive queue_step :: "'a Monitor \<Rightarrow> 'a QueueEvent list \<Rightarrow> 'a Monitor \<Rightarrow> bool" where
  locked: "i < length (places s) \<Longrightarrow> locked_section i (places s ! i) (object s) = Some (p, q, es) \<Longrightarrow>
     queue_step s es \<lparr>object = q, places = (places s)[i := p]\<rparr>"
| notify: "i < length (places s) \<Longrightarrow> notifies_one (places s ! i) = Some (cv, p) \<Longrightarrow>
     notify_one cv ((places s)[i := p]) ts \<Longrightarrow> queue_step s [] (s\<lparr>places := ts\<rparr>)"
| broadcast: "i < length (places s) \<Longrightarrow> notifies_all (places s ! i) = Some (cv, p) \<Longrightarrow>
     queue_step s [] (s\<lparr>places := notify_all cv ((places s)[i := p])\<rparr>)"

text \<open>What comes from outside: a spurious wakeup, and a call by a thread that is not in one.\<close>

fun idle :: "'a Place \<Rightarrow> bool" where
  "idle Idle = True"
| "idle (Push_returns b) = True"
| "idle (Pop_returns x) = True"
| "idle Close_returns = True"
| "idle p = False"

fun entry :: "'a Place \<Rightarrow> bool" where
  "entry (Pushing x) = True"
| "entry Popping = True"
| "entry Closing = True"
| "entry p = False"

inductive spurious :: "'a Monitor \<Rightarrow> 'a Monitor \<Rightarrow> bool" where
  wake: "i < length (places s) \<Longrightarrow> waits_on cv (places s ! i) \<Longrightarrow>
     spurious s (s\<lparr>places := (places s)[i := woken (places s ! i)]\<rparr>)"

inductive queue_call :: "'a Monitor \<Rightarrow> 'a Monitor \<Rightarrow> bool" where
  enter: "i < length (places s) \<Longrightarrow> idle (places s ! i) \<Longrightarrow> entry p \<Longrightarrow>
     queue_call s (s\<lparr>places := (places s)[i := p]\<rparr>)"

text \<open>A run, with the events in their order.\<close>

inductive queue_run :: "'a Monitor \<Rightarrow> 'a QueueEvent list \<Rightarrow> 'a Monitor \<Rightarrow> bool" for s where
  start: "queue_run s [] s"
| step: "queue_run s es t \<Longrightarrow> queue_step t fs u \<Longrightarrow> queue_run s (es @ fs) u"
| wakeup: "queue_run s es t \<Longrightarrow> spurious t u \<Longrightarrow> queue_run s es u"
| call: "queue_run s es t \<Longrightarrow> queue_call t u \<Longrightarrow> queue_run s es u"

definition new_monitor :: "nat \<Rightarrow> nat \<Rightarrow> 'a Monitor" where
  "new_monitor c n = \<lparr>object = new_queue c, places = replicate n Idle\<rparr>"

inductive_cases queue_stepE: "queue_step s es t"
inductive_cases spuriousE: "spurious s t"
inductive_cases queue_callE: "queue_call s t"
inductive_cases notify_oneE: "notify_one cv ts us"

section \<open>Counting threads\<close>

definition count_places :: "('a Place \<Rightarrow> bool) \<Rightarrow> 'a Place list \<Rightarrow> nat" where
  "count_places P ts = length (filter P ts)"

lemma count_places_update:
  assumes "i < length ts"
  shows "count_places P (ts[i := p]) + of_bool (P (ts ! i)) = count_places P ts + of_bool (P p)"
  using assms
proof (induction ts arbitrary: i)
  case (Cons t ts)
  then show ?case by (cases i) (auto simp: count_places_def)
qed simp

lemma count_places_pos: "0 < count_places P ts \<longleftrightarrow> (\<exists>p \<in> set ts. P p)"
  by (auto simp: count_places_def filter_empty_conv)

lemma count_places_zero: "count_places P ts = 0 \<longleftrightarrow> (\<forall>p \<in> set ts. \<not> P p)"
  by (auto simp: count_places_def filter_empty_conv)

section \<open>The invariant: bounded, and no wakeup is lost\<close>

text \<open>For each condition variable: who is awake and may use what it announces, who is about to notify
  one waiter, and who is about to notify all of them after a close.\<close>

fun contends :: "CondVar \<Rightarrow> 'a Place \<Rightarrow> bool" where
  "contends NotEmpty Popping = True"
| "contends NotFull (Pushing x) = True"
| "contends cv p = False"

fun will_notify :: "CondVar \<Rightarrow> 'a Place \<Rightarrow> bool" where
  "will_notify NotEmpty Pushed = True"
| "will_notify NotFull (Popped x) = True"
| "will_notify cv p = False"

fun will_clear :: "CondVar \<Rightarrow> 'a Place \<Rightarrow> bool" where
  "will_clear cv Closed_notEmpty = True"
| "will_clear NotFull Closed_notFull = True"
| "will_clear cv p = False"

text \<open>What is there to be had: items for consumers, free slots for producers.\<close>

fun available :: "CondVar \<Rightarrow> 'a BlockingQueue \<Rightarrow> nat" where
  "available NotEmpty q = length (queue q)"
| "available NotFull q = capacity q - length (queue q)"

text \<open>
  The queue keeps its bound, producers never wait at an unbounded queue, and only a closed queue is
  broadcast. As long as anybody waits, either the broadcast is still to come, or whatever there is to be
  had is matched by threads that are awake for it and notifications under way. In the middle of a
  notification one of them may be missing: \<open>a\<close> counts this debt.
\<close>

definition fits :: "'a BlockingQueue \<Rightarrow> 'a Place list \<Rightarrow> bool" where
  "fits q ts \<longleftrightarrow> (capacity q \<noteq> 0 \<longrightarrow> length (queue q) \<le> capacity q) \<and>
     (capacity q = 0 \<longrightarrow> count_places (waits_on NotFull) ts = 0) \<and>
     (0 < count_places (will_clear NotFull) ts \<longrightarrow> closed q)"

definition served :: "nat \<Rightarrow> CondVar \<Rightarrow> 'a BlockingQueue \<Rightarrow> 'a Place list \<Rightarrow> bool" where
  "served a cv q ts \<longleftrightarrow> (0 < count_places (waits_on cv) ts \<longrightarrow>
     (if closed q then 0 < count_places (will_clear cv) ts
      else available cv q \<le> count_places (contends cv) ts + count_places (will_notify cv) ts + a))"

definition monitor_inv :: "'a Monitor \<Rightarrow> bool" where
  "monitor_inv s \<longleftrightarrow> fits (object s) (places s) \<and> (\<forall>cv. served 0 cv (object s) (places s))"

lemma all_CondVar: "(\<forall>cv. P cv) \<longleftrightarrow> P NotEmpty \<and> P NotFull"
  by (metis CondVar.exhaust)

lemma new_monitor_inv: "monitor_inv (new_monitor c n)"
  by (auto simp: monitor_inv_def fits_def served_def new_monitor_def new_queue_def count_places_def all_CondVar)

lemma count_places_change:
  assumes "i < length ts"
  shows "P (ts ! i) = P p \<Longrightarrow> count_places P (ts[i := p]) = count_places P ts"
    and "\<not> P (ts ! i) \<Longrightarrow> P p \<Longrightarrow> count_places P (ts[i := p]) = Suc (count_places P ts)"
    and "P (ts ! i) \<Longrightarrow> \<not> P p \<Longrightarrow> count_places P ts = Suc (count_places P (ts[i := p]))"
  using count_places_update [OF assms, of P p] by (auto split: if_splits)

lemmas fits_served = fits_def served_def

lemma push_inv:
  assumes i: "i < length ts" "ts ! i = Pushing x" and sec: "push_locked i x q = (p, q', es)" and f: "fits q ts"
  shows "fits q' (ts[i := p])" and "served 0 cv q ts \<Longrightarrow> served 0 cv q' (ts[i := p])"
proof -
  note c = count_places_change(1,2) [OF i(1)] i
  consider "p = Push_waits x" "q' = q" "\<not> closed q" "isFullLocked q"
    | "p = Push_returns False" "q' = q" "closed q"
    | "p = Pushed" "q' = q\<lparr>queue := queue q @ [x]\<rparr>" "\<not> closed q" "\<not> isFullLocked q"
    using sec by (auto simp: push_locked_def split: if_splits)
  then have "fits q' (ts[i := p]) \<and> (served 0 cv q ts \<longrightarrow> served 0 cv q' (ts[i := p]))"
  proof cases
    case 1
    with f show ?thesis by (cases cv) (auto simp: fits_served isFullLocked_def c)
  next
    case 2
    with f show ?thesis by (cases cv) (auto simp: fits_served c)
  next
    case 3
    have "count_places (contends NotFull) ts = Suc (count_places (contends NotFull) (ts[i := p]))"
      by (rule count_places_change(3) [OF i(1)]) (simp_all add: i(2) 3(1))
    with f 3 show ?thesis by (cases cv) (auto simp: fits_served isFullLocked_def c)
  qed
  then show "fits q' (ts[i := p])" "served 0 cv q ts \<Longrightarrow> served 0 cv q' (ts[i := p])" by blast+
qed

lemma pop_inv:
  assumes i: "i < length ts" "ts ! i = Popping" and sec: "pop_locked i q = (p, q', es)" and f: "fits q ts"
  shows "fits q' (ts[i := p])" and "served 0 cv q ts \<Longrightarrow> served 0 cv q' (ts[i := p])"
proof -
  note c = count_places_change(1,2) [OF i(1)] i
  consider "p = Pop_waits" "q' = q" "\<not> closed q" "queue q = []"
    | "p = Pop_returns None" "q' = q" "closed q"
    | x xs where "p = Popped x" "queue q = x # xs" "q' = q\<lparr>queue := xs\<rparr>"
    using sec by (auto simp: pop_locked_def split: if_splits list.splits)
  then have "fits q' (ts[i := p]) \<and> (served 0 cv q ts \<longrightarrow> served 0 cv q' (ts[i := p]))"
  proof cases
    case 1
    with f show ?thesis by (cases cv) (auto simp: fits_served c)
  next
    case 2
    with f show ?thesis by (cases cv) (auto simp: fits_served c)
  next
    case 3
    have "count_places (contends NotEmpty) ts = Suc (count_places (contends NotEmpty) (ts[i := p]))"
      by (rule count_places_change(3) [OF i(1)]) (simp_all add: i(2) 3(1))
    with f 3 show ?thesis by (cases cv) (auto simp: fits_served c)
  qed
  then show "fits q' (ts[i := p])" "served 0 cv q ts \<Longrightarrow> served 0 cv q' (ts[i := p])" by blast+
qed

lemma close_inv:
  assumes i: "i < length ts" "ts ! i = Closing" and sec: "close_locked i q = (p, q', es)" and f: "fits q ts"
  shows "fits q' (ts[i := p])" and "served 0 cv q ts \<Longrightarrow> served 0 cv q' (ts[i := p])"
proof -
  have "p = Closed_notEmpty" "q' = q\<lparr>closed := True\<rparr>" using sec by (simp_all add: close_locked_def)
  then show "fits q' (ts[i := p])" "served 0 cv q ts \<Longrightarrow> served 0 cv q' (ts[i := p])"
    using f by (cases cv; simp add: fits_served count_places_change(1,2) [OF i(1)] i)+
qed

lemma locked_inv:
  assumes "i < length ts" "locked_section i (ts ! i) q = Some (p, q', es)" "fits q ts"
  shows "fits q' (ts[i := p])" and "served 0 cv q ts \<Longrightarrow> served 0 cv q' (ts[i := p])"
  using assms(2) push_inv [OF assms(1) _ _ assms(3)] pop_inv [OF assms(1) _ _ assms(3)] close_inv [OF assms(1) _ _ assms(3)]
  by (cases "ts ! i"; simp)+

text \<open>A notification is used up by the waiter it wakes; without a waiter it is not needed.\<close>

lemma waits_on_unique: "waits_on cv p \<Longrightarrow> waits_on cv' p \<longleftrightarrow> cv' = cv"
  by (cases cv; cases cv'; cases p) simp_all

lemma woken_place:
  assumes "waits_on cv p"
  shows "\<not> waits_on cv' (woken p)" "contends cv' (woken p) \<longleftrightarrow> cv' = cv" "\<not> contends cv' p"
    "\<not> will_notify cv' p" "\<not> will_notify cv' (woken p)" "\<not> will_clear cv' p" "\<not> will_clear cv' (woken p)"
  using assms by (cases cv; cases cv'; cases p; simp)+

lemma wake_inv:
  assumes j: "j < length ts" "waits_on cv (ts ! j)" and f: "fits q ts"
  shows "fits q (ts[j := woken (ts ! j)])"
    and "served (if cv' = cv then 1 else 0) cv' q ts \<Longrightarrow> served 0 cv' q (ts[j := woken (ts ! j)])"
proof -
  note c = count_places_change(1,2) [OF j(1)] woken_place [OF j(2)] waits_on_unique [OF j(2)]
  have d: "count_places (waits_on cv) ts = Suc (count_places (waits_on cv) (ts[j := woken (ts ! j)]))"
    by (rule count_places_change(3) [OF j(1)]) (simp_all add: j(2) c)
  show "fits q (ts[j := woken (ts ! j)])"
  proof -
    have "count_places (waits_on NotFull) (ts[j := woken (ts ! j)]) \<le> count_places (waits_on NotFull) ts"
      using d by (cases "cv = NotFull") (simp, simp add: c)
    moreover have "count_places (will_clear NotFull) (ts[j := woken (ts ! j)]) = count_places (will_clear NotFull) ts"
      by (simp add: c)
    ultimately show ?thesis using f unfolding fits_def by auto
  qed
  show "served (if cv' = cv then 1 else 0) cv' q ts \<Longrightarrow> served 0 cv' q (ts[j := woken (ts ! j)])"
  proof (cases "cv' = cv")
    case True
    have "count_places (contends cv) (ts[j := woken (ts ! j)]) = Suc (count_places (contends cv) ts)"
      "count_places (will_notify cv) (ts[j := woken (ts ! j)]) = count_places (will_notify cv) ts"
      "count_places (will_clear cv) (ts[j := woken (ts ! j)]) = count_places (will_clear cv) ts"
      by (simp_all add: c)
    then show "served (if cv' = cv then 1 else 0) cv' q ts \<Longrightarrow> served 0 cv' q (ts[j := woken (ts ! j)])"
      using d unfolding served_def True by (cases "closed q") simp_all
  next
    case False
    then show "served (if cv' = cv then 1 else 0) cv' q ts \<Longrightarrow> served 0 cv' q (ts[j := woken (ts ! j)])"
      by (cases "closed q") (simp_all add: served_def c)
  qed
qed

lemma served_mono: "served a cv q ts \<Longrightarrow> a \<le> b \<Longrightarrow> served b cv q ts"
  by (auto simp: served_def)

lemma notifies_one_cases:
  assumes "notifies_one t = Some (cv, p)"
  obtains "t = Pushed" "cv = NotEmpty" "p = Push_returns True"
    | x where "t = Popped x" "cv = NotFull" "p = Pop_returns (Some x)"
  using assms by (cases t) auto

lemma notifier_place:
  assumes "notifies_one t = Some (cv, p)"
  shows "\<not> waits_on cv' t" "\<not> waits_on cv' p" "\<not> contends cv' t" "\<not> contends cv' p" "\<not> will_clear cv' t"
    "\<not> will_clear cv' p" "will_notify cv' t \<longleftrightarrow> cv' = cv" "\<not> will_notify cv' p"
  using assms by (cases cv'; cases t; auto)+

lemma duty_passed_on:
  assumes i: "i < length ts" "notifies_one (ts ! i) = Some (cv, p)" and f: "fits q ts"
  shows "fits q (ts[i := p])"
    and "served 0 cv' q ts \<Longrightarrow> served (if cv' = cv then 1 else 0) cv' q (ts[i := p])"
proof -
  note c = count_places_change(1,2) [OF i(1)] notifier_place [OF i(2)]
  have d: "count_places (will_notify cv) ts = Suc (count_places (will_notify cv) (ts[i := p]))"
    by (rule count_places_change(3) [OF i(1)]) (simp_all add: c)
  show "fits q (ts[i := p])" using f by (simp add: fits_def c)
  show "served 0 cv' q ts \<Longrightarrow> served (if cv' = cv then 1 else 0) cv' q (ts[i := p])"
    using d by (cases "cv' = cv") (auto simp: served_def c)
qed

lemma notify_inv:
  assumes i: "i < length ts" "notifies_one (ts ! i) = Some (cv, p)" and f: "fits q ts"
    and n: "notify_one cv (ts[i := p]) us"
  shows "fits q us" and "served 0 cv' q ts \<Longrightarrow> served 0 cv' q us"
proof -
  note d = duty_passed_on [OF i f]
  have "fits q us \<and> (served 0 cv' q ts \<longrightarrow> served 0 cv' q us)"
    using n
  proof cases
    case (wakes j)
    show ?thesis
      unfolding wakes(1) using wake_inv [OF wakes(2,3) d(1)] d(2) by blast
  next
    case nobody
    then have "count_places (waits_on cv) (ts[i := p]) = 0" by (simp add: count_places_zero)
    with d(1) d(2) [of cv'] show ?thesis
      unfolding nobody(1) by (cases "cv' = cv") (auto simp: served_def)
  qed
  then show "fits q us" "served 0 cv' q ts \<Longrightarrow> served 0 cv' q us" by blast+
qed

lemma count_places_map: "count_places P (map f ts) = count_places (\<lambda>p. P (f p)) ts"
  by (simp add: count_places_def filter_map comp_def)

lemma cleared_place:
  "waits_on cv' (if waits_on cv p then woken p else p) \<longleftrightarrow> cv' \<noteq> cv \<and> waits_on cv' p"
  "will_clear cv' (if waits_on cv p then woken p else p) \<longleftrightarrow> will_clear cv' p"
  "will_notify cv' (if waits_on cv p then woken p else p) \<longleftrightarrow> will_notify cv' p"
  "contends cv' (if waits_on cv p then woken p else p) \<longleftrightarrow> contends cv' p \<or> cv' = cv \<and> waits_on cv p"
  by (cases cv; cases cv'; cases p; simp)+

lemma notify_all_counts:
  "count_places (waits_on cv') (notify_all cv ts) = (if cv' = cv then 0 else count_places (waits_on cv') ts)"
  "count_places (will_clear cv') (notify_all cv ts) = count_places (will_clear cv') ts"
  "count_places (will_notify cv') (notify_all cv ts) = count_places (will_notify cv') ts"
  "cv' \<noteq> cv \<Longrightarrow> count_places (contends cv') (notify_all cv ts) = count_places (contends cv') ts"
  by (simp_all add: notify_all_def count_places_map cleared_place, simp_all add: count_places_def)

lemma notifies_all_cases:
  assumes "notifies_all t = Some (cv, p)"
  obtains "t = Closed_notEmpty" "cv = NotEmpty" "p = Closed_notFull"
    | "t = Closed_notFull" "cv = NotFull" "p = Close_returns"
  using assms by (cases t) auto

lemma broadcast_inv:
  assumes i: "i < length ts" "notifies_all (ts ! i) = Some (cv, p)" and f: "fits q ts"
  shows "fits q (notify_all cv (ts[i := p]))"
    and "served 0 cv' q ts \<Longrightarrow> served 0 cv' q (notify_all cv (ts[i := p]))"
proof -
  note c = count_places_change(1,2) [OF i(1)] notify_all_counts
  have "will_clear NotFull (ts ! i)" by (rule notifies_all_cases [OF i(2)]) simp_all
  then have closed: "closed q"
    using f i(1) unfolding fits_def count_places_pos by (meson nth_mem)
  from i(2) show "fits q (notify_all cv (ts[i := p]))"
  proof (cases rule: notifies_all_cases)
    case 1
    with f closed show ?thesis by (simp add: fits_def c)
  next
    case 2
    with f closed show ?thesis by (simp add: fits_def c)
  qed
  from i(2) show "served 0 cv' q ts \<Longrightarrow> served 0 cv' q (notify_all cv (ts[i := p]))"
  proof (cases rule: notifies_all_cases)
    case 1
    then show "served 0 cv' q ts \<Longrightarrow> served 0 cv' q (notify_all cv (ts[i := p]))"
      using closed by (cases cv') (simp_all add: served_def c)
  next
    case 2
    then show "served 0 cv' q ts \<Longrightarrow> served 0 cv' q (notify_all cv (ts[i := p]))"
      using closed by (cases cv') (simp_all add: served_def c)
  qed
qed

lemma queue_step_inv:
  assumes "queue_step s es t" "monitor_inv s"
  shows "monitor_inv t"
  using assms(1)
proof cases
  case (locked i p q)
  with assms(2) locked_inv [OF locked(2,3)] show ?thesis by (simp add: monitor_inv_def)
next
  case (notify i cv p ts)
  with assms(2) notify_inv [OF notify(3,4) _ notify(5)] show ?thesis by (simp add: monitor_inv_def)
next
  case (broadcast i cv p)
  with assms(2) broadcast_inv [OF broadcast(3,4)] show ?thesis by (simp add: monitor_inv_def)
qed

lemma spurious_inv:
  assumes "spurious s t" "monitor_inv s"
  shows "monitor_inv t"
  using assms(1)
proof cases
  case (wake i cv)
  with assms(2) wake_inv [OF wake(2,3), of "object s"] served_mono [of 0 _ "object s" "places s" 1]
  show ?thesis by (simp add: monitor_inv_def)
qed

lemma idle_place:
  assumes "idle p"
  shows "\<not> waits_on cv p" "\<not> contends cv p" "\<not> will_notify cv p" "\<not> will_clear cv p"
  using assms by (cases cv; cases p; simp)+

lemma enter_inv:
  assumes i: "i < length ts" "idle (ts ! i)" "entry p"
  shows "fits q ts \<Longrightarrow> fits q (ts[i := p])" and "served 0 cv q ts \<Longrightarrow> served 0 cv q (ts[i := p])"
proof -
  note c = count_places_change(1,2) [OF i(1)] idle_place [OF i(2)]
  consider x where "p = Pushing x" | "p = Popping" | "p = Closing" using i(3) by (cases p) auto
  then show "fits q ts \<Longrightarrow> fits q (ts[i := p])" by cases (simp_all add: fits_def c)
  show "served 0 cv q ts \<Longrightarrow> served 0 cv q (ts[i := p])"
    using i(3) by (cases p; cases cv) (auto simp: served_def c)
qed

lemma leave_inv:
  assumes i: "i < length ts" "idle (ts ! i)"
  shows "fits q ts \<Longrightarrow> fits q (ts[i := Idle])" and "served 0 cv q ts \<Longrightarrow> served 0 cv q (ts[i := Idle])"
  by (cases "closed q"; simp add: fits_def served_def count_places_change(1) [OF i(1)] idle_place [OF i(2)] idle_place [of Idle])+

lemma queue_call_inv:
  assumes "queue_call s t" "monitor_inv s"
  shows "monitor_inv t"
  using assms(1)
proof cases
  case (enter i p)
  with assms(2) enter_inv [OF enter(2-4)] show ?thesis by (simp add: monitor_inv_def)
qed

lemma queue_run_inv: "queue_run s es t \<Longrightarrow> monitor_inv s \<Longrightarrow> monitor_inv t"
  by (induction rule: queue_run.induct) (auto intro: queue_step_inv spurious_inv queue_call_inv)

section \<open>Nobody is stranded\<close>

text \<open>Every thread is out of its call or asleep: exactly the states without a step.\<close>

definition quiet :: "'a Monitor \<Rightarrow> bool" where
  "quiet s \<longleftrightarrow> (\<forall>p \<in> set (places s). idle p \<or> waits_on NotEmpty p \<or> waits_on NotFull p)"

lemma notify_one_total: "\<exists>us. notify_one cv ts us"
  by (metis in_set_conv_nth notify_one.wakes notify_one.nobody)

lemma quiet_iff: "quiet s \<longleftrightarrow> at_rest queue_step s"
  unfolding at_rest_def
proof
  assume q: "quiet s"
  have "locked_section i (places s ! i) (object s) = None" "notifies_one (places s ! i) = None"
    "notifies_all (places s ! i) = None" if "i < length (places s)" for i
    using q nth_mem [OF that] unfolding quiet_def by (cases "places s ! i"; auto)+
  then show "\<nexists>es t. queue_step s es t" by (auto elim!: queue_stepE)
next
  assume n: "\<nexists>es t. queue_step s es t"
  show "quiet s"
    unfolding quiet_def
  proof
    fix p assume "p \<in> set (places s)"
    then obtain i where i: "i < length (places s)" "p = places s ! i" by (auto simp: in_set_conv_nth)
    have "locked_section i p (object s) = None"
      using n locked [OF i(1)] unfolding i(2) by (metis option.exhaust surj_pair)
    moreover have "notifies_one p = None"
      using n notify [OF i(1)] notify_one_total unfolding i(2) by (metis option.exhaust surj_pair)
    moreover have "notifies_all p = None"
      using n broadcast [OF i(1)] unfolding i(2) by (metis option.exhaust surj_pair)
    ultimately show "idle p \<or> waits_on NotEmpty p \<or> waits_on NotFull p" by (cases p) auto
  qed
qed

lemma quiet_counts:
  assumes "quiet s"
  shows "count_places (contends cv) (places s) = 0" "count_places (will_notify cv) (places s) = 0"
    "count_places (will_clear cv) (places s) = 0"
  using assms unfolding quiet_def count_places_zero by (metis idle_place(2) waits_on_unique woken_place(3))
    (metis assms idle_place(3,4) quiet_def woken_place(4,6))+

lemma quiet_waiters:
  assumes "monitor_inv s" "quiet s"
  shows "Pop_waits \<in> set (places s) \<Longrightarrow> queue (object s) = [] \<and> \<not> closed (object s)"
    and "Push_waits x \<in> set (places s) \<Longrightarrow> isFullLocked (object s) \<and> \<not> closed (object s)"
proof -
  note c = quiet_counts [OF assms(2)]
  have f: "fits (object s) (places s)" and v: "served 0 cv (object s) (places s)" for cv
    using assms(1) by (simp_all add: monitor_inv_def)
  show "queue (object s) = [] \<and> \<not> closed (object s)" if "Pop_waits \<in> set (places s)"
  proof -
    have "0 < count_places (waits_on NotEmpty) (places s)"
      using that unfolding count_places_pos by (intro bexI [where x = Pop_waits]) simp_all
    with v [of NotEmpty] show ?thesis unfolding served_def c by (cases "closed (object s)") simp_all
  qed
  show "isFullLocked (object s) \<and> \<not> closed (object s)" if "Push_waits x \<in> set (places s)"
  proof -
    have "0 < count_places (waits_on NotFull) (places s)"
      using that unfolding count_places_pos by (intro bexI [where x = "Push_waits x"]) simp_all
    moreover from this have "capacity (object s) \<noteq> 0" using f unfolding fits_def by linarith
    ultimately show ?thesis
      using v [of NotFull] unfolding served_def isFullLocked_def c by (cases "closed (object s)") simp_all
  qed
qed

section \<open>What the queue promises: a bounded channel\<close>

text \<open>A channel is the items in it and whether it is shut. Each event happens at once, or cannot happen.\<close>

fun channel :: "nat \<Rightarrow> 'a QueueEvent \<Rightarrow> 'a list \<times> bool \<Rightarrow> ('a list \<times> bool) option" where
  "channel c (Enqueued i x) (xs, shut) =
     (if \<not> shut \<and> (c = 0 \<or> length xs < c) then Some (xs @ [x], shut) else None)"
| "channel c (Dequeued i x) (xs, shut) = (if xs \<noteq> [] \<and> hd xs = x then Some (tl xs, shut) else None)"
| "channel c (Refused i x) (xs, shut) = (if shut then Some (xs, shut) else None)"
| "channel c (Drained i) (xs, shut) = (if shut \<and> xs = [] then Some (xs, shut) else None)"
| "channel c (Shut i) (xs, shut) = Some (xs, True)"

fun channel_run :: "nat \<Rightarrow> 'a QueueEvent list \<Rightarrow> 'a list \<times> bool \<Rightarrow> ('a list \<times> bool) option" where
  "channel_run c [] ch = Some ch"
| "channel_run c (e # es) ch = (case channel c e ch of None \<Rightarrow> None | Some ch' \<Rightarrow> channel_run c es ch')"

lemma channel_run_append:
  "channel_run c (es @ fs) ch = (case channel_run c es ch of None \<Rightarrow> None | Some ch' \<Rightarrow> channel_run c fs ch')"
  by (induction es arbitrary: ch) (auto split: option.splits)

definition contents :: "'a Monitor \<Rightarrow> 'a list \<times> bool" where
  "contents s = (queue (object s), closed (object s))"

lemma locked_section_channel:
  assumes "locked_section i p q = Some (p', q', es)"
  shows "channel_run (capacity q) es (queue q, closed q) = Some (queue q', closed q') \<and> capacity q' = capacity q"
  using assms
  by (cases p) (auto simp: push_locked_def pop_locked_def close_locked_def isFullLocked_def split: if_splits list.splits)

lemma queue_step_channel:
  assumes "queue_step s es t"
  shows "channel_run (capacity (object s)) es (contents s) = Some (contents t) \<and>
    capacity (object t) = capacity (object s) \<and> length (places t) = length (places s)"
  using assms
proof cases
  case (locked i p q)
  then show ?thesis using locked_section_channel [OF locked(3)] by (simp add: contents_def)
next
  case (notify i cv p ts)
  have "length ts = length (places s)" using notify(5) by cases simp_all
  with notify show ?thesis by (simp add: contents_def)
next
  case (broadcast i cv p)
  then show ?thesis by (simp add: contents_def notify_all_def)
qed

lemma outside_channel:
  "spurious s t \<Longrightarrow> object t = object s \<and> length (places t) = length (places s)"
  "queue_call s t \<Longrightarrow> object t = object s \<and> length (places t) = length (places s)"
  by (auto elim!: spuriousE queue_callE)

lemma queue_run_channel:
  assumes "queue_run s es t"
  shows "channel_run (capacity (object s)) es (contents s) = Some (contents t) \<and> capacity (object t) = capacity (object s)"
  using assms
proof (induction rule: queue_run.induct)
  case (step es t fs u)
  then show ?case using queue_step_channel [OF step(2)] by (simp add: channel_run_append)
qed (auto simp: contents_def dest: outside_channel)

text \<open>Consequences for the items: first in, first out, each once.\<close>

fun enqueued :: "'a QueueEvent list \<Rightarrow> 'a list" where
  "enqueued [] = []"
| "enqueued (Enqueued i x # es) = x # enqueued es"
| "enqueued (e # es) = enqueued es"

fun dequeued :: "'a QueueEvent list \<Rightarrow> 'a list" where
  "dequeued [] = []"
| "dequeued (Dequeued i x # es) = x # dequeued es"
| "dequeued (e # es) = dequeued es"

lemma enqueued_append [simp]: "enqueued (es @ fs) = enqueued es @ enqueued fs"
  by (induction es rule: enqueued.induct) simp_all

lemma dequeued_append [simp]: "dequeued (es @ fs) = dequeued es @ dequeued fs"
  by (induction es rule: dequeued.induct) simp_all

lemma channel_fifo:
  "channel_run c es (xs, shut) = Some (ys, shut') \<Longrightarrow> xs @ enqueued es = dequeued es @ ys"
proof (induction es arbitrary: xs shut)
  case (Cons e es)
  from Cons.prems obtain zs shut1 where z: "channel c e (xs, shut) = Some (zs, shut1)"
    "channel_run c es (zs, shut1) = Some (ys, shut')" by (auto split: option.splits)
  from Cons.IH [OF z(2)] z(1) show ?case by (cases e) (auto split: if_splits simp: neq_Nil_conv)
qed simp

lemma queue_step_fifo:
  "queue_step s es t \<Longrightarrow> queue (object s) @ enqueued es = dequeued es @ queue (object t)"
  using queue_step_channel [of s es t] channel_fifo by (auto simp: contents_def)

section \<open>Answers\<close>

text \<open>What a thread brings back from its call is what its last event says.\<close>

fun actor :: "'a QueueEvent \<Rightarrow> nat" where
  "actor (Enqueued i x) = i"
| "actor (Dequeued i x) = i"
| "actor (Refused i x) = i"
| "actor (Drained i) = i"
| "actor (Shut i) = i"

definition last_event :: "nat \<Rightarrow> 'a QueueEvent list \<Rightarrow> 'a QueueEvent option" where
  "last_event i es = find (\<lambda>e. actor e = i) (rev es)"

fun answers :: "nat \<Rightarrow> 'a Place \<Rightarrow> 'a QueueEvent option \<Rightarrow> bool" where
  "answers i Pushed e = (\<exists>x. e = Some (Enqueued i x))"
| "answers i (Push_returns b) e = (\<exists>x. e = Some (if b then Enqueued i x else Refused i x))"
| "answers i (Popped x) e = (e = Some (Dequeued i x))"
| "answers i (Pop_returns (Some x)) e = (e = Some (Dequeued i x))"
| "answers i (Pop_returns None) e = (e = Some (Drained i))"
| "answers i Closed_notEmpty e = (e = Some (Shut i))"
| "answers i Closed_notFull e = (e = Some (Shut i))"
| "answers i Close_returns e = (e = Some (Shut i))"
| "answers i p e = True"

definition all_answer :: "'a QueueEvent list \<Rightarrow> 'a Place list \<Rightarrow> bool" where
  "all_answer es ts \<longleftrightarrow> (\<forall>i < length ts. answers i (ts ! i) (last_event i es))"

lemma last_event_append:
  "last_event i (es @ fs) = (case last_event i fs of None \<Rightarrow> last_event i es | Some e \<Rightarrow> Some e)"
proof -
  have "find P (xs @ ys) = (case find P xs of None \<Rightarrow> find P ys | Some x \<Rightarrow> Some x)" for P and xs ys :: "'a QueueEvent list"
    by (induction xs) auto
  then show ?thesis unfolding last_event_def rev_append .
qed

lemma last_event_simps [simp]:
  "last_event i [] = None" "last_event i [e] = (if actor e = i then Some e else None)"
  by (simp_all add: last_event_def)

lemma all_answer_update:
  assumes "all_answer es ts" "i < length ts" "\<forall>e \<in> set fs. actor e = i" "answers i p (last_event i (es @ fs))"
  shows "all_answer (es @ fs) (ts[i := p])"
proof -
  have "last_event j fs = None" if "j \<noteq> i" for j
    using that assms(3) by (auto simp: last_event_def find_None_iff)
  then show ?thesis
    using assms by (auto simp: all_answer_def last_event_append nth_list_update)
qed

lemma locked_answers:
  assumes "locked_section i p q = Some (p', q', es)"
  shows "(\<forall>e \<in> set es. actor e = i) \<and> answers i p' (last_event i (fs @ es))"
  using assms
  by (cases p)
    (auto simp: push_locked_def pop_locked_def close_locked_def last_event_append split: if_splits list.splits)

lemma woken_answers: "waits_on cv p \<Longrightarrow> answers i (woken p) e"
  by (cases p) simp_all

lemma notify_one_answers:
  assumes "notify_one cv ts us" "all_answer es ts"
  shows "all_answer es us"
  using assms(1)
proof cases
  case (wakes j)
  then show ?thesis
    using all_answer_update [OF assms(2) wakes(2), of "[]"] woken_answers [OF wakes(3)] by simp
qed (use assms(2) in simp)

lemma notify_all_answers: "all_answer es ts \<Longrightarrow> all_answer es (notify_all cv ts)"
  by (auto simp: all_answer_def notify_all_def woken_answers)

lemma queue_step_answers:
  assumes "queue_step s fs t" "all_answer es (places s)"
  shows "all_answer (es @ fs) (places t)"
  using assms(1)
proof cases
  case (locked i p q)
  then show ?thesis using all_answer_update [OF assms(2)] locked_answers [OF locked(3)] by simp
next
  case (notify i cv p ts)
  have "answers i p (last_event i es)"
    using assms(2) notify(3) notify(4) unfolding all_answer_def
    by (auto elim!: notifies_one_cases dest!: spec [where x = i])
  then have "all_answer es ((places s)[i := p])"
    using all_answer_update [OF assms(2) notify(3), of "[]"] by simp
  with notify_one_answers [OF notify(5)] notify show ?thesis by simp
next
  case (broadcast i cv p)
  have "answers i p (last_event i es)"
    using assms(2) broadcast(3) broadcast(4) unfolding all_answer_def
    by (auto elim!: notifies_all_cases dest!: spec [where x = i])
  then have "all_answer es ((places s)[i := p])"
    using all_answer_update [OF assms(2) broadcast(3), of "[]"] by simp
  with broadcast show ?thesis by (simp add: notify_all_answers)
qed

lemma outside_answers:
  "spurious s t \<Longrightarrow> all_answer es (places s) \<Longrightarrow> all_answer es (places t)"
  "queue_call s t \<Longrightarrow> all_answer es (places s) \<Longrightarrow> all_answer es (places t)"
proof -
  assume a: "all_answer es (places s)"
  show "all_answer es (places t)" if "spurious s t"
    using that
  proof cases
    case (wake i cv)
    then show ?thesis using all_answer_update [OF a wake(2), of "[]"] woken_answers [OF wake(3)] by simp
  qed
  show "all_answer es (places t)" if "queue_call s t"
    using that
  proof cases
    case (enter i p)
    then have "answers i p (last_event i es)" by (cases p) simp_all
    with all_answer_update [OF a enter(2), of "[]"] enter show ?thesis by simp
  qed
qed

lemma queue_run_answers:
  "queue_run s es t \<Longrightarrow> all_answer [] (places s) \<Longrightarrow> all_answer es (places t)"
  by (induction rule: queue_run.induct) (auto intro: queue_step_answers outside_answers)

lemma new_monitor_answers: "all_answer [] (places (new_monitor c n))"
  by (simp add: all_answer_def new_monitor_def)

section \<open>What a step can do to a place\<close>

definition place_step :: "'a BlockingQueue \<Rightarrow> 'a Place \<Rightarrow> 'a BlockingQueue \<Rightarrow> 'a Place \<Rightarrow> bool" where
  "place_step q p q' p' \<longleftrightarrow> p' = p \<or> p' = woken p \<or> (\<exists>i es. locked_section i p q = Some (p', q', es)) \<or>
     (\<exists>cv. notifies_one p = Some (cv, p')) \<or> (\<exists>cv. notifies_all p = Some (cv, p'))"

lemma queue_step_place:
  assumes "queue_step s es t" "i < length (places s)"
  shows "place_step (object s) (places s ! i) (object t) (places t ! i)"
  using assms(1)
proof cases
  case (locked j p q)
  with assms(2) show ?thesis by (cases "i = j") (auto simp: place_step_def)
next
  case (notify j cv p ts)
  let ?us = "(places s)[j := p]"
  have "ts ! i = ?us ! i \<or> waits_on cv (?us ! i) \<and> ts ! i = woken (?us ! i)"
    using notify(5) by cases (auto simp: nth_list_update)
  with assms(2) notify show ?thesis
    using notifier_place(2) [OF notify(4)] by (cases "i = j") (auto simp: place_step_def)
next
  case (broadcast j cv p)
  have "\<not> waits_on cv p" by (rule notifies_all_cases [OF broadcast(4)]) simp_all
  with assms(2) broadcast show ?thesis
    by (cases "i = j") (auto simp: place_step_def notify_all_def)
qed

lemma queue_step_closed:
  assumes "queue_step s es t" "closed (object s)"
  shows "closed (object t) \<and> (queue (object s) = [] \<longrightarrow> queue (object t) = [])"
  using assms(1)
proof cases
  case (locked i p q)
  with assms(2) show ?thesis
    by (cases "places s ! i") (auto simp: push_locked_def pop_locked_def close_locked_def split: if_splits list.splits)
qed (use assms(2) in auto)

section \<open>Coming to rest\<close>

text \<open>
  A weight for each place, so that a step always lowers the sum of the weights and of four for each item:
  a notification may wake a thread, which costs one, and a broadcast may wake them all.
\<close>

fun weight :: "nat \<Rightarrow> 'a Place \<Rightarrow> nat" where
  "weight n (Pushing x) = 7"
| "weight n (Push_waits x) = 6"
| "weight n Pushed = 2"
| "weight n Popping = 5"
| "weight n Pop_waits = 4"
| "weight n (Popped x) = 8"
| "weight n (Pop_returns (Some x)) = 6"
| "weight n Closing = 3 * (n + 2)"
| "weight n Closed_notEmpty = 2 * (n + 2)"
| "weight n Closed_notFull = n + 2"
| "weight n Close_returns = 1"
| "weight n p = 0"

definition weights :: "nat \<Rightarrow> 'a Place list \<Rightarrow> nat" where
  "weights n ts = sum_list (map (weight n) ts)"

definition queue_potential :: "'a Monitor \<Rightarrow> nat" where
  "queue_potential s = 4 * length (queue (object s)) + weights (length (places s)) (places s)"

lemma weights_update:
  "i < length ts \<Longrightarrow> weights n (ts[i := p]) + weight n (ts ! i) = weights n ts + weight n p"
proof (induction ts arbitrary: i)
  case (Cons t ts)
  then show ?case by (cases i) (auto simp: weights_def)
qed simp

lemma weight_woken: "waits_on cv p \<Longrightarrow> weight n (woken p) = Suc (weight n p)"
  by (cases p) simp_all

lemma weights_notify_one:
  assumes "notify_one cv ts us"
  shows "weights n us \<le> Suc (weights n ts)"
  using assms
proof cases
  case (wakes j)
  then show ?thesis using weights_update [OF wakes(2), of n "woken (ts ! j)"] weight_woken [OF wakes(3), of n] by simp
qed simp

lemma weights_notify_all: "weights n (notify_all cv ts) \<le> weights n ts + length ts"
  by (induction ts) (auto simp: notify_all_def weights_def weight_woken)

lemma queue_step_potential:
  assumes "queue_step s es t"
  shows "queue_potential t < queue_potential s"
  using assms
proof cases
  case (locked i p q)
  let ?n = "length (places s)"
  note w = weights_update [OF locked(2), of ?n p]
  from locked(3) have "4 * length (queue q) + weight ?n p < 4 * length (queue (object s)) + weight ?n (places s ! i)"
    by (cases "places s ! i")
      (auto simp: push_locked_def pop_locked_def close_locked_def split: if_splits list.splits)
  with w locked(1) show ?thesis by (simp add: queue_potential_def)
next
  case (notify i cv p ts)
  let ?n = "length (places s)"
  have "Suc (weight ?n p) < weight ?n (places s ! i)" by (rule notifies_one_cases [OF notify(4)]) simp_all
  moreover have "length ts = ?n" using notify(5) by cases simp_all
  ultimately show ?thesis
    using weights_update [OF notify(3), of ?n p] weights_notify_one [OF notify(5), of ?n] notify(2)
    by (simp add: queue_potential_def)
next
  case (broadcast i cv p)
  let ?n = "length (places s)"
  have "?n + weight ?n p < weight ?n (places s ! i)" by (rule notifies_all_cases [OF broadcast(4)]) simp_all
  moreover have "length (notify_all cv ((places s)[i := p])) = ?n" by (simp add: notify_all_def)
  ultimately show ?thesis
    using weights_update [OF broadcast(3), of ?n p] weights_notify_all [of ?n cv "(places s)[i := p]"] broadcast(2)
    by (simp add: queue_potential_def)
qed

interpretation queue_machine: machine queue_step monitor_inv queue_potential
  by unfold_locales (auto intro: queue_step_inv queue_step_potential)

end
