(* ===== verification/Thread_Pool.thy ===== *)
theory Thread_Pool
  imports Blocking_Queue "HOL-Library.Multiset"
begin

text \<open>
  \<open>infra/ThreadPool.hpp\<close>: workers that pop tasks from a blocking queue and run them. The threads are the
  workers, first, and the clients that call \<open>submit\<close> and \<open>shutdown\<close>; their places in the queue's methods
  are those of the queue's monitor. A task is what \<open>submit\<close> makes of a callable: a packaged task with a
  future. Running it is one step on the world the tasks share; the outcome, an exception included, goes
  into the future, so that a worker survives it. A task that the closed queue refuses is destroyed
  without having run, which breaks its promise.
\<close>

section \<open>Tasks and futures\<close>

record ('r, 'w) Task =
  future_id :: nat
  work :: "'w \<Rightarrow> 'r outcome \<times> 'w"

datatype 'r FutureState = Ready "'r outcome" | Broken

text \<open>\<open>std::future::get\<close>: waits for the state, and throws what the task threw.\<close>

definition future_get :: "nat \<Rightarrow> (nat \<rightharpoonup> 'r FutureState) \<Rightarrow> 'r outcome" where
  "future_get f fs = (case fs f of
     None \<Rightarrow> Blocks
   | Some (Ready r) \<Rightarrow> r
   | Some Broken \<Rightarrow> Throws (Logic_error ''broken promise''))"

section \<open>The pool\<close>

record ('r, 'w) ThreadPool =
  tasks :: "('r, 'w) Task Monitor"
  workers :: nat
  stopped :: bool
  futures :: "nat \<rightharpoonup> 'r FutureState"
  promised :: nat
  world :: 'w

definition new_pool :: "nat \<Rightarrow> nat \<Rightarrow> 'w \<Rightarrow> ('r, 'w) ThreadPool" where
  "new_pool ws clients w =
     (let ws = (if ws = 0 then 1 else ws)
      in \<lparr>tasks = \<lparr>object = new_queue 1024, places = replicate ws Popping @ replicate clients Idle\<rparr>,
          workers = ws, stopped = False, futures = Map.empty, promised = 0, world = w\<rparr>)"

definition move :: "nat \<Rightarrow> ('r, 'w) Task Place \<Rightarrow> ('r, 'w) ThreadPool \<Rightarrow> ('r, 'w) ThreadPool" where
  "move i pl p = p\<lparr>tasks := (tasks p)\<lparr>places := (places (tasks p))[i := pl]\<rparr>\<rparr>"

definition place :: "('r, 'w) ThreadPool \<Rightarrow> nat \<Rightarrow> ('r, 'w) Task Place" where
  "place p i = places (tasks p) ! i"

definition pending :: "('r, 'w) ThreadPool \<Rightarrow> nat" where
  "pending p = queue_size (object (tasks p))"

definition pool_size :: "('r, 'w) ThreadPool \<Rightarrow> nat" where
  "pool_size p = workers p"

definition submit :: "nat \<Rightarrow> ('w \<Rightarrow> 'r outcome \<times> 'w) \<Rightarrow> ('r, 'w) ThreadPool \<Rightarrow> nat \<times> ('r, 'w) ThreadPool" where
  "submit i f p =
     (let fut = promised p; task = \<lparr>future_id = fut, work = f\<rparr>
      in (fut, move i (Pushing task) (p\<lparr>promised := promised p + 1\<rparr>)))"

text \<open>One turn of \<open>workerLoop\<close>: run the task in hand, then pop again.\<close>

definition run_task :: "nat \<Rightarrow> ('r, 'w) Task \<Rightarrow> ('r, 'w) ThreadPool \<Rightarrow> ('r, 'w) ThreadPool" where
  "run_task i t p =
     (let (r, w) = work t (world p)
      in move i Popping (p\<lparr>world := w, futures := (futures p)(future_id t \<mapsto> Ready r)\<rparr>))"

text \<open>\<open>shutdown\<close> up to \<open>close\<close>, and the joining of the workers after it.\<close>

definition shutdown :: "nat \<Rightarrow> ('r, 'w) ThreadPool \<Rightarrow> ('r, 'w) ThreadPool" where
  "shutdown i p = (if stopped p then p else move i Closing (p\<lparr>stopped := True\<rparr>))"

definition joinable :: "('r, 'w) ThreadPool \<Rightarrow> bool" where
  "joinable p \<longleftrightarrow> (\<forall>j < workers p. place p j = Pop_returns None)"

text \<open>The last owner of a refused task lets go of it.\<close>

fun abandon :: "('r, 'w) Task QueueEvent \<Rightarrow> (nat \<rightharpoonup> 'r FutureState) \<Rightarrow> nat \<rightharpoonup> 'r FutureState" where
  "abandon (Refused i t) fs = fs(future_id t \<mapsto> Broken)"
| "abandon e fs = fs"

datatype ('r, 'w) PoolEvent =
    Submitted nat "('r, 'w) Task"
  | Queue_event "('r, 'w) Task QueueEvent"
  | Ran nat "('r, 'w) Task"

inductive pool_step :: "('r, 'w) ThreadPool \<Rightarrow> ('r, 'w) PoolEvent list \<Rightarrow> ('r, 'w) ThreadPool \<Rightarrow> bool" where
  in_queue: "queue_step (tasks p) es m \<Longrightarrow>
     pool_step p (map Queue_event es) (p\<lparr>tasks := m, futures := fold abandon es (futures p)\<rparr>)"
| run: "i < workers p \<Longrightarrow> place p i = Pop_returns (Some t) \<Longrightarrow> pool_step p [Ran i t] (run_task i t p)"
| join: "workers p \<le> i \<Longrightarrow> i < length (places (tasks p)) \<Longrightarrow> place p i = Close_returns \<Longrightarrow> joinable p \<Longrightarrow>
     pool_step p [] (move i Idle p)"

text \<open>What clients do, when they are not in a call, and spurious wakeups.\<close>

fun free :: "'a Place \<Rightarrow> bool" where
  "free Idle = True"
| "free (Push_returns b) = True"
| "free p = False"

inductive pool_call :: "('r, 'w) ThreadPool \<Rightarrow> ('r, 'w) PoolEvent list \<Rightarrow> ('r, 'w) ThreadPool \<Rightarrow> bool" where
  submits: "workers p \<le> i \<Longrightarrow> i < length (places (tasks p)) \<Longrightarrow> free (place p i) \<Longrightarrow> submit i f p = (fut, q) \<Longrightarrow>
     pool_call p [Submitted i \<lparr>future_id = fut, work = f\<rparr>] q"
| shuts_down: "workers p \<le> i \<Longrightarrow> i < length (places (tasks p)) \<Longrightarrow> free (place p i) \<Longrightarrow>
     pool_call p [] (shutdown i p)"
| wakes_up: "spurious (tasks p) m \<Longrightarrow> pool_call p [] (p\<lparr>tasks := m\<rparr>)"

inductive pool_run :: "('r, 'w) ThreadPool \<Rightarrow> ('r, 'w) PoolEvent list \<Rightarrow> ('r, 'w) ThreadPool \<Rightarrow> bool" for p where
  start: "pool_run p [] p"
| step: "pool_run p es q \<Longrightarrow> pool_step q fs r \<Longrightarrow> pool_run p (es @ fs) r"
| call: "pool_run p es q \<Longrightarrow> pool_call q fs r \<Longrightarrow> pool_run p (es @ fs) r"

inductive_cases pool_stepE: "pool_step p es q"
inductive_cases pool_callE: "pool_call p es q"

lemma move_sel [simp]:
  "object (tasks (move i pl p)) = object (tasks p)" "places (tasks (move i pl p)) = (places (tasks p))[i := pl]"
  "workers (move i pl p) = workers p" "stopped (move i pl p) = stopped p" "futures (move i pl p) = futures p"
  "promised (move i pl p) = promised p" "world (move i pl p) = world p"
  by (simp_all add: move_def)

section \<open>The invariant\<close>

fun worker_place :: "'a BlockingQueue \<Rightarrow> 'a Place \<Rightarrow> bool" where
  "worker_place q Popping = True"
| "worker_place q Pop_waits = True"
| "worker_place q (Popped t) = True"
| "worker_place q (Pop_returns (Some t)) = True"
| "worker_place q (Pop_returns None) = (closed q \<and> queue q = [])"
| "worker_place q p = False"

text \<open>A client pushes, or shuts down after \<open>stopped\<close> has been set.\<close>

fun client_place :: "bool \<Rightarrow> 'a Place \<Rightarrow> bool" where
  "client_place st Idle = True"
| "client_place st (Pushing t) = True"
| "client_place st (Push_waits t) = True"
| "client_place st Pushed = True"
| "client_place st (Push_returns b) = True"
| "client_place st Closing = st"
| "client_place st Closed_notEmpty = st"
| "client_place st Closed_notFull = st"
| "client_place st Close_returns = st"
| "client_place st p = False"

definition pool_inv :: "('r, 'w) ThreadPool \<Rightarrow> bool" where
  "pool_inv p \<longleftrightarrow> monitor_inv (tasks p) \<and> capacity (object (tasks p)) = 1024 \<and>
     0 < workers p \<and> workers p \<le> length (places (tasks p)) \<and>
     (\<forall>i < workers p. worker_place (object (tasks p)) (place p i)) \<and>
     (\<forall>i. workers p \<le> i \<and> i < length (places (tasks p)) \<longrightarrow> client_place (stopped p) (place p i)) \<and>
     (stopped p \<longrightarrow> closed (object (tasks p)) \<or> Closing \<in> set (places (tasks p)))"

lemma kept_by_update: "x \<in> set ts \<Longrightarrow> ts ! i \<noteq> x \<Longrightarrow> x \<in> set (ts[i := y])"
  by (metis in_set_conv_nth length_list_update nth_list_update_neq)

lemma worker_place_step:
  assumes "worker_place q pl" "place_step q pl q' pl'" "closed q \<Longrightarrow> closed q' \<and> (queue q = [] \<longrightarrow> queue q' = [])"
  shows "worker_place q' pl'"
  using assms
  by (cases "(q, pl)" rule: worker_place.cases)
    (auto simp: place_step_def pop_locked_def split: if_splits list.splits)

lemma client_place_step:
  assumes "client_place st pl" "place_step q pl q' pl'"
  shows "client_place st pl'"
  using assms
  by (cases pl) (auto simp: place_step_def push_locked_def close_locked_def split: if_splits)

lemma in_queue_inv:
  assumes inv: "pool_inv p" and st: "queue_step (tasks p) es m"
  shows "pool_inv (p\<lparr>tasks := m, futures := fs\<rparr>)"
proof -
  note ch = queue_step_channel [OF st] and pl = queue_step_place [OF st] and cl = queue_step_closed [OF st]
  have "worker_place (object m) (places m ! i)" if "i < workers p" for i
  proof -
    have "worker_place (object (tasks p)) (places (tasks p) ! i)" "i < length (places (tasks p))"
      using inv that by (auto simp: pool_inv_def place_def)
    with worker_place_step [OF _ pl cl] show ?thesis by blast
  qed
  moreover have "client_place (stopped p) (places m ! i)" if "workers p \<le> i" "i < length (places m)" for i
  proof -
    have "client_place (stopped p) (places (tasks p) ! i)" "i < length (places (tasks p))"
      using inv that ch by (auto simp: pool_inv_def place_def)
    with client_place_step [OF _ pl] show ?thesis by blast
  qed
  moreover have "closed (object m) \<or> Closing \<in> set (places m)" if "stopped p"
  proof (cases "closed (object (tasks p))")
    case True
    with cl show ?thesis by blast
  next
    case False
    with inv that obtain i where i: "i < length (places (tasks p))" "places (tasks p) ! i = Closing"
      unfolding pool_inv_def in_set_conv_nth by blast
    from pl [OF i(1)] have "places m ! i = Closing \<or> closed (object m)"
      unfolding i(2) by (auto simp: place_step_def close_locked_def dest: arg_cong [where f = closed])
    with i(1) ch show ?thesis by (metis nth_mem)
  qed
  ultimately show ?thesis
    using inv queue_step_inv [OF st] ch by (simp add: pool_inv_def place_def)
qed

text \<open>A thread moves from one place to another outside the queue's methods.\<close>

lemma move_inv:
  assumes inv: "pool_inv p" and i: "i < length (places (tasks p))" "idle (place p i)" "entry pl \<or> pl = Idle"
    and w: "i < workers p \<Longrightarrow> worker_place (object (tasks p)) pl" and c: "workers p \<le> i \<Longrightarrow> client_place (stopped p) pl"
  shows "pool_inv (move i pl p)"
proof -
  have m: "monitor_inv (tasks (move i pl p))"
  proof -
    have "fits (object (tasks p)) (places (tasks p))" "\<And>cv. served 0 cv (object (tasks p)) (places (tasks p))"
      using inv by (auto simp: pool_inv_def monitor_inv_def)
    moreover have "idle (places (tasks p) ! i)" using i(2) by (simp add: place_def)
    ultimately show ?thesis
      using enter_inv [OF i(1)] leave_inv [OF i(1)] i(3) by (auto simp: monitor_inv_def)
  qed
  have "Closing \<in> set ((places (tasks p))[i := pl])" if "Closing \<in> set (places (tasks p))"
    by (rule kept_by_update [OF that]) (use i(2) in \<open>auto simp: place_def\<close>)
  moreover have "worker_place (object (tasks p)) (place (move i pl p) j)" if "j < workers p" for j
    using inv w that i(1) by (cases "j = i") (simp_all add: pool_inv_def place_def)
  moreover have "client_place (stopped p) (place (move i pl p) j)" if "workers p \<le> j" "j < length (places (tasks p))" for j
    using inv c that i(1) by (cases "j = i") (simp_all add: pool_inv_def place_def)
  ultimately show ?thesis
    using inv m by (auto simp: pool_inv_def)
qed

lemma run_task_eq:
  "run_task i t p = move i Popping (p\<lparr>world := snd (work t (world p)),
     futures := (futures p)(future_id t \<mapsto> Ready (fst (work t (world p))))\<rparr>)"
  by (simp add: run_task_def split: prod.split)

text \<open>The invariant reads the queue, the workers and the flag only.\<close>

lemma pool_inv_frame:
  "tasks q = tasks p \<Longrightarrow> workers q = workers p \<Longrightarrow> stopped q = stopped p \<Longrightarrow> pool_inv p \<Longrightarrow> pool_inv q"
  by (simp add: pool_inv_def place_def)

lemma pool_step_inv:
  assumes "pool_step p es q" "pool_inv p"
  shows "pool_inv q"
  using assms(1)
proof cases
  case (in_queue es m)
  then show ?thesis using in_queue_inv [OF assms(2)] by simp
next
  case (run i t)
  let ?p = "p\<lparr>world := snd (work t (world p)), futures := (futures p)(future_id t \<mapsto> Ready (fst (work t (world p))))\<rparr>"
  have "pool_inv ?p" by (rule pool_inv_frame [OF _ _ _ assms(2)]) simp_all
  then show ?thesis
    unfolding run(2) run_task_eq
    by (rule move_inv) (use run(3,4) assms(2) in \<open>auto simp: pool_inv_def place_def\<close>)
next
  case (join i)
  then show ?thesis using move_inv [OF assms(2) join(4), of Idle] by simp
qed

lemma client_place_stopped: "client_place st pl \<Longrightarrow> client_place True pl"
  by (cases pl) simp_all

lemma pool_call_inv:
  assumes "pool_call p es q" "pool_inv p"
  shows "pool_inv q"
  using assms(1)
proof cases
  case (submits i f fut)
  have idle: "idle (place p i)" using submits(4) by (cases "place p i") simp_all
  have "pool_inv (p\<lparr>promised := promised p + 1\<rparr>)" by (rule pool_inv_frame [OF _ _ _ assms(2)]) simp_all
  moreover have "q = move i (Pushing \<lparr>future_id = promised p, work = f\<rparr>) (p\<lparr>promised := promised p + 1\<rparr>)"
    using submits(5) by (auto simp: submit_def Let_def)
  ultimately show ?thesis
    using submits(2,3) idle by (auto simp: place_def intro!: move_inv)
next
  case (shuts_down i)
  show ?thesis
  proof (cases "stopped p")
    case False
    let ?p = "p\<lparr>stopped := True\<rparr>"
    have idle: "idle (place p i)" using shuts_down(5) by (cases "place p i") simp_all
    have i: "i < length (places (tasks p))" using shuts_down(4) .
    have "Closing \<in> set ((places (tasks p))[i := Closing])" using i by (simp add: set_update_memI)
    moreover have "fits (object (tasks p)) ((places (tasks p))[i := Closing])"
      "\<And>cv. served 0 cv (object (tasks p)) ((places (tasks p))[i := Closing])"
      using assms(2) enter_inv [OF i] idle by (auto simp: pool_inv_def monitor_inv_def place_def)
    ultimately show ?thesis
      using assms(2) shuts_down False i
      by (auto simp: shutdown_def pool_inv_def monitor_inv_def place_def nth_list_update
          intro: client_place_stopped [where st = False])
  qed (use shuts_down assms(2) in \<open>simp add: shutdown_def\<close>)
next
  case (wakes_up m)
  from wakes_up(3) show ?thesis
  proof cases
    case (wake i cv)
    let ?ts = "places (tasks p)"
    have w: "worker_place (object (tasks p)) (places m ! j)" if "j < workers p" for j
    proof -
      have "worker_place (object (tasks p)) (?ts ! j)" using assms(2) that by (simp add: pool_inv_def place_def)
      with wake show ?thesis by (cases "j = i"; cases "?ts ! i") simp_all
    qed
    have c: "client_place (stopped p) (places m ! j)" if "workers p \<le> j" "j < length ?ts" for j
    proof -
      have "client_place (stopped p) (?ts ! j)" using assms(2) that by (simp add: pool_inv_def place_def)
      with wake show ?thesis by (cases "j = i"; cases "?ts ! i") simp_all
    qed
    have "Closing \<in> set (places m)" if "Closing \<in> set ?ts"
      unfolding wake(1) by (simp, rule kept_by_update [OF that]) (use wake(3) in auto)
    with assms(2) spurious_inv [OF wakes_up(3)] w c show ?thesis
      unfolding wakes_up(2) pool_inv_def place_def by (simp add: wake(1), blast)
  qed
qed

lemma new_pool_inv: "pool_inv (new_pool ws clients w)"
  by (auto simp: pool_inv_def new_pool_def Let_def place_def nth_append monitor_inv_def fits_def served_def
      new_queue_def count_places_def all_CondVar)

lemma pool_run_inv: "pool_run p es q \<Longrightarrow> pool_inv p \<Longrightarrow> pool_inv q"
  by (induction rule: pool_run.induct) (auto intro: pool_step_inv pool_call_inv)

section \<open>Where the tasks are\<close>

fun submitted :: "('r, 'w) PoolEvent list \<Rightarrow> ('r, 'w) Task list" where
  "submitted [] = []"
| "submitted (Submitted i t # es) = t # submitted es"
| "submitted (e # es) = submitted es"

fun ran :: "('r, 'w) PoolEvent list \<Rightarrow> ('r, 'w) Task list" where
  "ran [] = []"
| "ran (Ran i t # es) = t # ran es"
| "ran (e # es) = ran es"

fun queue_events :: "('r, 'w) PoolEvent list \<Rightarrow> ('r, 'w) Task QueueEvent list" where
  "queue_events [] = []"
| "queue_events (Queue_event e # es) = e # queue_events es"
| "queue_events (e # es) = queue_events es"

fun turned_away :: "('r, 'w) Task QueueEvent list \<Rightarrow> ('r, 'w) Task list" where
  "turned_away [] = []"
| "turned_away (Refused i t # es) = t # turned_away es"
| "turned_away (e # es) = turned_away es"

definition refused :: "('r, 'w) PoolEvent list \<Rightarrow> ('r, 'w) Task list" where
  "refused es = turned_away (queue_events es)"

lemma event_append [simp]:
  "submitted (es @ fs) = submitted es @ submitted fs" "ran (es @ fs) = ran es @ ran fs"
  "queue_events (es @ fs) = queue_events es @ queue_events fs"
  by (induction es rule: submitted.induct; simp)+

lemma turned_away_append [simp]: "turned_away (es @ fs) = turned_away es @ turned_away fs"
  by (induction es rule: turned_away.induct) simp_all

lemma refused_append [simp]: "refused (es @ fs) = refused es @ refused fs"
  by (simp add: refused_def)

lemma map_Queue_event [simp]:
  "submitted (map Queue_event es) = []" "ran (map Queue_event es) = []" "queue_events (map Queue_event es) = es"
  "refused (map Queue_event es) = turned_away es"
  by (induction es) (simp_all add: refused_def)

text \<open>Tasks that a client is about to push, and tasks that a worker has popped.\<close>

fun offers :: "'a Place \<Rightarrow> 'a list" where
  "offers (Pushing t) = [t]"
| "offers (Push_waits t) = [t]"
| "offers p = []"

fun holds :: "'a Place \<Rightarrow> 'a list" where
  "holds (Popped t) = [t]"
| "holds (Pop_returns (Some t)) = [t]"
| "holds p = []"

definition offered :: "'a Monitor \<Rightarrow> 'a list" where
  "offered m = concat (map offers (places m))"

definition in_hand :: "'a Monitor \<Rightarrow> 'a list" where
  "in_hand m = concat (map holds (places m))"

lemma mset_concat_update:
  "i < length ts \<Longrightarrow> mset (concat (map f (ts[i := x]))) + mset (f (ts ! i)) = mset (concat (map f ts)) + mset (f x)"
proof (induction ts arbitrary: i)
  case (Cons t ts)
  then show ?case by (cases i) (simp_all add: ac_simps)
qed simp

lemma woken_tasks: "waits_on cv p \<Longrightarrow> offers (woken p) = offers p \<and> holds (woken p) = holds p"
  by (cases p) simp_all

lemma concat_update_same:
  assumes "i < length ts" "f x = f (ts ! i)"
  shows "mset (concat (map f (ts[i := x]))) = mset (concat (map f ts))"
  using mset_concat_update [OF assms(1), of f x] assms(2) by simp

lemma notify_one_tasks:
  assumes "notify_one cv ts us"
  shows "mset (concat (map offers us)) = mset (concat (map offers ts))" "mset (concat (map holds us)) = mset (concat (map holds ts))"
  using assms
proof -
  have "mset (concat (map offers us)) = mset (concat (map offers ts)) \<and> mset (concat (map holds us)) = mset (concat (map holds ts))"
    using assms
  proof cases
    case (wakes j)
    with woken_tasks [OF wakes(3)] concat_update_same [OF wakes(2), of offers] concat_update_same [OF wakes(2), of holds]
    show ?thesis by simp
  qed simp
  then show "mset (concat (map offers us)) = mset (concat (map offers ts))" "mset (concat (map holds us)) = mset (concat (map holds ts))"
    by blast+
qed

lemma notify_all_tasks:
  "concat (map offers (notify_all cv ts)) = concat (map offers ts)" "concat (map holds (notify_all cv ts)) = concat (map holds ts)"
  by (induction ts) (auto simp: notify_all_def woken_tasks)

lemma locked_tasks:
  assumes "locked_section i p q = Some (p', q', es)"
  shows "offers p = offers p' @ enqueued es @ turned_away es" "holds p' = holds p @ dequeued es"
  using assms
  by (cases p; auto simp: push_locked_def pop_locked_def close_locked_def split: if_splits list.splits)+

lemma queue_step_tasks:
  assumes "queue_step s es t"
  shows "mset (offered s) = mset (offered t) + mset (enqueued es) + mset (turned_away es)"
    and "mset (in_hand t) = mset (in_hand s) + mset (dequeued es)"
proof -
  have "mset (offered s) = mset (offered t) + mset (enqueued es) + mset (turned_away es) \<and>
    mset (in_hand t) = mset (in_hand s) + mset (dequeued es)"
    using assms
  proof cases
    case (locked i p q)
    note o = mset_concat_update [OF locked(2), of offers p] and h = mset_concat_update [OF locked(2), of holds p]
    from o h locked_tasks [OF locked(3)] locked(1) show ?thesis by (simp add: offered_def in_hand_def ac_simps)
  next
    case (notify i cv p ts)
    have same: "offers p = offers (places s ! i)" "holds p = holds (places s ! i)"
      by (rule notifies_one_cases [OF notify(4)]; simp)+
    from notify_one_tasks [OF notify(5)] concat_update_same [OF notify(3) same(1)] concat_update_same [OF notify(3) same(2)]
      notify(1,2) show ?thesis by (simp add: offered_def in_hand_def)
  next
    case (broadcast i cv p)
    have same: "offers p = offers (places s ! i)" "holds p = holds (places s ! i)"
      by (rule notifies_all_cases [OF broadcast(4)]; simp)+
    from concat_update_same [OF broadcast(3) same(1)] concat_update_same [OF broadcast(3) same(2)]
      broadcast(1,2) show ?thesis by (simp add: offered_def in_hand_def notify_all_tasks)
  qed
  then show "mset (offered s) = mset (offered t) + mset (enqueued es) + mset (turned_away es)"
    "mset (in_hand t) = mset (in_hand s) + mset (dequeued es)" by blast+
qed

text \<open>Every task handed in is in exactly one place.\<close>

definition accounted :: "('r, 'w) PoolEvent list \<Rightarrow> ('r, 'w) ThreadPool \<Rightarrow> bool" where
  "accounted es p \<longleftrightarrow>
     map future_id (submitted es) = [0..<promised p] \<and>
     mset (submitted es) = mset (offered (tasks p)) + mset (refused es) + mset (queue (object (tasks p))) +
       mset (in_hand (tasks p)) + mset (ran es)"

lemma holder_is_worker:
  assumes "pool_inv p" "i < length (places (tasks p))" "holds (place p i) \<noteq> []"
  shows "i < workers p"
proof (rule ccontr)
  assume "\<not> i < workers p"
  with assms(1,2) have "client_place (stopped p) (place p i)" by (simp add: pool_inv_def)
  with assms(3) show False by (cases "place p i") auto
qed

lemma free_place: "free pl \<Longrightarrow> offers pl = [] \<and> holds pl = [] \<and> idle pl"
  by (cases pl) simp_all

lemma submit_eq: "submit i f p = (promised p, move i (Pushing \<lparr>future_id = promised p, work = f\<rparr>) (p\<lparr>promised := promised p + 1\<rparr>))"
  by (simp add: submit_def Let_def)

text \<open>A worker that has run its task holds one task less.\<close>

lemma run_task_tasks:
  assumes "i < length (places (tasks p))" "place p i = Pop_returns (Some t)"
  shows "mset (in_hand (tasks p)) = add_mset t (mset (in_hand (tasks (run_task i t p))))"
    and "mset (offered (tasks (run_task i t p))) = mset (offered (tasks p))"
  using mset_concat_update [OF assms(1), of holds Popping] concat_update_same [OF assms(1), of offers Popping] assms(2)
  by (simp_all add: run_task_eq in_hand_def offered_def place_def)

lemma move_tasks:
  assumes "i < length (places (tasks p))" "holds pl = holds (place p i)"
  shows "mset (in_hand (tasks (move i pl p))) = mset (in_hand (tasks p))"
  using concat_update_same [OF assms(1), of holds pl] assms(2) by (simp add: in_hand_def place_def)

lemma pool_step_accounted:
  assumes "pool_step p fs q" "pool_inv p" "accounted es p"
  shows "accounted (es @ fs) q"
  using assms(1)
proof cases
  case (in_queue gs m)
  have "mset (queue (object (tasks p))) + mset (enqueued gs) = mset (dequeued gs) + mset (queue (object m))"
    using queue_step_fifo [OF in_queue(3)] by (metis mset_append)
  with assms(3) in_queue queue_step_tasks [OF in_queue(3)] show ?thesis by (simp add: accounted_def ac_simps)
next
  case (run i t)
  have i: "i < length (places (tasks p))" using run(3) assms(2) by (simp add: pool_inv_def)
  from assms(3) run(1,2) run_task_tasks [OF i run(4)] show ?thesis
    by (simp add: accounted_def refused_def) (simp add: run_task_eq)
next
  case (join i)
  have "mset (concat (map offers ((places (tasks p))[i := Idle]))) = mset (concat (map offers (places (tasks p))))"
    "mset (concat (map holds ((places (tasks p))[i := Idle]))) = mset (concat (map holds (places (tasks p))))"
    by (rule concat_update_same [OF join(4)]; use join(5) in \<open>simp add: place_def\<close>)+
  with assms(3) join(1,2) show ?thesis by (simp add: accounted_def offered_def in_hand_def)
qed

lemma pool_call_accounted:
  assumes "pool_call p fs q" "accounted es p"
  shows "accounted (es @ fs) q"
  using assms(1)
proof cases
  case (submits i f fut)
  let ?t = "\<lparr>future_id = promised p, work = f\<rparr>"
  note fr = free_place [OF submits(4)]
  have "mset (concat (map offers ((places (tasks p))[i := Pushing ?t]))) = add_mset ?t (mset (concat (map offers (places (tasks p)))))"
    using mset_concat_update [OF submits(3), of offers "Pushing ?t"] fr by (simp add: place_def)
  moreover have "mset (concat (map holds ((places (tasks p))[i := Pushing ?t]))) = mset (concat (map holds (places (tasks p))))"
    by (rule concat_update_same [OF submits(3)]) (use fr in \<open>simp add: place_def\<close>)
  ultimately show ?thesis
    using assms(2) submits(1,5) by (auto simp: accounted_def submit_eq offered_def in_hand_def refused_def)
next
  case (shuts_down i)
  note fr = free_place [OF shuts_down(5)]
  have "mset (concat (map offers ((places (tasks p))[i := Closing]))) = mset (concat (map offers (places (tasks p))))"
    "mset (concat (map holds ((places (tasks p))[i := Closing]))) = mset (concat (map holds (places (tasks p))))"
    by (rule concat_update_same [OF shuts_down(4)]; use fr in \<open>simp add: place_def\<close>)+
  with assms(2) shuts_down(1,2) show ?thesis by (simp add: accounted_def shutdown_def offered_def in_hand_def)
next
  case (wakes_up m)
  from wakes_up(3) show ?thesis
  proof cases
    case (wake i cv)
    from woken_tasks [OF wake(3)]
    have "mset (concat (map offers (places m))) = mset (concat (map offers (places (tasks p))))"
      "mset (concat (map holds (places m))) = mset (concat (map holds (places (tasks p))))"
      unfolding wake(1) by (simp_all add: concat_update_same [OF wake(2)])
    with assms(2) wakes_up(1,2) wake(1) show ?thesis by (simp add: accounted_def offered_def in_hand_def)
  qed
qed

lemma new_pool_accounted: "accounted [] (new_pool ws clients w)"
  by (simp add: accounted_def new_pool_def Let_def new_queue_def offered_def in_hand_def refused_def map_replicate
      concat_replicate_trivial)

lemma pool_run_accounted:
  assumes "pool_run (new_pool ws clients w) es p"
  shows "accounted es p"
  using assms
proof (induction rule: pool_run.induct)
  case start
  show ?case by (rule new_pool_accounted)
next
  case (step es q fs r)
  then show ?case using pool_step_accounted [OF step(2) pool_run_inv [OF step(1) new_pool_inv]] by blast
next
  case (call es q fs r)
  then show ?case using pool_call_accounted by blast
qed

text \<open>Hence no task runs twice, and none both runs and is refused.\<close>

lemma accounted_distinct:
  assumes "accounted es p"
  shows "distinct (map future_id (offered (tasks p) @ refused es @ queue (object (tasks p)) @ in_hand (tasks p) @ ran es))"
proof -
  have "mset (offered (tasks p) @ refused es @ queue (object (tasks p)) @ in_hand (tasks p) @ ran es) = mset (submitted es)"
    using assms by (simp add: accounted_def ac_simps)
  then have "mset (map future_id (offered (tasks p) @ refused es @ queue (object (tasks p)) @ in_hand (tasks p) @ ran es)) =
      mset (map future_id (submitted es))"
    by (metis mset_map)
  moreover have "distinct (map future_id (submitted es))" using assms by (simp add: accounted_def)
  ultimately show ?thesis by (metis mset_eq_imp_distinct_iff)
qed

section \<open>What the futures hold\<close>

text \<open>The outcomes and the world when tasks run one after the other.\<close>

fun run_all :: "('r, 'w) Task list \<Rightarrow> 'w \<Rightarrow> (nat \<times> 'r outcome) list \<times> 'w" where
  "run_all [] w = ([], w)"
| "run_all (t # ts) w =
     (let (r, w1) = work t w; (rs, w2) = run_all ts w1 in ((future_id t, r) # rs, w2))"

lemma run_all_snoc:
  "run_all (ts @ [t]) w =
     (let (rs, w1) = run_all ts w; (r, w2) = work t w1 in (rs @ [(future_id t, r)], w2))"
  by (induction ts arbitrary: w) (simp_all split: prod.splits)

lemma run_all_ids: "map fst (fst (run_all ts w)) = map future_id ts"
  by (induction ts arbitrary: w) (simp_all add: split_beta Let_def)

definition futures_of :: "('r, 'w) Task list \<Rightarrow> ('r, 'w) Task list \<Rightarrow> 'w \<Rightarrow> nat \<rightharpoonup> 'r FutureState" where
  "futures_of rans refs w f =
     (if f \<in> future_id ` set refs then Some Broken
      else map_option Ready (map_of (fst (run_all rans w)) f))"

definition fulfilled :: "'w \<Rightarrow> ('r, 'w) PoolEvent list \<Rightarrow> ('r, 'w) ThreadPool \<Rightarrow> bool" where
  "fulfilled w es p \<longleftrightarrow> world p = snd (run_all (ran es) w) \<and> futures p = futures_of (ran es) (refused es) w"

lemma fold_abandon:
  "fold abandon es fs = (\<lambda>f. if f \<in> future_id ` set (turned_away es) then Some Broken else fs f)"
proof (induction es arbitrary: fs)
  case (Cons e es)
  then show ?case by (cases e) (auto simp: fun_eq_iff)
qed simp

lemma pool_step_fulfilled:
  assumes "pool_step p fs q" "accounted (es @ fs) q" "fulfilled w es p"
  shows "fulfilled w (es @ fs) q"
  using assms(1)
proof cases
  case (in_queue gs m)
  with assms(3) show ?thesis
    by (auto simp: fulfilled_def futures_of_def fold_abandon image_Un fun_eq_iff)
next
  case (run i t)
  have "future_id t \<notin> future_id ` set (refused es)" "future_id t \<notin> future_id ` set (ran es)"
    using accounted_distinct [OF assms(2)] run(1) by (auto simp: refused_def)
  then have "map_of (fst (run_all (ran es) w)) (future_id t) = None"
    by (metis map_of_eq_None_iff list.set_map run_all_ids)
  with \<open>future_id t \<notin> future_id ` set (refused es)\<close> assms(3) run(1,2) show ?thesis
    by (auto simp: fulfilled_def futures_of_def run_task_eq run_all_snoc refused_def map_add_def fun_eq_iff
        split: prod.splits option.splits)
next
  case (join i)
  with assms(3) show ?thesis by (simp add: fulfilled_def)
qed

lemma pool_call_fulfilled:
  assumes "pool_call p fs q" "fulfilled w es p"
  shows "fulfilled w (es @ fs) q"
  using assms(1)
proof cases
  case (submits i f fut)
  then have "world q = world p" "futures q = futures p" by (auto simp: submit_eq)
  with assms(2) submits(1) show ?thesis by (simp add: fulfilled_def refused_def)
next
  case (shuts_down i)
  with assms(2) show ?thesis by (simp add: fulfilled_def shutdown_def)
next
  case (wakes_up m)
  with assms(2) show ?thesis by (simp add: fulfilled_def)
qed

lemma pool_run_fulfilled:
  assumes "pool_run (new_pool ws clients w) es p"
  shows "fulfilled w es p"
  using assms
proof (induction rule: pool_run.induct)
  case start
  show ?case by (simp add: fulfilled_def futures_of_def new_pool_def Let_def refused_def fun_eq_iff)
next
  case (step es q fs r)
  then show ?case
    using pool_step_fulfilled [OF step(2)] pool_run_accounted [OF pool_run.step [OF step(1,2)]] by blast
next
  case (call es q fs r)
  show ?case by (rule pool_call_fulfilled [OF call(2,3)])
qed

section \<open>Coming to rest\<close>

definition pool_potential :: "('r, 'w) ThreadPool \<Rightarrow> nat" where
  "pool_potential p = queue_potential (tasks p)"

lemma pool_step_potential:
  assumes "pool_inv p" "pool_step p es q"
  shows "pool_potential q < pool_potential p"
  using assms(2)
proof cases
  case (in_queue es m)
  with queue_step_potential [OF in_queue(3)] show ?thesis by (simp add: pool_potential_def)
next
  case (run i t)
  have i: "i < length (places (tasks p))" using run(3) assms(1) by (simp add: pool_inv_def)
  from weights_update [OF i, of "length (places (tasks p))" Popping] run(2,4) show ?thesis
    by (simp add: pool_potential_def queue_potential_def run_task_eq place_def)
next
  case (join i)
  from weights_update [OF join(4), of "length (places (tasks p))" Idle] join(2,5) show ?thesis
    by (simp add: pool_potential_def queue_potential_def place_def)
qed

interpretation pool_machine: machine pool_step pool_inv pool_potential
  by unfold_locales (auto intro: pool_step_inv pool_step_potential)

lemma at_rest_pool:
  assumes "at_rest pool_step p"
  shows "at_rest queue_step (tasks p)" "i < workers p \<Longrightarrow> place p i \<noteq> Pop_returns (Some t)"
    "joinable p \<Longrightarrow> workers p \<le> i \<Longrightarrow> i < length (places (tasks p)) \<Longrightarrow> place p i \<noteq> Close_returns"
  using assms unfolding at_rest_def by (meson pool_step.intros)+

text \<open>
  A pool that can do no more has nothing in hand or queued, no client is blocked, and if it was shut down
  its workers have ended.
\<close>

lemma pool_rests:
  assumes inv: "pool_inv p" and rest: "at_rest pool_step p"
  shows "queue (object (tasks p)) = []" "in_hand (tasks p) = []" "offered (tasks p) = []"
    and "workers p \<le> i \<Longrightarrow> i < length (places (tasks p)) \<Longrightarrow> free (place p i)"
    and "stopped p \<Longrightarrow> joinable p"
proof -
  let ?m = "tasks p"
  have quiet: "quiet ?m" using at_rest_pool(1) [OF rest] by (simp add: quiet_iff)
  have mi: "monitor_inv ?m" using inv by (simp add: pool_inv_def)
  note wait = quiet_waiters [OF mi quiet]
  have len: "workers p \<le> length (places ?m)" using inv by (simp add: pool_inv_def)
  have at: "idle (place p i) \<or> waits_on NotEmpty (place p i) \<or> waits_on NotFull (place p i)"
    if "i < length (places ?m)" for i
    using quiet nth_mem [OF that] unfolding quiet_def place_def by blast
  have worker: "place p i = Pop_waits \<and> queue (object ?m) = [] \<and> \<not> closed (object ?m) \<or>
      place p i = Pop_returns None \<and> queue (object ?m) = [] \<and> closed (object ?m)" if i: "i < workers p" for i
  proof -
    have l: "i < length (places ?m)" using i len by simp
    have "worker_place (object ?m) (place p i)" using inv i by (simp add: pool_inv_def)
    moreover have "place p i = Pop_waits \<Longrightarrow> queue (object ?m) = [] \<and> \<not> closed (object ?m)"
      using wait(1) nth_mem [OF l] unfolding place_def by simp
    ultimately show ?thesis
      using at [OF l] at_rest_pool(2) [OF rest i] by (cases "(object ?m, place p i)" rule: worker_place.cases) auto
  qed
  have "0 < workers p" using inv by (simp add: pool_inv_def)
  from worker [OF this] show q: "queue (object ?m) = []" by blast
  have stopped: "joinable p" if "stopped p"
  proof -
    have "Closing \<notin> set (places ?m)" using quiet unfolding quiet_def by force
    with inv that have "closed (object ?m)" by (auto simp: pool_inv_def)
    with worker show ?thesis by (auto simp: joinable_def)
  qed
  then show "stopped p \<Longrightarrow> joinable p" .
  have client: "free (place p i)" if i: "workers p \<le> i" "i < length (places ?m)" for i
  proof -
    have c: "client_place (stopped p) (place p i)" using inv i by (simp add: pool_inv_def)
    have "place p i \<noteq> Push_waits t" for t
    proof
      assume "place p i = Push_waits t"
      then have "isFullLocked (object ?m)" using wait(2) nth_mem [OF i(2)] unfolding place_def by metis
      with q inv show False by (simp add: isFullLocked_def pool_inv_def)
    qed
    moreover have "place p i \<noteq> Close_returns" if "stopped p"
      using at_rest_pool(3) [OF rest stopped [OF that] i] .
    ultimately show ?thesis using at [OF i(2)] c by (cases "place p i") auto
  qed
  then show "workers p \<le> i \<Longrightarrow> i < length (places ?m) \<Longrightarrow> free (place p i)" .
  have "offers (place p i) = [] \<and> holds (place p i) = []" if "i < length (places ?m)" for i
  proof (cases "i < workers p")
    case True
    with worker show ?thesis by fastforce
  next
    case False
    with client that free_place [of "place p i"] show ?thesis by simp
  qed
  then show "in_hand ?m = []" "offered ?m = []"
    by (auto simp: in_hand_def offered_def place_def in_set_conv_nth)
qed

lemma rested_futures:
  assumes "pool_run (new_pool ws clients w) es p" "at_rest pool_step p"
  shows "mset (submitted es) = mset (refused es) + mset (ran es)" and "f < promised p \<Longrightarrow> futures p f \<noteq> None"
proof -
  have inv: "pool_inv p" by (rule pool_run_inv [OF assms(1) new_pool_inv])
  note a = pool_run_accounted [OF assms(1)]
  show m: "mset (submitted es) = mset (refused es) + mset (ran es)"
    using a pool_rests(1-3) [OF inv assms(2)] by (simp add: accounted_def)
  assume "f < promised p"
  then have "f \<in> set (map future_id (submitted es))" using a by (simp add: accounted_def)
  then have "f \<in> future_id ` (set (refused es) \<union> set (ran es))"
    using m by (metis image_set set_mset_mset set_mset_union)
  moreover have "map_of (fst (run_all (ran es) w)) f \<noteq> None" if "f \<in> future_id ` set (ran es)"
    using that by (metis map_of_eq_None_iff list.set_map run_all_ids)
  ultimately show "futures p f \<noteq> None"
    using pool_run_fulfilled [OF assms(1)] by (auto simp: fulfilled_def futures_of_def)
qed

text \<open>Once every future has its state, every task has run or was refused, whatever the threads still do.\<close>

lemma all_answered:
  assumes a: "accounted es p" and "\<forall>f < promised p. f \<in> future_id ` (set (refused es) \<union> set (ran es))"
  shows "mset (submitted es) = mset (refused es) + mset (ran es)"
proof -
  let ?rest = "offered (tasks p) @ queue (object (tasks p)) @ in_hand (tasks p)"
  have sub: "mset (submitted es) = mset ?rest + mset (refused es) + mset (ran es)"
    using a by (simp add: accounted_def ac_simps)
  have "set ?rest = {}"
  proof (rule equals0I)
    fix t assume t: "t \<in> set ?rest"
    then have "t \<in> set (submitted es)" using sub by (metis UnI1 set_mset_mset set_mset_union)
    then have "future_id t < promised p"
      using a unfolding accounted_def by (metis atLeastLessThan_iff image_eqI set_map set_upt)
    with assms(2) have "future_id t \<in> future_id ` set (refused es) \<or> future_id t \<in> future_id ` set (ran es)" by auto
    with t accounted_distinct [OF a] show False by auto
  qed
  then have "?rest = []" by (simp only: set_empty)
  with sub show ?thesis by simp
qed

lemma all_futures_set:
  assumes "pool_run (new_pool ws clients w) es p" "\<forall>f < promised p. futures p f \<noteq> None"
  shows "mset (submitted es) = mset (refused es) + mset (ran es)"
proof (rule all_answered [OF pool_run_accounted [OF assms(1)]], intro allI impI)
  fix f assume "f < promised p"
  with assms(2) have "futures_of (ran es) (refused es) w f \<noteq> None"
    using pool_run_fulfilled [OF assms(1)] by (simp add: fulfilled_def)
  moreover have "f \<in> future_id ` set (ran es)" if "map_of (fst (run_all (ran es) w)) f \<noteq> None"
    using that by (metis map_of_eq_None_iff list.set_map run_all_ids)
  ultimately show "f \<in> future_id ` (set (refused es) \<union> set (ran es))"
    unfolding futures_of_def image_Un by (metis UnCI option.map_disc_iff)
qed

lemma pool_run_trans: "pool_run q fs r \<Longrightarrow> pool_run p es q \<Longrightarrow> pool_run p (es @ fs) r"
proof (induction rule: pool_run.induct)
  case (step fs q' gs r)
  from pool_run.step [OF step.IH [OF step.prems] step.hyps(2)] show ?case by simp
next
  case (call fs q' gs r)
  from pool_run.call [OF call.IH [OF call.prems] call.hyps(2)] show ?case by simp
qed simp

text \<open>Without a shutdown nothing is refused.\<close>

lemma pool_step_stopped: "pool_step p es q \<Longrightarrow> stopped q = stopped p"
  by (auto simp: run_task_eq elim!: pool_stepE)

lemma queue_step_refuses: "queue_step s es t \<Longrightarrow> turned_away es \<noteq> [] \<Longrightarrow> closed (object s)"
  by (erule queue_stepE)
    (auto simp: push_locked_def pop_locked_def close_locked_def elim!: locked_section.elims split: if_splits list.splits)

definition open_so_far :: "('r, 'w) PoolEvent list \<Rightarrow> ('r, 'w) ThreadPool \<Rightarrow> bool" where
  "open_so_far es p \<longleftrightarrow> (\<not> stopped p \<longrightarrow> \<not> closed (object (tasks p)) \<and> refused es = [])"

lemma pool_step_open:
  assumes "pool_step q fs r" "pool_inv q" "open_so_far es q"
  shows "open_so_far (es @ fs) r"
  using assms(1)
proof cases
  case (in_queue gs m)
  have "\<not> closed (object m)" if up: "\<not> stopped q" "\<not> closed (object (tasks q))"
  proof
    assume c: "closed (object m)"
    from in_queue(3) obtain i where "i < length (places (tasks q))" "places (tasks q) ! i = Closing"
      using c up(2)
      by cases (auto simp: push_locked_def pop_locked_def close_locked_def elim!: locked_section.elims
          split: if_splits list.splits)
    with assms(2) up(1) show False
      by (cases "i < workers q") (auto simp: pool_inv_def place_def dest!: spec [where x = i])
  qed
  with assms(3) in_queue queue_step_refuses [OF in_queue(3)] show ?thesis
    by (auto simp: open_so_far_def)
qed (use assms(3) in \<open>auto simp: open_so_far_def run_task_eq refused_def\<close>)

lemma pool_call_open:
  assumes "pool_call q fs r" "open_so_far es q"
  shows "open_so_far (es @ fs) r"
  using assms(1)
proof cases
  case (wakes_up m)
  with assms(2) outside_channel(1) [OF wakes_up(3)] show ?thesis by (simp add: open_so_far_def)
qed (use assms(2) in \<open>auto simp: open_so_far_def submit_eq shutdown_def refused_def split: if_splits\<close>)

lemma new_pool_open: "open_so_far [] (new_pool ws clients w)"
  by (simp add: open_so_far_def new_pool_def Let_def new_queue_def refused_def)

lemma pool_run_open:
  assumes "pool_run (new_pool ws clients w) es p"
  shows "open_so_far es p"
  using assms
proof (induction rule: pool_run.induct)
  case start
  show ?case by (rule new_pool_open)
next
  case (step es q fs r)
  then show ?case using pool_step_open [OF step(2) pool_run_inv [OF step(1) new_pool_inv]] by blast
next
  case (call es q fs r)
  show ?case by (rule pool_call_open [OF call(2,3)])
qed

section \<open>A client that submits one task after the other\<close>

lemma pool_run_steps:
  "steps pool_step k q fs r \<Longrightarrow> pool_run p es q \<Longrightarrow> pool_run p (es @ fs) r"
proof (induction arbitrary: es rule: steps.induct)
  case (more q es' t k fs u)
  from more.IH [OF pool_run.step [OF more.prems more.hyps(1)]] show ?case by simp
qed simp

lemma steps_frame:
  "steps pool_step k q fs r \<Longrightarrow> stopped r = stopped q \<and> submitted fs = []"
  by (induction rule: steps.induct) (auto simp: run_task_eq elim!: pool_stepE)

lemma pool_frame:
  "pool_step p es q \<or> pool_call p es q \<Longrightarrow>
     workers q = workers p \<and> length (places (tasks q)) = length (places (tasks p))"
  by (auto simp: run_task_eq submit_eq shutdown_def elim!: pool_stepE pool_callE
      dest: queue_step_channel outside_channel(1))

lemma queue_length_frame: "pool_run (new_pool ws clients w) es p \<Longrightarrow>
  workers p = (if ws = 0 then 1 else ws) \<and> length (places (tasks p)) = (if ws = 0 then 1 else ws) + clients"
proof (induction rule: pool_run.induct)
  case start
  show ?case by (simp add: new_pool_def Let_def)
next
  case (step es q fs r)
  from pool_frame [OF disjI1 [OF step(2)]] step(3) show ?case by simp
next
  case (call es q fs r)
  from pool_frame [OF disjI2 [OF call(2)]] call(3) show ?case by simp
qed

lemma pool_can_run:
  fixes fs :: "('w \<Rightarrow> 'r outcome \<times> 'w) list"
  assumes "0 < clients"
  shows "\<exists>es p. pool_run (new_pool ws clients w) es p \<and> map work (submitted es) = fs \<and> at_rest pool_step p \<and> \<not> stopped p"
proof (induction fs rule: rev_induct)
  case Nil
  have inv: "pool_inv (new_pool ws clients w :: ('r, 'w) ThreadPool)" by (rule new_pool_inv)
  obtain k es and p :: "('r, 'w) ThreadPool" where p: "steps pool_step k (new_pool ws clients w) es p" "at_rest pool_step p"
    using pool_machine.comes_to_rest [OF inv] by blast
  have "pool_run (new_pool ws clients w) es p"
    using pool_run_steps [OF p(1) pool_run.start] by simp
  moreover have "\<not> stopped p" "submitted es = []"
    using steps_frame [OF p(1)] by (simp_all add: new_pool_def Let_def)
  ultimately have "pool_run (new_pool ws clients w) es p \<and> map work (submitted es) = [] \<and> at_rest pool_step p \<and> \<not> stopped p"
    using p(2) by simp
  then show ?case by blast
next
  case (snoc f fs)
  then obtain es p where p: "pool_run (new_pool ws clients w) es p" "map work (submitted es) = fs"
    "at_rest pool_step p" "\<not> stopped p" by blast
  let ?t = "\<lparr>future_id = promised p, work = f\<rparr>"
  have inv: "pool_inv p" by (rule pool_run_inv [OF p(1) new_pool_inv])
  have i: "workers p \<le> workers p" "workers p < length (places (tasks p))"
    using queue_length_frame [OF p(1)] assms by auto
  obtain q where "submit (workers p) f p = (promised p, q)" by (simp add: submit_eq)
  from submits [OF i pool_rests(4) [OF inv p(3) i] this]
  have call: "pool_call p [Submitted (workers p) ?t] q" .
  have q: "pool_run (new_pool ws clients w) (es @ [Submitted (workers p) ?t]) q" by (rule pool_run.call [OF p(1) call])
  have "pool_inv q" by (rule pool_run_inv [OF q new_pool_inv])
  then obtain k gs r where r: "steps pool_step k q gs r" "at_rest pool_step r"
    using pool_machine.comes_to_rest by blast
  have "\<not> stopped q" using \<open>submit (workers p) f p = (promised p, q)\<close> p(4) by (auto simp: submit_eq)
  with pool_run_steps [OF r(1) q] steps_frame [OF r(1)] p(2) r(2) show ?case
    by (intro exI [of _ "(es @ [Submitted (workers p) ?t]) @ gs"] exI [of _ r]) simp
qed

lemma pool_runs:
  assumes "0 < clients"
  obtains es and p :: "('r, 'w) ThreadPool" where "pool_run (new_pool ws clients w) es p" "map work (submitted es) = fs"
    "at_rest pool_step p" "\<not> stopped p"
  using pool_can_run [OF assms, of ws w fs] by blast

section \<open>After the shutdown\<close>

lemma channel_shut:
  "channel_run c es (xs, True) = Some (ys, shut) \<Longrightarrow> enqueued es = []"
proof (induction es arbitrary: xs)
  case (Cons e es)
  then show ?case by (cases e) (auto split: if_splits)
qed simp

text \<open>A task that nobody holds and that cannot get into the queue any more.\<close>

definition orphan :: "nat \<Rightarrow> ('r, 'w) ThreadPool \<Rightarrow> bool" where
  "orphan f p \<longleftrightarrow> closed (object (tasks p)) \<and> f < promised p \<and>
     f \<notin> future_id ` (set (queue (object (tasks p))) \<union> set (in_hand (tasks p))) \<and>
     (futures p f = None \<or> futures p f = Some Broken)"

lemma in_hand_update:
  assumes "i < length (places m)" "holds pl = []"
  shows "set (in_hand (m\<lparr>places := (places m)[i := pl]\<rparr>)) \<subseteq> set (in_hand m)"
proof -
  have "mset (in_hand (m\<lparr>places := (places m)[i := pl]\<rparr>)) \<subseteq># mset (in_hand m)"
    using mset_concat_update [OF assms(1), of holds pl] assms(2)
    by (simp add: in_hand_def) (metis mset_subset_eq_add_left)
  then show ?thesis by (metis set_mset_mono set_mset_mset)
qed

lemma pool_step_orphan:
  assumes "pool_step p es q" "pool_inv p" "orphan f p"
  shows "orphan f q"
  using assms(1)
proof cases
  case (in_queue gs m)
  have shut: "closed (object (tasks p))" using assms(3) by (simp add: orphan_def)
  have "enqueued gs = []"
    using queue_step_channel [OF in_queue(3)] channel_shut shut by (auto simp: contents_def)
  then have "queue (object (tasks p)) = dequeued gs @ queue (object m)"
    using queue_step_fifo [OF in_queue(3)] by simp
  moreover have "set (in_hand m) = set (in_hand (tasks p)) \<union> set (dequeued gs)"
    using queue_step_tasks(2) [OF in_queue(3)] by (metis set_mset_mset set_mset_union)
  moreover have "closed (object m)" using queue_step_closed [OF in_queue(3) shut] by simp
  ultimately show ?thesis
    using assms(3) in_queue by (auto simp: orphan_def fold_abandon)
next
  case (run i t)
  have i: "i < length (places (tasks p))" using run(3) assms(2) by (simp add: pool_inv_def)
  have "t \<in> set (in_hand (tasks p))"
    using run(4) nth_mem [OF i] by (force simp: in_hand_def place_def)
  moreover have "set (in_hand (tasks q)) \<subseteq> set (in_hand (tasks p))"
    using in_hand_update [OF i, of Popping] run(2) by (simp add: run_task_eq move_def)
  ultimately show ?thesis using assms(3) run(2) by (auto simp: orphan_def run_task_eq)
next
  case (join i)
  have "set (in_hand (tasks q)) \<subseteq> set (in_hand (tasks p))"
    using in_hand_update [OF join(4), of Idle] join(2) by (simp add: move_def)
  with assms(3) join(2) show ?thesis by (auto simp: orphan_def)
qed

lemma pool_call_orphan:
  assumes "pool_call p es q" "orphan f p"
  shows "orphan f q"
  using assms(1)
proof cases
  case (submits i g fut)
  have "set (in_hand (tasks q)) \<subseteq> set (in_hand (tasks p))"
    using in_hand_update [OF submits(3), of "Pushing \<lparr>future_id = promised p, work = g\<rparr>"] submits(5)
    by (auto simp: move_def submit_eq)
  with assms(2) submits(5) show ?thesis by (auto simp: orphan_def submit_eq)
next
  case (shuts_down i)
  have "set (in_hand (tasks q)) \<subseteq> set (in_hand (tasks p))"
    using in_hand_update [OF shuts_down(4), of Closing] shuts_down(2) by (simp add: move_def shutdown_def)
  with assms(2) shuts_down(2) show ?thesis by (auto simp: orphan_def shutdown_def)
next
  case (wakes_up m)
  from wakes_up(3) have "in_hand m = in_hand (tasks p) \<and> object m = object (tasks p)"
  proof cases
    case (wake i cv)
    then have "map holds (places m) = map holds (places (tasks p))"
      using woken_tasks [OF wake(3)] by (simp add: map_update) (metis list_update_id nth_map)
    with wake show ?thesis by (simp add: in_hand_def)
  qed
  with assms(2) wakes_up(2) show ?thesis by (simp add: orphan_def)
qed

lemma pool_run_orphan: "pool_run p es q \<Longrightarrow> pool_inv p \<Longrightarrow> orphan f p \<Longrightarrow> orphan f q"
proof (induction rule: pool_run.induct)
  case (step es q fs r)
  then show ?case using pool_step_orphan [OF step(2) pool_run_inv [OF step(1,4)]] by blast
qed (auto intro: pool_call_orphan)

lemma late_task_orphan:
  assumes run: "pool_run (new_pool ws clients w) es p" and shut: "closed (object (tasks p))"
    and i: "i < length (places (tasks p))" and sub: "submit i f p = (fut, q)"
  shows "orphan fut q"
proof -
  note a = pool_run_accounted [OF run]
  have sets: "set (submitted es) = set (offered (tasks p)) \<union> set (refused es) \<union> set (queue (object (tasks p))) \<union>
      set (in_hand (tasks p)) \<union> set (ran es)"
    using a unfolding accounted_def by (metis set_mset_mset set_mset_union)
  have "promised p \<notin> set (map future_id (submitted es))" using a unfolding accounted_def by simp
  then have "promised p \<notin> future_id ` (set (queue (object (tasks p))) \<union> set (in_hand (tasks p)) \<union> set (refused es) \<union> set (ran es))"
    unfolding set_map sets by blast
  then have fresh: "promised p \<notin> future_id ` (set (queue (object (tasks p))) \<union> set (in_hand (tasks p)))"
    "promised p \<notin> future_id ` set (refused es)" "promised p \<notin> future_id ` set (ran es)" by blast+
  have "map_of (fst (run_all (ran es) w)) (promised p) = None"
    using fresh(3) by (metis map_of_eq_None_iff list.set_map run_all_ids)
  then have none: "futures p (promised p) = None"
    using pool_run_fulfilled [OF run] fresh(2) by (simp add: fulfilled_def futures_of_def)
  have "set (in_hand (tasks q)) \<subseteq> set (in_hand (tasks p))"
    using in_hand_update [OF i, of "Pushing \<lparr>future_id = promised p, work = f\<rparr>"] sub
    by (auto simp: move_def submit_eq)
  with fresh(1) none shut sub show ?thesis by (auto simp: orphan_def submit_eq)
qed

end
