(* ===== verification/Main_Threads.thy ===== *)
theory Main_Threads
  imports Main_Demo Thread_Pool
begin

text \<open>
  The rest of \<open>src/main.cpp\<close>: scenario 5 on the thread pool, whose tasks share the service and the two
  counters, scenario 6, which reads the merchant's entries, and scenario 7, the durable repository.
  A job is one step of its worker, which is enough for the text the program writes; \<open>Pooled_Stress\<close> has the
  outcome of scenario 5 with the jobs made step by step.
\<close>

section \<open>Scenario 5\<close>

type_synonym 'w Demo = "'w App \<times> int \<times> int"

definition stress_job :: "(nat \<Rightarrow> int64) \<Rightarrow> nat \<Rightarrow> 'w Demo \<Rightarrow> unit outcome \<times> 'w Demo" where
  "stress_job now i = with_outcome (fromMajor (100, 0) INR) (\<lambda>amt (s, ok, rejected).
     let (res, s) = pay main_chain_wiring (now i) (stress_request amt i) s
     in with_outcome res (\<lambda>r (s, ok, rejected).
          (Returns (), if Result_isOk r then (s, ok + 1, rejected) else (s, ok, rejected + 1)))
        (s, ok, rejected))"

definition stress_jobs :: "(nat \<Rightarrow> int64) \<Rightarrow> ('w Demo \<Rightarrow> unit outcome \<times> 'w Demo) list" where
  "stress_jobs now = map (stress_job now) [0..<50]"

definition stress_pool :: "'w App \<Rightarrow> (unit, 'w Demo) ThreadPool" where
  "stress_pool s = new_pool 8 1 (s, 0, 0)"

section \<open>Scenario 6\<close>

definition merchant_entries :: "'w App \<Rightarrow> LedgerEntry list" where
  "merchant_entries s = mem_entriesFor ''acc_merchant_7'' (ledger s)"

section \<open>Scenario 7\<close>

definition durable_demo ::
    "(Index \<Rightarrow> Index) \<Rightarrow> int64 \<Rightarrow> int64 \<Rightarrow> string option \<Rightarrow> bool \<Rightarrow> Transaction option outcome" where
  "durable_demo iter now now2 d w =
     obind (open_file_repo now d w) (\<lambda>repo.
     obind (fromMajor (750, 0) INR) (\<lambda>amt.
     obind (build now
         (set_method CARD_method (set_amount amt (set_payee ''acc_merchant_7'' (set_payer ''acc_user_42''
           (set_idempotencyKey ''persist-key'' (set_id ''txn_persist_1'' new_builder))))))) (\<lambda>t.
       let t = setStatus CAPTURED t;
           repo = file_save iter t repo;
           savedId = txn_id t
       in obind (reopen now2 repo) (\<lambda>repo. Returns (file_find savedId repo)))))"

section \<open>The jobs, one after the other\<close>

definition stress_task :: "(nat \<Rightarrow> int64) \<Rightarrow> nat \<Rightarrow> (unit, 'w Demo) Task" where
  "stress_task now i = \<lparr>future_id = i, work = stress_job now i\<rparr>"

abbreviation stress_call :: "(nat \<Rightarrow> int64) \<Rightarrow> nat \<Rightarrow> int64 \<times> PaymentRequest" where
  "stress_call now i \<equiv> (now i, stress_request (fromMinor 10000 INR) i)"

lemma stress_job_eq:
  assumes "pay main_chain_wiring (now i) (stress_request (fromMinor 10000 INR) i) s = (Returns r, s')"
  shows "stress_job now i (s, a, b) = (Returns (), if Result_isOk r then (s', a + 1, b) else (s', a, b + 1))"
  by (simp add: stress_job_def main_amounts assms)

lemma run_all_stress:
  assumes "pays main_chain_wiring (map (stress_call now) js) s = (out, s')"
    and "\<forall>r \<in> set out. \<exists>u. r = Returns u"
  shows "run_all (map (stress_task now) js) (s, a, b) =
    (map (\<lambda>i. (i, Returns ())) js,
     (s', a + int (length (filter succeeded out)), b + int (length js) - int (length (filter succeeded out))))"
  using assms
proof (induction js arbitrary: s a b out)
  case (Cons j js)
  obtain res s1 where p: "pay main_chain_wiring (now j) (stress_request (fromMinor 10000 INR) j) s = (res, s1)"
    by fastforce
  obtain out2 where o: "pays main_chain_wiring (map (stress_call now) js) s1 = (out2, s')" "out = res # out2"
    using Cons.prems(1) by (cases "pays main_chain_wiring (map (stress_call now) js) s1") (auto simp: p)
  then obtain u where u: "res = Returns u" using Cons.prems(2) by auto
  have "\<forall>r \<in> set out2. \<exists>u. r = Returns u" using Cons.prems(2) o(2) by simp
  note IH = Cons.IH [OF o(1) this]
  show ?case
    by (simp add: stress_task_def stress_job_eq [of now j, OF p [unfolded u]] o(2) u IH [unfolded stress_task_def])
qed simp

text \<open>
  Scenario 5 as a run of calls: the counts, the answers, the wallet, and what the merchant is credited.
\<close>

lemma stress_calls:
  fixes s :: "'w App"
  assumes ready: "stress_ready s" and wallet: "open_wallet s = Returns s1" and js: "mset js = mset [0..<50]"
    and run: "pays main_chain_wiring (map (stress_call now) js) s1 = (out, s2)"
  shows "length (filter succeeded out) = 12" "\<exists>a. objects s2 2 = Some a \<and> funds a = 0"
    "\<forall>r \<in> set out. \<exists>u. r = Returns u"
    "credits_of ''acc_merchant_7'' (entries (ledger s2)) =
       credits_of ''acc_merchant_7'' (entries (ledger s1)) @ replicate 12 (CREDIT, fromMinor 10000 INR)"
proof -
  let ?m = "fromMinor 10000 INR" and ?a = "mkAccount ''acc_stress'' USER_WALLET (fromMinor 120000 INR)"
  let ?rs = "map (stress_call now) js"
  have rs: "mset (map snd ?rs) = mset (map (stress_request ?m) [0..<50])"
    using js by (simp add: comp_def del: upt_rec_numeral)
  from stress_run [OF ready wallet stress_requests_eq rs run]
  show twelve: "length (filter succeeded out) = 12" and "\<exists>a. objects s2 2 = Some a \<and> funds a = 0" by auto
  note w = open_wallet_effect [OF ready wallet]
  from ready obtain q b where q: "acc_store (accounts s) ''acc_merchant_7'' = Some q" "objects s q = Some b"
    "account_currency b = INR" "objects s 2 = None" by (auto simp: stress_ready_def)
  have reg: "registered (objects s1) (acc_store (accounts s1))" and fund: "funded (objects s1)"
    and free: "''account:'' @ ''acc_stress'' \<notin> held_keys (locks s1)"
    using w(1) by (simp_all add: app_ok_def)
  have sp: "spending main_chain_wiring ''acc_stress'' ''acc_merchant_7'' ?m (key_store (idempotency s1)) ?rs"
    unfolding w(4) by (rule stress_spending [OF rs]) (use ready in \<open>simp add: stress_ready_def\<close>)
  have p: "acc_store (accounts s1) ''acc_stress'' = Some 2" "objects s1 2 = Some ?a" "account_currency ?a = currency ?m"
    by (simp_all add: w)
  have qv: "acc_store (accounts s1) ''acc_merchant_7'' = Some q" "same_currency (objects s1) q ?m"
    using q by (auto simp: w same_currency_def)
  show "\<forall>r \<in> set out. \<exists>u. r = Returns u"
    using app.pays_spend [OF inmemory_wiring_sel(1) _ _ reg TrueI fund free sp p qv] run by simp
  show "credits_of ''acc_merchant_7'' (entries (ledger s2)) =
       credits_of ''acc_merchant_7'' (entries (ledger s1)) @ replicate 12 (CREDIT, ?m)"
    using app.pays_credit [OF inmemory_wiring_sel(1) _ _ reg TrueI sp] new_factory_approves run twelve by simp
qed

section \<open>The jobs on the pool\<close>

lemma submitted_tasks:
  assumes "map future_id ts = [0..<n]" "map work ts = map f [0..<n]"
  shows "ts = map (\<lambda>i. \<lparr>future_id = i, work = f i\<rparr>) [0..<n]"
proof (rule nth_equalityI)
  show len: "length ts = length (map (\<lambda>i. \<lparr>future_id = i, work = f i\<rparr>) [0..<n])"
    using arg_cong [OF assms(1), of length] by simp
  fix i assume i: "i < length ts"
  then have "future_id (ts ! i) = i" "work (ts ! i) = f i"
    using arg_cong [OF assms(1), of "\<lambda>xs. xs ! i"] arg_cong [OF assms(2), of "\<lambda>xs. xs ! i"] len by simp_all
  then show "ts ! i = map (\<lambda>i. \<lparr>future_id = i, work = f i\<rparr>) [0..<n] ! i"
    using i len by (cases "ts ! i") simp
qed

text \<open>The pool runs the jobs as a sequence of the fifty calls.\<close>

lemma stress_pool_calls:
  fixes s :: "'w App"
  assumes ready: "stress_ready s" and wallet: "open_wallet s = Returns s1"
    and run: "pool_run (stress_pool s1) es p" and jobs: "map work (submitted es) = stress_jobs now"
    and got: "\<forall>f < 50. futures p f \<noteq> None" and up: "\<not> stopped p"
  obtains js out s2 where "mset js = mset [0..<50]" "pays main_chain_wiring (map (stress_call now) js) s1 = (out, s2)"
    and "world p = (s2, 12, 38)" "\<forall>f < 50. future_get f (futures p) = Returns ()"
proof -
  note run = run [unfolded stress_pool_def]
  have none: "refused es = []" using pool_run_open [OF run] up by (simp add: open_so_far_def)
  have acc: "map future_id (submitted es) = [0..<promised p]"
    using pool_run_accounted [OF run] by (simp add: accounted_def)
  moreover have "length (submitted es) = 50"
    using arg_cong [OF jobs, of length] by (simp add: stress_jobs_def)
  ultimately have n: "promised p = 50" by (metis length_map length_upt minus_nat.diff_0)
  have sub: "submitted es = map (stress_task now) [0..<50]"
    using submitted_tasks [OF acc, of "stress_job now"] jobs unfolding stress_jobs_def stress_task_def n by blast
  have perm: "mset (ran es) = mset (map (stress_task now) [0..<50])"
    using all_futures_set [OF run] got none sub n by simp
  define js where "js = map future_id (ran es)"
  have "t = stress_task now (future_id t)" if "t \<in> set (ran es)" for t
    using that mset_eq_setD [OF perm] by (auto simp: stress_task_def simp del: upt_rec_numeral)
  then have ran: "ran es = map (stress_task now) js"
    unfolding js_def by (simp add: map_idI comp_def)
  have js: "mset js = mset [0..<50]"
    using arg_cong [OF perm, of "image_mset future_id"] by (simp add: js_def stress_task_def image_mset.compositionality comp_def del: upt_rec_numeral)
  obtain out s2 where pays: "pays main_chain_wiring (map (stress_call now) js) s1 = (out, s2)" by fastforce
  note c = stress_calls [OF ready wallet js pays]
  have len: "length js = 50" using mset_eq_length [OF js] by simp
  have all: "run_all (ran es) (s1, 0, 0) = (map (\<lambda>i. (i, Returns ())) js, (s2, 12, 38))"
    using run_all_stress [OF pays c(3), of 0 0] unfolding ran c(1) len by simp
  have f: "world p = snd (run_all (ran es) (s1, 0, 0))" "futures p = futures_of (ran es) (refused es) (s1, 0, 0)"
    using pool_run_fulfilled [OF run] by (simp_all add: fulfilled_def)
  have "map_of (map (\<lambda>i. (i, Returns ())) js) i = Some (Returns ())" if "i < 50" for i
    using that mset_eq_setD [OF js] by (simp add: map_of_map_restrict)
  then have "\<forall>i < 50. future_get i (futures p) = Returns ()"
    by (simp add: f(2) futures_of_def none all future_get_def)
  with f(1) all js pays show thesis by (intro that) simp_all
qed

lemma stress_pool_run:
  fixes s :: "'w App"
  assumes "stress_ready s" "open_wallet s = Returns s1" "pool_run (stress_pool s1) es p"
    and "map work (submitted es) = stress_jobs now" "\<forall>f < 50. futures p f \<noteq> None" "\<not> stopped p"
  obtains s2 where "world p = (s2, 12, 38)" "\<forall>f < 50. future_get f (futures p) = Returns ()"
    and "\<exists>a. objects s2 2 = Some a \<and> funds a = 0"
    and "credits_of ''acc_merchant_7'' (entries (ledger s2)) =
       credits_of ''acc_merchant_7'' (entries (ledger s1)) @ replicate 12 (CREDIT, fromMinor 10000 INR)"
proof -
  obtain js out s2 where c: "mset js = mset [0..<50]" "pays main_chain_wiring (map (stress_call now) js) s1 = (out, s2)"
    "world p = (s2, 12, 38)" "\<forall>f < 50. future_get f (futures p) = Returns ()"
    by (rule stress_pool_calls [OF assms])
  from stress_calls [OF assms(1,2) c(1,2)] c(3,4) show thesis by (intro that)
qed

section \<open>The durable repository\<close>

definition persisted :: "int64 \<Rightarrow> Transaction" where
  "persisted now = setStatus CAPTURED (mkTransaction now ''txn_persist_1'' ''persist-key'' ''acc_user_42''
     ''acc_merchant_7'' (fromMinor 75000 INR) CARD_method)"

lemma durable_demo_eq:
  "durable_demo iter now now2 None w =
     (let r = file_save iter (persisted now) \<lparr>index = [], disk = None, writable = w\<rparr>
      in obind (reopen now2 r) (\<lambda>r. Returns (file_find ''txn_persist_1'' r)))"
proof -
  have amt: "fromMajor (750, 0) INR = Returns (fromMinor 75000 INR)" by (simp add: fromMajor_small)
  have txn: "build now (set_method CARD_method (set_amount (fromMinor 75000 INR) (set_payee ''acc_merchant_7''
      (set_payer ''acc_user_42'' (set_idempotencyKey ''persist-key'' (set_id ''txn_persist_1'' new_builder)))))) =
      Returns (mkTransaction now ''txn_persist_1'' ''persist-key'' ''acc_user_42'' ''acc_merchant_7'' (fromMinor 75000 INR)
        CARD_method)"
    by (simp add: build_def builder_defs)
  show ?thesis
    by (simp add: durable_demo_def open_file_repo_def loadFromDisk_def amt txn persisted_def Let_def)
qed

lemma persisted_storable: "storable (persisted now)"
  by (simp add: storable_def plain_def persisted_def)

lemma durable_demo_found:
  assumes "\<And>idx. mset (iter idx) = mset idx"
  shows "durable_demo iter now now2 None True = Returns (Some (persisted now))"
proof -
  let ?r = "\<lparr>index = [], disk = None, writable = True\<rparr>"
  have "file_inv ?r" "file_durable ?r"
    by (simp_all add: file_inv_def index_ok_def file_durable_def all_storable_def)
  from file_restart_after_save [OF assms this persisted_storable, of now2 now]
  obtain r' where "reopen now2 (file_save iter (persisted now) ?r) = Returns r'"
    "file_view r' = file_view (file_save iter (persisted now) ?r)" by blast
  then show ?thesis
    by (simp add: durable_demo_eq Let_def file_find_def file_view_def persisted_def)
qed

lemma durable_demo_lost: "durable_demo iter now now2 None False = Returns None"
  by (simp add: durable_demo_eq reopen_def file_save_def flushToDisk_def open_file_repo_def loadFromDisk_def file_find_def)

section \<open>The demo to its end\<close>

lemma merchant_entries_credits:
  "map (\<lambda>e. (direction e, entry_amount e)) (merchant_entries s) = credits_of ''acc_merchant_7'' (entries (ledger s))"
  by (simp add: merchant_entries_def mem_ledger.entriesFor_view credits_of_def)

lemma main_ready:
  fixes printer :: "'w Subscriber"
  assumes "main_run printer w now = Returns (out, s)"
  shows "stress_ready s" "credits_of ''acc_merchant_7'' (entries (ledger s)) = [(CREDIT, fromMinor 50000 INR)]"
proof -
  let ?W = "main_chain_wiring :: 'w AppWiring" and ?s0 = "seeded printer w"
  let ?rs = "map (Pair now) [main_pay ''idem-key-001'' 50000 UPI, main_pay ''idem-key-001'' 50000 UPI,
      main_pay ''idem-key-002'' 99999900 CARD_method, main_pay ''idem-key-003'' 6000000 CARD_method]"
  have run: "pays ?W ?rs ?s0 = (out, s)"
    using assms unfolding main_run_eq outcome.inject .
  obtain out' s' where s': "main_run printer w now = Returns (out', s')"
    "objects s' 1 = Some (mkAccount ''acc_merchant_7'' MERCHANT (fromMinor 50000 INR))"
    "between s' {''idem-key-001'', ''idem-key-002'', ''idem-key-003''}"
    "credits_of ''acc_merchant_7'' (entries (ledger s')) = [(CREDIT, fromMinor 50000 INR)]"
    by (rule main_scenarios_run)
  then have eq: "s' = s" using assms by simp
  then show "credits_of ''acc_merchant_7'' (entries (ledger s)) = [(CREDIT, fromMinor 50000 INR)]" using s'(4) by simp
  have chain: "\<And>t. run (validation ?W) t \<noteq> Undefined" "\<And>t. run (validation ?W) t \<noteq> Blocks"
    by (simp_all add: standard_chain_returns)
  have m: "\<forall>(now, req) \<in> set ?rs. matched (objects ?s0) (acc_store (accounts ?s0)) req"
    by (auto simp: matched_def main_pay_def Money_zero_def)
  have ok: "app_ok s"
    using pays_app_ok(1) [OF inmemory_wiring_sel(1) chain seeded_ok m] unfolding run snd_conv .
  have tot: "total INR (objects s) = 200000"
    using app.pays_conserve [OF inmemory_wiring_sel(1) chain(1) app_ok_parts(1) [OF seeded_ok] TrueI
        app_ok_parts(2) [OF seeded_ok] m] unfolding run snd_conv by (simp add: total_seeded)
  have sh: "shape (objects s) = shape (objects ?s0)"
    using app.pays_frame [where W = ?W and s = ?s0 and rs = ?rs, OF inmemory_wiring_sel(1) app_ok_parts(1) [OF seeded_ok] TrueI]
    unfolding run snd_conv by blast
  have "objects ?s0 2 = None" by (simp add: seeded_def)
  then have two: "objects s 2 = None" using shape_dom [OF sh] by (metis domIff)
  have keys: "dom (key_store (idempotency s)) = {''idem-key-001'', ''idem-key-002'', ''idem-key-003''}"
    and acc: "acc_store (accounts s) ''acc_merchant_7'' = Some 1"
    using s'(3) unfolding eq between_def by simp_all
  have "key_store (idempotency s) (''stress-'' @ show_nat i) = None" for i
  proof -
    have "''stress-'' @ show_nat i \<notin> dom (key_store (idempotency s))" unfolding keys by simp
    then show ?thesis by (simp add: domIff)
  qed
  with ok tot two acc s'(2) show "stress_ready s"
    unfolding eq by (auto simp: stress_ready_def)
qed

end
