(* ===== verification/Serial_Payments.thy ===== *)
theory Serial_Payments
  imports App_Guarantees
begin

text \<open>
  Interleaved calls are as good as calls one after the other. Take the calls in the order in which they
  took effect: the sequential service \<open>pays\<close> gives each of them the same verdict and ends with the same
  accounts. On the way there, the accounts of the interleaving and those of the sequential run differ
  exactly by the amounts that have left a payer and not reached the payee. A refusal is decided at the
  debit, where no other call has the payer's money in flight; a success is decided at the credit, where
  the sequential payer has at least the amount that the interleaved one has paid already.
\<close>

section \<open>What is under way\<close>

fun flying :: "Currency \<Rightarrow> addr \<Rightarrow> PaymentRequest \<Rightarrow> Stage \<Rightarrow> int" where
  "flying c p req (Crediting a) = (if from_account a = p then in_currency c (amount req) else 0)"
| "flying c p req st = 0"

fun successful :: "Stage \<Rightarrow> bool" where
  "successful (Numbering a ns) = True"
| "successful (Sequencing a ns e) = True"
| "successful (Posting a ns) = True"
| "successful (Saving t ty r) = Result_isOk r"
| "successful (Publishing t ty r) = Result_isOk r"
| "successful (Releasing r) = succeeded r"
| "successful (Finished r) = succeeded r"
| "successful st = False"

fun replaying :: "Stage \<Rightarrow> bool" where
  "replaying Duplicate = True"
| "replaying (Replaying i) = True"
| "replaying st = False"

lemma flying_nonneg: "stage_ok W m h req st \<Longrightarrow> 0 \<le> flying c p req st"
  by (cases st) (auto simp: in_currency_def)

lemma flying_capturing: "flying c p req (capturing a) = 0"
  by (rule capturing_cases [of a]) simp

lemma successful_capturing:
  assumes "approves (strategies W) (req_method req)" "attempted W m req a"
  shows "successful (capturing a)"
proof -
  have "Status_isOk (capture (chosen a) (attempt_txn a) (gateway a))"
    using assms by (simp add: attempted_def approves_def approving_def)
  then show ?thesis by (simp add: capturing_def Status_isErr_def Let_def)
qed

lemma failed_not_succeeded [simp]: "\<not> succeeded (Throws e)"
  by (simp add: succeeded_def)

section \<open>Sequential calls, one more at the end\<close>

lemma pays_snoc:
  "pays W (rs @ [(now, req)]) s =
     (let (out, s1) = pays W rs s; (r, s2) = pay W now req s1 in (out @ [r], s2))"
proof (induction rs arbitrary: s)
  case (Cons x rs)
  then show ?case by (cases x) (simp add: split_beta Let_def)
qed (simp add: split_beta Let_def)

text \<open>A fresh call that does not succeed leaves the accounts alone.\<close>

lemma refused_call:
  fixes s :: "'w App"
  assumes ok: "app_ok s" and key: "key_store (idempotency s) (idempotencyKey req) = None"
    and pay: "pay (inmemory_wiring limit threshold) now req s = (res, s')" and no: "\<not> succeeded res"
  shows "objects s' = objects s"
proof -
  have "res \<noteq> Undefined"
    using app.pay_defined [OF inmemory_wiring_sel(1) app_ok_parts(1,2) [OF ok] _ pay] by (simp add: standard_chain_returns)
  then show ?thesis
    by (rule_tac app.pay_cases [OF inmemory_wiring_sel(1) app_ok_parts(1) [OF ok] pay])
      (use key no new_factory_approves in \<open>auto simp: same_books_def\<close>)
qed

section \<open>The simulation\<close>

text \<open>A payment that only the balance of the payer can still refuse.\<close>

lemma attempted_capturable:
  assumes "attempted (inmemory_wiring limit threshold :: 'w AppWiring) m req a"
  shows "capturable limit threshold req m h \<longleftrightarrow>
    (\<exists>x. h (from_account a) = Some x \<and> account_currency x = currency (amount req) \<and> units (amount req) \<le> funds x)"
proof -
  obtain txn where txn: "requested req txn" "admitted (inmemory_wiring limit threshold :: 'w AppWiring) req txn"
    and m: "m (payerAccountId req) = Some (from_account a)" "m (payeeAccountId req) = Some (to_account a)"
    using assms by (auto simp: attempted_def)
  have "payerAccountId req \<noteq> []" "payeeAccountId req \<noteq> []" using txn(1) by (simp_all add: requested_def)
  then show ?thesis
    using txn(2) requested_sel [OF txn(1)] m
    by (auto simp: capturable_def admitted_def run_standard_accepts create_new_factory)
qed

lemma not_admitted_capturable:
  assumes "capturable limit threshold req m h" "requested req txn"
  shows "admitted (inmemory_wiring limit threshold :: 'w AppWiring) req txn \<and> m (payerAccountId req) \<noteq> None \<and>
    m (payeeAccountId req) \<noteq> None"
  using assms requested_sel [OF assms(2)]
  by (auto simp: capturable_def admitted_def run_standard_accepts create_new_factory)

definition simulates ::
    "Money \<Rightarrow> Money \<Rightarrow> 'w App \<Rightarrow> (int64 \<times> PaymentRequest) list \<Rightarrow> nat list \<Rightarrow> 'w App Traffic
     \<Rightarrow> Transaction Result outcome list \<Rightarrow> 'w App \<Rightarrow> bool" where
  "simulates limit threshold s0 calls es t out u \<longleftrightarrow>
     pays (inmemory_wiring limit threshold) (map ((!) calls) es) s0 = (out, u) \<and>
     map succeeded out = map (\<lambda>i. successful (stages t ! i)) es \<and>
     (\<forall>i \<in> set es. \<not> replaying (stages t ! i)) \<and>
     app_ok u \<and> accounts u = accounts s0 \<and> shape (objects u) = shape (objects s0) \<and>
     dom (key_store (idempotency u)) = dom (key_store (idempotency s0)) \<union> request_key calls ` set es \<and>
     (\<forall>c p. holding c (objects u p) = holding c (objects (service t) p) + sum_calls (flying c p) calls (stages t))"

text \<open>No money of an account is under way while a call that debits it holds its lock.\<close>

lemma no_flight_under_lock:
  fixes s0 :: "'w App"
  assumes ready: "app.ready W s0 calls" and ok: "app.traffic_ok W s0 calls t"
    and i: "i < length (stages t)" "stages t ! i = Debiting a"
  shows "sum_calls (flying c (from_account a)) calls (stages t) = 0"
  unfolding sum_calls_def
proof (rule sum.neutral, rule ballI)
  fix j assume "j \<in> {..<length (stages t)}"
  then have j: "j < length (stages t)" by simp
  have len: "length (stages t) = length calls"
    and know: "\<And>j. j < length calls \<Longrightarrow> stage_ok W (acc_store (accounts s0)) (objects s0) (snd (calls ! j)) (stages t ! j)"
    and inj: "inj_on (call_key calls) (inside (stages t))"
    using ok by (simp_all add: app.traffic_ok_def app.knows_def app.exclusive_def)
  have reg: "registered (objects s0) (acc_store (accounts s0))" using ready by (simp add: app.ready_def)
  show "flying c (from_account a) (snd (calls ! j)) (stages t ! j) = 0"
  proof (cases "\<exists>b. stages t ! j = Crediting b \<and> from_account b = from_account a")
    case True
    then obtain b where b: "stages t ! j = Crediting b" "from_account b = from_account a" by blast
    have "acc_store (accounts s0) (payerAccountId (snd (calls ! i))) = Some (from_account a)"
      "acc_store (accounts s0) (payerAccountId (snd (calls ! j))) = Some (from_account a)"
      using know i j b len by (fastforce simp: attempted_def)+
    then have "payerAccountId (snd (calls ! i)) = payerAccountId (snd (calls ! j))"
      using reg unfolding registered_def by (metis option.inject)
    then have "call_key calls i = call_key calls j" by (simp add: call_key_def lock_key_def)
    moreover have "i \<in> inside (stages t)" "j \<in> inside (stages t)" using i j b by (simp_all add: inside_def)
    ultimately have "i = j" using inj by (simp add: inj_on_def)
    with i(2) b(1) show ?thesis by simp
  next
    case False
    then show ?thesis by (cases "stages t ! j") auto
  qed
qed

text \<open>A step that decides nothing moves money only from the accounts into the air.\<close>

lemma silent_step:
  fixes s :: "'w App"
  assumes tame: "app.tame (inmemory_wiring limit threshold) h req st s"
    and step: "call_step (inmemory_wiring limit threshold) now req st s = Some (st', s')" and silent: "\<not> takes_effect st st'"
  shows "holding c (objects s' p) + flying c p req st' = holding c (objects s p) + flying c p req st"
    and "\<not> undecided st \<Longrightarrow> \<not> replaying st \<Longrightarrow> \<not> replaying st' \<and> successful st' = successful st"
proof -
  have cap: "\<not> replaying (capturing a)" for a by (rule capturing_cases [of a]) simp
  have success: "successful (capturing a)" if "attempted (inmemory_wiring limit threshold :: 'w AppWiring) m req a" for m a
    using successful_capturing [OF _ that] new_factory_approves by simp
  show "holding c (objects s' p) + flying c p req st' = holding c (objects s p) + flying c p req st"
  proof (rule app.step_cases [OF tame step])
    fix a hp
    assume a: "st = Debiting a" "st' = Crediting a" "s' = s\<lparr>objects := hp\<rparr>"
      and d: "debit_at (from_account a) (amount req) (objects s) = Returns (Status_ok, hp)"
    have "holding c (hp p) = holding c (objects s p) - (if p = from_account a then in_currency c (amount req) else 0)"
      by (rule debit_at_effect [OF d]) simp_all
    with a show ?thesis by auto
  qed (use silent in \<open>auto simp: takes_effect_def publish_event_def flying_capturing\<close>)
  show "\<not> undecided st \<Longrightarrow> \<not> replaying st \<Longrightarrow> \<not> replaying st' \<and> successful st' = successful st"
    by (rule app.step_cases [OF tame step]) (auto simp: cap success succeeded_def)
qed

text \<open>A step that decides: a refusal, which leaves the accounts alone, or the credit.\<close>

lemma deciding_step:
  fixes s :: "'w App"
  assumes tame: "app.tame (inmemory_wiring limit threshold) h req st s"
    and step: "call_step (inmemory_wiring limit threshold) now req st s = Some (st', s')" and takes: "takes_effect st st'"
  obtains (refused) "\<not> successful st'" "\<not> replaying st'" "objects s' = objects s"
      "\<And>c p. flying c p req st' = 0" "\<And>c p. flying c p req st = 0"
      "\<And>h. capturable limit threshold req (acc_store (accounts s)) h \<Longrightarrow>
        \<exists>a d. st = Debiting a \<and> attempted (inmemory_wiring limit threshold :: 'w AppWiring) (acc_store (accounts s)) req a \<and>
          debit_at (from_account a) (amount req) (objects s) = Returns (d, objects s) \<and> Status_isErr d"
  | (paid) a cst hp where "st = Crediting a" "st' = Numbering a []" "s' = s\<lparr>objects := hp\<rparr>"
      "attempted (inmemory_wiring limit threshold :: 'w AppWiring) (acc_store (accounts s)) req a"
      "0 \<le> units (amount req)" "credit_at (to_account a) (amount req) (objects s) = Returns (cst, hp)"
proof (rule app.step_cases [OF tame step])
  fix i e ids
  assume a: "st = Claiming i" "payerAccountId req = [] \<or> payeeAccountId req = []" "st' = Finished (Throws e)"
    "s' = s\<lparr>idempotency := ids\<rparr>"
  show ?thesis by (rule refused) (use a in \<open>auto simp: capturable_def\<close>)
next
  fix txn t e
  assume a: "st = Checking txn" "requested req txn" "st' = Saving t ''PaymentFailed'' (Result_err e)" "s' = s"
    "\<not> (admitted (inmemory_wiring limit threshold :: 'w AppWiring) req txn \<and> acc_store (accounts s) (payerAccountId req) \<noteq> None \<and>
      acc_store (accounts s) (payeeAccountId req) \<noteq> None \<and>
      approves (strategies (inmemory_wiring limit threshold :: 'w AppWiring)) (req_method req))"
  have "\<not> capturable limit threshold req (acc_store (accounts s)) h" for h
  proof
    assume c: "capturable limit threshold req (acc_store (accounts s)) h"
    show False using not_admitted_capturable [OF c a(2), where 'w = 'w] a(5) new_factory_approves by auto
  qed
  with a show ?thesis by (intro refused) auto
next
  fix txn e
  assume a: "st = Checking txn" "requested req txn" "st' = Releasing (Throws e)" "s' = s"
    "run (validation (inmemory_wiring limit threshold :: 'w AppWiring)) txn = Throws e"
  have "\<not> capturable limit threshold req (acc_store (accounts s)) h" for h
    using not_admitted_capturable [OF _ a(2), where 'w = 'w] a(5) by (auto simp: admitted_def)
  with a show ?thesis by (intro refused) auto
next
  fix a t d
  assume a: "st = Debiting a" "attempted (inmemory_wiring limit threshold :: 'w AppWiring) (acc_store (accounts s)) req a"
    "st' = Saving t ''PaymentFailed'' (Result_err (err d))" "s' = s"
    "debit_at (from_account a) (amount req) (objects s) = Returns (d, objects s)" "Status_isErr d"
  show ?thesis by (rule refused) (use a in auto)
next
  fix a cst hp
  assume "st = Crediting a" "attempted (inmemory_wiring limit threshold :: 'w AppWiring) (acc_store (accounts s)) req a"
    "0 \<le> units (amount req)" "st' = Numbering a []" "s' = s\<lparr>objects := hp\<rparr>"
    "credit_at (to_account a) (amount req) (objects s) = Returns (cst, hp)"
  then show ?thesis by (intro paid)
qed (use takes in \<open>auto simp: takes_effect_def\<close>)

section \<open>Steps of the interleaving\<close>

lemma matched_payee:
  assumes match: "matched h m req" and payer: "m (payerAccountId req) = Some p" "h p = Some x" "account_currency x = currency (amount req)"
    and payee: "m (payeeAccountId req) = Some q" and sh: "shape h' = shape h"
  shows "same_currency h' q (amount req)"
proof -
  have "same_currency h q (amount req)" using match payer payee by (auto simp: matched_def same_currency_def)
  then show ?thesis by (simp add: same_currency_shape [OF sh])
qed

text \<open>A credit in the payee's currency, and a transfer, as changes of what each account holds.\<close>

lemma credit_at_holding:
  assumes "credit_at q amt h = Returns (st, h1)" "0 \<le> units amt" "same_currency h q amt"
  shows "holding c (h1 r) = holding c (h r) + (if r = q then in_currency c amt else 0)"
  by (rule credit_at_effect [OF assms(1,2)]) (use assms(3) in \<open>auto simp: same_currency_def\<close>)

lemma one_owner_fresh:
  fixes s0 :: "'w App"
  assumes "app.one_owner s0 calls (es @ [i]) v"
  shows "request_key calls i \<notin> dom (key_store (idempotency s0)) \<union> request_key calls ` set es"
proof -
  have o: "distinct (es @ [i])" "\<forall>j \<in> set (es @ [i]). j < length (stages v)"
    "inj_on (request_key calls) (won (es @ [i]) (stages v))"
    "request_key calls ` won (es @ [i]) (stages v) \<inter> dom (key_store (idempotency s0)) = {}"
    using assms by (simp_all add: app.one_owner_def)
  have sub: "insert i (set es) \<subseteq> won (es @ [i]) (stages v)" using o(2) by (auto simp: won_def)
  have "inj_on (request_key calls) (insert i (set es))" using o(3) sub by (rule inj_on_subset)
  then have "request_key calls i \<notin> request_key calls ` set es" using o(1) by (auto simp: inj_on_def)
  then show ?thesis using o(4) sub by blast
qed

lemma simulates_silent:
  fixes s0 :: "'w App"
  assumes ready: "app.ready (inmemory_wiring limit threshold) s0 calls" and ok: "app.traffic_ok (inmemory_wiring limit threshold) s0 calls t"
    and own: "app.one_owner s0 calls es t" and sim: "simulates limit threshold s0 calls es t out u"
    and i: "i < length (stages t)" and step: "call_step (inmemory_wiring limit threshold) (fst (calls ! i)) (snd (calls ! i))
      (stages t ! i) (service t) = Some (st, s)"
    and silent: "\<not> takes_effect (stages t ! i) st"
  shows "simulates limit threshold s0 calls es \<lparr>service = s, stages = (stages t)[i := st]\<rparr> out u"
proof -
  note q = silent_step [OF app.traffic_tame [OF ready ok i] step silent]
  have m: "pays (inmemory_wiring limit threshold) (map ((!) calls) es) s0 = (out, u)"
    "map succeeded out = map (\<lambda>i. successful (stages t ! i)) es" "\<forall>i \<in> set es. \<not> replaying (stages t ! i)"
    "app_ok u" "accounts u = accounts s0" "shape (objects u) = shape (objects s0)"
    "dom (key_store (idempotency u)) = dom (key_store (idempotency s0)) \<union> request_key calls ` set es"
    "\<And>c p. holding c (objects u p) = holding c (objects (service t) p) + sum_calls (flying c p) calls (stages t)"
    using sim by (simp_all add: simulates_def)
  have len: "\<forall>j \<in> set es. j < length (stages t) \<and> \<not> undecided (stages t ! j)" using own by (simp add: app.one_owner_def)
  have same: "\<not> replaying ((stages t)[i := st] ! j) \<and> successful ((stages t)[i := st] ! j) = successful (stages t ! j)"
    if "j \<in> set es" for j
    using that q(2) m(3) len by (cases "j = i") auto
  have "map (\<lambda>j. successful ((stages t)[i := st] ! j)) es = map (\<lambda>j. successful (stages t ! j)) es"
    using same by simp
  moreover have "holding c (objects u p) = holding c (objects s p) + sum_calls (flying c p) calls ((stages t)[i := st])" for c p
    using m(8) [of c p] q(1) [of c p] sum_calls_update [OF i, of "flying c p" calls st] by linarith
  ultimately show ?thesis using m same unfolding simulates_def by simp
qed

text \<open>A sequential call with a fresh key, put at the end of a run.\<close>

lemma simulates_call:
  fixes s0 :: "'w App"
  assumes sim: "simulates limit threshold s0 calls es t out u" and acc: "accounts u = accounts s0"
    and req: "calls ! i = (now, req)" and i: "i < length (stages t)" "i \<notin> set es"
    and match: "matched (objects s0) (acc_store (accounts s0)) req"
    and fresh: "request_key calls i \<notin> dom (key_store (idempotency s0)) \<union> request_key calls ` set es"
    and pay: "pay (inmemory_wiring limit threshold) now req u = (r, u')"
    and verdict: "succeeded r = successful st" "\<not> replaying st"
    and held: "\<And>c p. holding c (objects u' p) - holding c (objects u p) + flying c p req (stages t ! i) =
      holding c (objects s p) - holding c (objects (service t) p) + flying c p req st"
  shows "simulates limit threshold s0 calls (es @ [i]) \<lparr>service = s, stages = (stages t)[i := st]\<rparr> (out @ [r]) u'"
proof -
  note W = inmemory_wiring_sel(1) [of limit threshold]
  have m: "pays (inmemory_wiring limit threshold) (map ((!) calls) es) s0 = (out, u)"
    "map succeeded out = map (\<lambda>i. successful (stages t ! i)) es" "\<forall>i \<in> set es. \<not> replaying (stages t ! i)"
    "app_ok u" "shape (objects u) = shape (objects s0)"
    "dom (key_store (idempotency u)) = dom (key_store (idempotency s0)) \<union> request_key calls ` set es"
    "\<And>c p. holding c (objects u p) = holding c (objects (service t) p) + sum_calls (flying c p) calls (stages t)"
    using sim by (simp_all add: simulates_def)
  have key: "idempotencyKey req \<notin> dom (key_store (idempotency u))"
    using fresh unfolding m(6) by (simp add: request_key_def req)
  have match': "matched (objects u) (acc_store (accounts u)) req"
    using match matched_shape [OF m(5)] unfolding acc by blast
  have ok: "app_ok u'"
    using pays_app_ok(1) [OF W, of u "[(now, req)]"] m(4) match' pay
    by (simp add: standard_chain_returns)
  have keeps: "accounts u' = accounts u" "shape (objects u') = shape (objects u)"
    using app.pay_keeps(1,2) [OF W app_ok_parts(1) [OF m(4)] TrueI, of now req] pay by simp_all
  have keys: "dom (key_store (idempotency u')) = insert (request_key calls i) (dom (key_store (idempotency u)))"
    using app.pay_keys [OF W app_ok_parts(1) [OF m(4)], of now req] pay key by (auto simp: request_key_def req)
  have run: "pays (inmemory_wiring limit threshold) (map ((!) calls) (es @ [i])) s0 = (out @ [r], u')"
    using m(1) pay req by (simp add: pays_snoc)
  have "map succeeded (out @ [r]) = map (\<lambda>j. successful ((stages t)[i := st] ! j)) (es @ [i])"
    using m(2) i verdict(1) by (auto simp: nth_list_update intro: map_cong)
  moreover have "\<forall>j \<in> set (es @ [i]). \<not> replaying ((stages t)[i := st] ! j)"
    using m(3) i verdict(2) by (auto simp: nth_list_update)
  moreover have "holding c (objects u' p) = holding c (objects s p) + sum_calls (flying c p) calls ((stages t)[i := st])" for c p
    using m(7) [of c p] held [of c p] sum_calls_update [OF i(1), of "flying c p" calls st] by (simp add: req)
  ultimately show ?thesis
    using run ok keeps acc m(5,6) keys unfolding simulates_def by simp
qed

text \<open>
  What the sequential payer has: a payer who is refused here is refused there, one who has been debited here
  can be debited there.
\<close>

lemma refused_there:
  fixes s0 :: "'w App"
  assumes ready: "app.ready (inmemory_wiring limit threshold) s0 calls" and ok: "app.traffic_ok (inmemory_wiring limit threshold) s0 calls t"
    and sim: "simulates limit threshold s0 calls es t out u" and i: "i < length (stages t)" "stages t ! i = Debiting a"
    and debit: "debit_at (from_account a) (amount req) (objects (service t)) = Returns (d, h)" "Status_isErr d"
    and x: "objects u (from_account a) = Some x" "account_currency x = currency (amount req)" "0 \<le> units (amount req)"
  shows "funds x < units (amount req)"
proof (rule ccontr)
  let ?c = "currency (amount req)"
  assume enough: "\<not> funds x < units (amount req)"
  have "shape (objects (service t)) = shape (objects u)"
    using ok sim by (simp add: app.traffic_ok_def app.preserves_money_def simulates_def)
  from shape_Some [OF this x(1)] obtain y where y: "objects (service t) (from_account a) = Some y" "account_currency y = ?c"
    using x(2) by metis
  have "holding ?c (objects u (from_account a)) = holding ?c (objects (service t) (from_account a)) +
      sum_calls (flying ?c (from_account a)) calls (stages t)"
    using sim by (simp add: simulates_def)
  then have "funds y = funds x"
    using no_flight_under_lock [OF ready ok i, of ?c] x y by simp
  then obtain b where "debit (amount req) y = Returns (Status_ok, y\<lparr>balance := b\<rparr>)"
    using debit_covered [of "amount req" y] x(3) y(2) enough by (metis not_less)
  then show False using debit y(1) by (simp add: debit_at_def)
qed

lemma covered_there:
  fixes s0 :: "'w App"
  assumes ok: "app.traffic_ok (inmemory_wiring limit threshold) s0 calls t"
    and sim: "simulates limit threshold s0 calls es t out u"
    and i: "i < length (stages t)" "calls ! i = (now, req)" "stages t ! i = Crediting a"
  obtains x where "objects u (from_account a) = Some x" "account_currency x = currency (amount req)" "units (amount req) \<le> funds x"
proof -
  let ?c = "currency (amount req)" and ?p = "from_account a"
  have t: "length (stages t) = length calls" "solvent (objects (service t))"
    "\<And>j. j < length calls \<Longrightarrow> stage_ok (inmemory_wiring limit threshold :: 'w AppWiring) (acc_store (accounts s0)) (objects s0) (snd (calls ! j)) (stages t ! j)"
    using ok by (simp_all add: app.traffic_ok_def app.knows_def app.preserves_money_def)
  have u: "shape (objects u) = shape (objects s0)"
    "holding ?c (objects u ?p) = holding ?c (objects (service t) ?p) + sum_calls (flying ?c ?p) calls (stages t)"
    using sim by (simp_all add: simulates_def)
  obtain x0 where x0: "objects s0 ?p = Some x0" "account_currency x0 = ?c"
    using t(3) [of i] i t(1) by auto
  from shape_Some [OF u(1) x0(1)] obtain x where x: "objects u ?p = Some x" "account_currency x = ?c"
    using x0(2) by metis
  have "flying ?c ?p (snd (calls ! i)) (stages t ! i) \<le> sum_calls (flying ?c ?p) calls (stages t)"
    using i(1) t(1,3) by (intro sum_calls_member) (auto intro: flying_nonneg)
  then have "units (amount req) \<le> funds x"
    using u(2) solvent_holding [OF t(2), of ?c ?p] x i(2,3) by (simp add: in_currency_def)
  with x show thesis by (rule that)
qed

text \<open>What both runs have when a call decides: the same accounts, a free key, one currency.\<close>

lemma simulates_meet:
  fixes s0 :: "'w App"
  assumes ready: "app.ready (inmemory_wiring limit threshold) s0 calls" and ok: "app.traffic_ok (inmemory_wiring limit threshold) s0 calls t"
    and fresh: "request_key calls i \<notin> dom (key_store (idempotency s0)) \<union> request_key calls ` set es"
    and sim: "simulates limit threshold s0 calls es t out u" and i: "i < length (stages t)" "calls ! i = (now, req)"
  shows "app_ok u" "accounts u = accounts s0" "accounts (service t) = accounts s0"
    "shape (objects u) = shape (objects s0)" "shape (objects (service t)) = shape (objects s0)"
    "key_store (idempotency u) (idempotencyKey req) = None" "matched (objects s0) (acc_store (accounts s0)) req"
proof -
  have "length (stages t) = length calls" using ok by (simp add: app.traffic_ok_def app.knows_def)
  then show "matched (objects s0) (acc_store (accounts s0)) req"
    using ready i nth_mem [of i calls] by (auto simp: app.ready_def)
  have "idempotencyKey req \<notin> dom (key_store (idempotency u))"
    using fresh sim by (simp add: simulates_def request_key_def i(2))
  then show "key_store (idempotency u) (idempotencyKey req) = None" by (simp add: domIff)
qed (use sim ok in \<open>simp_all add: simulates_def app.traffic_ok_def app.knows_def app.preserves_money_def\<close>)

text \<open>A call refused here is refused there: what it lacked here, the sequential run lacks.\<close>

lemma refused_not_capturable:
  fixes s0 :: "'w App"
  assumes ready: "app.ready (inmemory_wiring limit threshold) s0 calls" and ok: "app.traffic_ok (inmemory_wiring limit threshold) s0 calls t"
    and sim: "simulates limit threshold s0 calls es t out u" and i: "i < length (stages t)"
    and acc: "accounts (service t) = accounts u"
    and why: "\<And>h. capturable limit threshold req (acc_store (accounts (service t))) h \<Longrightarrow>
      \<exists>a d. stages t ! i = Debiting a \<and>
        attempted (inmemory_wiring limit threshold :: 'w AppWiring) (acc_store (accounts (service t))) req a \<and>
        debit_at (from_account a) (amount req) (objects (service t)) = Returns (d, objects (service t)) \<and> Status_isErr d"
  shows "\<not> capturable limit threshold req (acc_store (accounts u)) (objects u)"
proof
  assume c: "capturable limit threshold req (acc_store (accounts u)) (objects u)"
  then obtain a d where a: "stages t ! i = Debiting a"
    "attempted (inmemory_wiring limit threshold :: 'w AppWiring) (acc_store (accounts u)) req a"
    "debit_at (from_account a) (amount req) (objects (service t)) = Returns (d, objects (service t))" "Status_isErr d"
    using why unfolding acc by blast
  obtain x where "objects u (from_account a) = Some x" "account_currency x = currency (amount req)" "units (amount req) \<le> funds x"
    using c unfolding attempted_capturable [OF a(2)] by blast
  with refused_there [OF ready ok sim i a(1,3,4)] c show False by (fastforce simp: capturable_def)
qed

text \<open>A call that credits here succeeds there, and moves there what it has in flight and adds here.\<close>

lemma paid_call:
  fixes s0 :: "'w App"
  assumes ready: "app.ready (inmemory_wiring limit threshold) s0 calls" and ok: "app.traffic_ok (inmemory_wiring limit threshold) s0 calls t"
    and fresh: "request_key calls i \<notin> dom (key_store (idempotency s0)) \<union> request_key calls ` set es"
    and sim: "simulates limit threshold s0 calls es t out u" and i: "i < length (stages t)" "calls ! i = (now, req)"
    and stage: "stages t ! i = Crediting a"
    and att: "attempted (inmemory_wiring limit threshold :: 'w AppWiring) (acc_store (accounts (service t))) req a"
    and credit: "0 \<le> units (amount req)" "credit_at (to_account a) (amount req) (objects (service t)) = Returns (cst, hp)"
    and pay: "pay (inmemory_wiring limit threshold) now req u = (r, u')"
  shows "succeeded r"
    and "holding c (objects u' p) - holding c (objects u p) + flying c p req (Crediting a) =
      holding c (hp p) - holding c (objects (service t) p)"
proof -
  note m = simulates_meet [OF ready ok fresh sim i]
  have att': "attempted (inmemory_wiring limit threshold :: 'w AppWiring) (acc_store (accounts u)) req a"
    using att by (simp add: m(2,3))
  have route: "acc_store (accounts s0) (payerAccountId req) = Some (from_account a)"
    "acc_store (accounts s0) (payeeAccountId req) = Some (to_account a)"
    using att' by (simp_all add: attempted_def m(2))
  obtain x where "objects u (from_account a) = Some x" "account_currency x = currency (amount req)" "units (amount req) \<le> funds x"
    by (rule covered_there [OF ok sim i stage])
  then have cap: "capturable limit threshold req (acc_store (accounts u)) (objects u)"
    by (simp add: attempted_capturable [OF att'])
  then show "succeeded r" by (simp add: succeeded_iff_capturable [OF m(1,6) pay])
  obtain p' q where pq: "acc_store (accounts u) (payerAccountId req) = Some p'" "acc_store (accounts u) (payeeAccountId req) = Some q"
    "transferred p' q (amount req) (objects u) (objects u')"
    by (rule captured_call [OF m(1,6) cap pay])
  have eq: "p' = from_account a" "q = to_account a" using pq(1,2) route by (simp_all add: m(2))
  obtain x0 where x0: "objects s0 (from_account a) = Some x0" "account_currency x0 = currency (amount req)"
  proof -
    have "stage_ok (inmemory_wiring limit threshold :: 'w AppWiring) (acc_store (accounts s0)) (objects s0) req (stages t ! i)"
      using ok i by (auto simp: app.traffic_ok_def app.knows_def)
    with stage show thesis by (auto intro: that)
  qed
  note same = matched_payee [OF m(7) route(1) x0 route(2)]
  show "holding c (objects u' p) - holding c (objects u p) + flying c p req (Crediting a) =
      holding c (hp p) - holding c (objects (service t) p)"
    using transferred_holding [OF pq(3) same [OF m(4), folded eq(2)], of c p]
      credit_at_holding [OF credit(2,1) same [OF m(5)], of c p] by (simp add: eq)
qed

lemma simulates_deciding:
  fixes s0 :: "'w App"
  assumes ready: "app.ready (inmemory_wiring limit threshold) s0 calls" and ok: "app.traffic_ok (inmemory_wiring limit threshold) s0 calls t"
    and fresh: "request_key calls i \<notin> dom (key_store (idempotency s0)) \<union> request_key calls ` set es"
    and sim: "simulates limit threshold s0 calls es t out u"
    and i: "i < length (stages t)" "i \<notin> set es" "calls ! i = (now, req)"
    and step: "call_step (inmemory_wiring limit threshold) now req (stages t ! i) (service t) = Some (st, s)"
    and takes: "takes_effect (stages t ! i) st"
  shows "\<exists>r u'. simulates limit threshold s0 calls (es @ [i]) \<lparr>service = s, stages = (stages t)[i := st]\<rparr> (out @ [r]) u'"
proof -
  note m = simulates_meet [OF ready ok fresh sim i(1,3)]
  obtain r u' where pay: "pay (inmemory_wiring limit threshold) now req u = (r, u')" by fastforce
  note call = simulates_call [OF sim m(2) i(3,1,2) m(7) fresh pay]
  have acc: "accounts (service t) = accounts u" by (simp add: m(2,3))
  have tame: "app.tame (inmemory_wiring limit threshold) (objects s0) req (stages t ! i) (service t)"
    using app.traffic_tame [OF ready ok i(1)] by (simp add: i(3))
  show ?thesis
  proof (rule deciding_step [OF tame step takes])
    assume st: "\<not> successful st" "\<not> replaying st" "objects s = objects (service t)"
      "\<And>c p. flying c p req st = 0" "\<And>c p. flying c p req (stages t ! i) = 0"
      and why: "\<And>h. capturable limit threshold req (acc_store (accounts (service t))) h \<Longrightarrow>
        \<exists>a d. stages t ! i = Debiting a \<and>
          attempted (inmemory_wiring limit threshold :: 'w AppWiring) (acc_store (accounts (service t))) req a \<and>
          debit_at (from_account a) (amount req) (objects (service t)) = Returns (d, objects (service t)) \<and> Status_isErr d"
    have no: "\<not> succeeded r"
      using succeeded_iff_capturable [OF m(1,6) pay] refused_not_capturable [OF ready ok sim i(1) acc why] by simp
    have "objects u' = objects u" by (rule refused_call [OF m(1,6) pay no])
    with call [of st s] st no show ?thesis by (intro exI) simp
  next
    fix a cst hp
    assume a: "stages t ! i = Crediting a" "st = Numbering a []" "s = service t\<lparr>objects := hp\<rparr>"
      "attempted (inmemory_wiring limit threshold :: 'w AppWiring) (acc_store (accounts (service t))) req a"
      "0 \<le> units (amount req)" "credit_at (to_account a) (amount req) (objects (service t)) = Returns (cst, hp)"
    note paid = paid_call [OF ready ok fresh sim i(1,3) a(1,4-6) pay]
    show ?thesis using call [of st s] paid a(1-3) by (intro exI) simp
  qed
qed

section \<open>Every interleaving has a sequential run\<close>

lemma start_simulates:
  fixes s0 :: "'w App"
  assumes "app_ok s0"
  shows "simulates limit threshold s0 calls [] (new_traffic calls s0) [] s0"
  using assms by (simp add: simulates_def new_traffic_def sum_calls_def)

lemma runs_simulates:
  fixes s0 :: "'w App"
  assumes ready: "app.ready (inmemory_wiring limit threshold) s0 calls" and ok: "app_ok s0"
    and run: "runs (traffic_step (inmemory_wiring limit threshold) calls) (new_traffic calls s0) es t"
  shows "\<exists>out u. simulates limit threshold s0 calls es t out u"
  using run
proof (induction rule: runs.induct)
  case start
  then show ?case using start_simulates [OF ok] by blast
next
  case (extend es t fs v)
  from extend.IH obtain out u where sim: "simulates limit threshold s0 calls es t out u" by blast
  note tok = app.traffic_runs_ok [OF ready extend.hyps(1)] and own = app.runs_one_owner [OF ready extend.hyps(1)]
  have own': "app.one_owner s0 calls (es @ fs) v"
    by (rule app.runs_one_owner [OF ready runs.extend [OF extend.hyps]])
  from extend.hyps(2) show ?case
  proof cases
    case (moves i now req st s)
    show ?thesis
    proof (cases "takes_effect (stages t ! i) st")
      case True
      then have fs: "fs = [i]" using moves(1) by simp
      note fresh = one_owner_fresh [OF own' [unfolded fs]]
      have "i \<notin> set es" using own True by (auto simp: app.one_owner_def takes_effect_def)
      from simulates_deciding [OF ready tok fresh sim moves(3) this moves(4,5) True] True moves(1,2)
      show ?thesis by auto
    next
      case False
      have "simulates limit threshold s0 calls es v out u"
        unfolding moves(2) by (rule simulates_silent [OF ready tok own sim moves(3)]) (use moves(4,5) False in simp_all)
      with False moves(1) show ?thesis by auto
    qed
  qed
qed

section \<open>At rest\<close>

lemma same_accounts:
  assumes "shape h = shape h'" "\<And>c p. holding c (h p) = holding c (h' p)"
  shows "h = h'"
proof
  fix p
  have sh: "map_option (\<lambda>a. (account_id a, account_type a, account_currency a)) (h p) =
      map_option (\<lambda>a. (account_id a, account_type a, account_currency a)) (h' p)"
    using fun_cong [OF assms(1), of p] by (simp add: shape_def)
  show "h p = h' p"
  proof (cases "h p")
    case None
    with sh show ?thesis by (cases "h' p") simp_all
  next
    case (Some a)
    with sh obtain b where b: "h' p = Some b" "account_id b = account_id a" "account_type b = account_type a"
      "account_currency b = account_currency a" by (cases "h' p") auto
    have "funds a = funds b" using assms(2) [of "account_currency a" p] Some b by simp
    then have "balance b = balance a" using b(4) by (intro Money_eqI) simp_all
    then have "b = a" using b(2,3) by (cases a; cases b) simp
    with Some b(1) show ?thesis by simp
  qed
qed

lemma app_ready:
  fixes s :: "'w App"
  assumes "app_ok s" "\<forall>(now, req) \<in> set calls. matched (objects s) (acc_store (accounts s)) req"
  shows "app.ready (inmemory_wiring limit threshold) s calls"
  using assms by (auto simp: app.ready_def app_ok_def standard_chain_returns)

text \<open>
  The calls that took effect, in that order, as a sequential run; the others found their key taken.
\<close>

definition serial_order ::
    "(int64 \<times> PaymentRequest) list \<Rightarrow> (string \<rightharpoonup> string) \<Rightarrow> nat list \<Rightarrow> bool" where
  "serial_order calls taken es \<longleftrightarrow> distinct es \<and> (\<forall>i \<in> set es. i < length calls) \<and>
     inj_on (request_key calls) (set es) \<and> request_key calls ` set es \<inter> dom taken = {} \<and>
     request_key calls ` {..<length calls} \<subseteq> dom taken \<union> request_key calls ` set es"

lemma rest_serial:
  fixes s :: "'w App"
  assumes ready: "app.ready (inmemory_wiring limit threshold) s calls" and ok: "app_ok s"
    and run: "runs (traffic_step (inmemory_wiring limit threshold) calls) (new_traffic calls s) es t"
    and rest: "at_rest (traffic_step (inmemory_wiring limit threshold) calls) t"
  obtains out u where "pays (inmemory_wiring limit threshold) (map ((!) calls) es) s = (out, u)"
    and "objects u = objects (service t)" and "serial_order calls (key_store (idempotency s)) es"
    and "list_all2 (\<lambda>i r. \<exists>r'. stages t ! i = Finished r' \<and> succeeded r' = succeeded r) es out"
proof -
  note tok = app.traffic_runs_ok [OF ready run] and own = app.runs_one_owner [OF ready run]
  note fin = app.rest_finished [OF ready tok rest]
  have len: "length (stages t) = length calls" and sh: "shape (objects (service t)) = shape (objects s)"
    using tok by (simp_all add: app.traffic_ok_def app.knows_def app.preserves_money_def)
  obtain out u where sim: "simulates limit threshold s calls es t out u"
    using runs_simulates [OF ready ok run] by blast
  then have m: "pays (inmemory_wiring limit threshold) (map ((!) calls) es) s = (out, u)"
    "map succeeded out = map (\<lambda>i. successful (stages t ! i)) es" "shape (objects u) = shape (objects s)"
    "\<And>c p. holding c (objects u p) = holding c (objects (service t) p) + sum_calls (flying c p) calls (stages t)"
    by (simp_all add: simulates_def)
  have "sum_calls (flying c p) calls (stages t) = 0" for c p
    unfolding sum_calls_def using fin(1) len by (intro sum.neutral) fastforce
  then have "objects u = objects (service t)" using m(3,4) sh by (intro same_accounts) simp_all
  moreover have ended: "\<not> owns (stages t ! i) \<and> \<not> undecided (stages t ! i)" if "i < length calls" for i
    using fin(1) [OF that] by auto
  have won: "won es (stages t) = set es" using own ended len by (auto simp: won_def app.one_owner_def)
  moreover have "serial_order calls (key_store (idempotency s)) es"
    using own ended len unfolding serial_order_def app.one_owner_def won by (auto simp: image_subset_iff)
  moreover have "list_all2 (\<lambda>i r. \<exists>r'. stages t ! i = Finished r' \<and> succeeded r' = succeeded r) es out"
  proof (rule list_all2_all_nthI)
    show n: "length es = length out" using arg_cong [OF m(2), of length] by simp
    fix k assume k: "k < length es"
    then have "es ! k < length calls" using own len nth_mem [OF k] by (simp add: app.one_owner_def)
    then obtain r' where r': "stages t ! (es ! k) = Finished r'" using fin(1) by blast
    have "succeeded (out ! k) = successful (stages t ! (es ! k))"
      using arg_cong [OF m(2), of "\<lambda>xs. xs ! k"] k n by simp
    with r' show "\<exists>r'. stages t ! (es ! k) = Finished r' \<and> succeeded r' = succeeded (out ! k)" by simp
  qed
  ultimately show ?thesis using m(1) by (intro that)
qed

end
