(* ===== verification/Interleaved_Calls.thy ===== *)
theory Interleaved_Calls
  imports Main_Threads Serial_Payments
begin

text \<open>
  Consequences of the serial order: a wallet is spent exactly by calls that interleave step by step, among
  them the fifty payments of the demo's scenario 5; and what a retry meets while the first call with its key
  is still under way.
\<close>

section \<open>Scenario 5, step by step\<close>

definition stress_traffic :: "(nat \<Rightarrow> int64) \<Rightarrow> (int64 \<times> PaymentRequest) list" where
  "stress_traffic now = map (stress_call now) [0..<50]"

lemma stress_traffic_sel:
  "length (stress_traffic now) = 50" "i < 50 \<Longrightarrow> stress_traffic now ! i = stress_call now i"
  by (simp_all add: stress_traffic_def del: upt_rec_numeral)

lemma stress_ready_calls:
  fixes s :: "'w App"
  assumes "stress_ready s" "open_wallet s = Returns s1"
  shows "\<forall>(now, req) \<in> set (stress_traffic clock). matched (objects s1) (acc_store (accounts s1)) req"
proof -
  note w = open_wallet_effect [OF assms]
  from assms(1) obtain q b where "acc_store (accounts s) ''acc_merchant_7'' = Some q" "objects s q = Some b"
    "account_currency b = INR" "objects s 2 = None" by (auto simp: stress_ready_def)
  then show ?thesis
    by (auto simp: stress_traffic_def matched_def w stress_request_def simp del: upt_rec_numeral)
qed

lemma all_fresh_serial_order:
  assumes "serial_order calls taken es" "\<And>i. i < length calls \<Longrightarrow> request_key calls i \<notin> dom taken"
    and "inj_on (request_key calls) {..<length calls}"
  shows "mset es = mset [0..<length calls]"
proof -
  have es: "distinct es" "set es \<subseteq> {..<length calls}"
    "request_key calls ` {..<length calls} \<subseteq> dom taken \<union> request_key calls ` set es"
    using assms(1) by (auto simp: serial_order_def)
  have "i \<in> set es" if i: "i < length calls" for i
  proof -
    have "request_key calls i \<in> request_key calls ` set es" using es(3) assms(2) [OF i] i by blast
    then show ?thesis using assms(3) es(2) i by (auto simp: inj_on_def)
  qed
  with es(2) have "set es = set [0..<length calls]" by auto
  then show ?thesis using es(1) set_eq_iff_mset_eq_distinct [of es "[0..<length calls]"] by simp
qed

definition charged :: "Stage \<Rightarrow> bool" where
  "charged st \<longleftrightarrow> (case st of Finished r \<Rightarrow> succeeded r | _ \<Rightarrow> False)"

lemma count_charged:
  assumes "list_all2 (\<lambda>i r. \<exists>r'. sts ! i = Finished r' \<and> succeeded r' = succeeded r) es out"
    and "mset es = mset [0..<length sts]"
  shows "length (filter charged sts) = length (filter succeeded out)"
proof -
  have "map (\<lambda>i. charged (sts ! i)) es = map succeeded out"
    using assms(1) by (induction rule: list_all2_induct) (auto simp: charged_def)
  from arg_cong [OF this, of "\<lambda>bs. length (filter id bs)"]
  have "length (filter (\<lambda>i. charged (sts ! i)) es) = length (filter succeeded out)"
    by (simp add: filter_map comp_def)
  moreover have "size (filter_mset (\<lambda>i. charged (sts ! i)) (mset es)) =
      size (filter_mset (\<lambda>i. charged (sts ! i)) (mset [0..<length sts]))" by (simp only: assms(2))
  then have "length (filter (\<lambda>i. charged (sts ! i)) es) = length (filter (\<lambda>i. charged (sts ! i)) [0..<length sts])"
    by (simp only: mset_filter [symmetric] size_mset)
  moreover have "length (filter (\<lambda>i. charged (sts ! i)) [0..<length sts]) = length (filter charged (map ((!) sts) [0..<length sts]))"
    by (simp add: filter_map comp_def)
  ultimately show ?thesis by (simp add: map_nth)
qed

text \<open>A call that can be spent never throws.\<close>

fun throwing :: "Stage \<Rightarrow> bool" where
  "throwing (Releasing (Throws e)) = True"
| "throwing (Finished (Throws e)) = True"
| "throwing st = False"

lemma spendable_step:
  fixes s :: "'w App"
  assumes "app.tame (inmemory_wiring limit threshold) h req st s"
    and "call_step (inmemory_wiring limit threshold) now req st s = Some (st', s')"
    and sp: "spendable (inmemory_wiring limit threshold :: 'w AppWiring) req" and not: "\<not> throwing st"
  shows "\<not> throwing st'"
proof (rule app.step_cases [OF assms(1,2)])
  fix txn e
  assume "requested req txn" "run (validation (inmemory_wiring limit threshold :: 'w AppWiring)) txn = Throws e"
  then show ?thesis using sp by (auto simp: spendable_def requested_sel)
next
  fix r
  assume "st = Releasing r" "st' = Finished r"
  then show ?thesis using not by (cases r) auto
next
  assume "(\<exists>i. st' = Replaying i) \<or> (\<exists>r. st' = Finished (Returns r))"
  then show ?thesis by auto
next
  fix a ns e ns'
  assume "st' = Numbering a ns' \<and> length ns' = 1 \<or> st' = Posting a ns' \<and> length ns' = 2"
  then show ?thesis by auto
next
  fix a
  obtain t ty r where "capturing a = Saving t ty r" by (rule capturing_cases)
  moreover assume "st' = capturing a"
  ultimately show ?thesis by simp
qed (use sp in \<open>auto simp: spendable_def\<close>)

lemma spendable_never_throws:
  fixes s0 :: "'w App"
  assumes ready: "app.ready (inmemory_wiring limit threshold) s0 calls"
    and run: "runs (traffic_step (inmemory_wiring limit threshold) calls) (new_traffic calls s0) es t"
    and i: "i < length calls" "spendable (inmemory_wiring limit threshold :: 'w AppWiring) (snd (calls ! i))"
  shows "\<not> throwing (stages t ! i)"
  using run
proof (induction rule: runs.induct)
  case start
  show ?case using i by (simp add: new_traffic_def)
next
  case (extend es t fs u)
  note tok = app.traffic_runs_ok [OF ready extend.hyps(1)]
  from extend.hyps(2) show ?case
  proof cases
    case (moves j now req st s)
    have "\<not> throwing st" if "j = i"
      by (rule spendable_step [OF app.traffic_tame [OF ready tok moves(3)]])
        (use moves(4,5) extend.IH i that in simp_all)
    with moves(2,3) extend.IH show ?thesis by (cases "j = i") auto
  qed
qed

text \<open>
  However payments of one amount from one wallet interleave, as many are charged as the wallet covers, and
  all of them return.
\<close>

lemma spending_permuted:
  assumes "mset rs = mset rs'" "spending W x y m claimed rs"
  shows "spending W x y m claimed rs'"
proof -
  let ?key = "\<lambda>r. idempotencyKey (snd r)"
  have "mset (map ?key rs) = mset (map ?key rs')" by (simp only: mset_map assms(1))
  then have "distinct (map ?key rs')" using assms(2) mset_eq_imp_distinct_iff unfolding spending_def by blast
  with assms(2) show ?thesis unfolding spending_def mset_eq_setD [OF assms(1)] by blast
qed

lemma interleaved_spending:
  fixes s :: "'w App" and limit threshold :: Money
  defines "W \<equiv> inmemory_wiring limit threshold :: 'w AppWiring"
  assumes ok: "app_ok s" and xy: "x \<noteq> y" and pos: "0 < units m"
    and sp: "spending W x y m (key_store (idempotency s)) calls"
    and p: "acc_store (accounts s) x = Some p" "objects s p = Some a" "account_currency a = currency m"
    and q: "acc_store (accounts s) y = Some q" "same_currency (objects s) q m"
    and run: "runs (traffic_step W calls) (new_traffic calls s) es t" and rest: "at_rest (traffic_step W calls) t"
  shows "int (length (filter charged (stages t))) = min (int (length calls)) (funds a div units m)"
    and "\<exists>a'. objects (service t) p = Some a' \<and> funds a' = funds a - min (int (length calls)) (funds a div units m) * units m"
    and "i < length calls \<Longrightarrow> \<exists>v. stages t ! i = Finished (Returns v)"
proof -
  have "\<forall>(now, req) \<in> set calls. matched (objects s) (acc_store (accounts s)) req"
    using sp p q by (fastforce simp: spending_def matched_def same_currency_def)
  note ready = app_ready [OF ok this, of limit threshold, folded W_def]
  obtain out u where u: "pays W (map ((!) calls) es) s = (out, u)" "objects u = objects (service t)"
    and order: "serial_order calls (key_store (idempotency s)) es"
    and verdicts: "list_all2 (\<lambda>i r. \<exists>r'. stages t ! i = Finished r' \<and> succeeded r' = succeeded r) es out"
    by (rule rest_serial [OF ready [unfolded W_def] ok run [unfolded W_def] rest [unfolded W_def], folded W_def])
  have es: "mset es = mset [0..<length calls]"
  proof (rule all_fresh_serial_order [OF order])
    show "request_key calls i \<notin> dom (key_store (idempotency s))" if "i < length calls" for i
      using sp nth_mem [OF that] by (auto simp: request_key_def spending_def)
    show "inj_on (request_key calls) {..<length calls}"
      using sp by (auto simp: spending_def request_key_def inj_on_def distinct_conv_nth)
  qed
  have perm: "mset (map ((!) calls) es) = mset calls"
    using es by (metis map_nth mset_map)
  note sp' = spending_permuted [OF perm [symmetric] sp] and len = mset_eq_length [OF perm]
  have "''account:'' @ x \<notin> held_keys (locks s)" using ok by (simp add: app_ok_def)
  note spent = app.pays_spend [OF inmemory_wiring_sel(1) xy pos app_ok_parts(1) [OF ok] TrueI app_ok_parts(2) [OF ok]
      this sp' [unfolded W_def] p q, folded W_def, unfolded u(1) len fst_conv snd_conv]
  have lent: "length (stages t) = length calls"
    using traffic_steps_length [OF run] by (simp add: new_traffic_def)
  show "int (length (filter charged (stages t))) = min (int (length calls)) (funds a div units m)"
    using count_charged [OF verdicts es [folded lent]] spent by simp
  show "\<exists>a'. objects (service t) p = Some a' \<and> funds a' = funds a - min (int (length calls)) (funds a div units m) * units m"
    using spent u(2) by simp
  assume i: "i < length calls"
  have "spendable W (snd (calls ! i))" using sp nth_mem [OF i] by (simp add: spending_def)
  from spendable_never_throws [OF ready [unfolded W_def] run [unfolded W_def] i this [unfolded W_def]]
  have "\<not> throwing (stages t ! i)" .
  moreover obtain r where "stages t ! i = Finished r" "r \<noteq> Undefined" "r \<noteq> Blocks"
    using app.rest_finished(1) [OF ready app.traffic_runs_ok [OF ready run] rest i] by blast
  ultimately show "\<exists>v. stages t ! i = Finished (Returns v)" by (cases r) auto
qed

lemma stress_interleaved:
  fixes s :: "'w App"
  assumes ready: "stress_ready s" and wallet: "open_wallet s = Returns s1"
    and run: "runs (traffic_step main_chain_wiring (stress_traffic clock)) (new_traffic (stress_traffic clock) s1) es t"
    and rest: "at_rest (traffic_step main_chain_wiring (stress_traffic clock)) t"
  shows "length (filter charged (stages t)) = 12" "\<exists>a. objects (service t) 2 = Some a \<and> funds a = 0"
    and "i < 50 \<Longrightarrow> \<exists>v. stages t ! i = Finished (Returns v)"
proof -
  let ?m = "fromMinor 10000 INR" and ?a = "mkAccount ''acc_stress'' USER_WALLET (fromMinor 120000 INR)"
  note w = open_wallet_effect [OF ready wallet]
  from ready obtain q b where q: "acc_store (accounts s) ''acc_merchant_7'' = Some q" "objects s q = Some b"
    "account_currency b = INR" "objects s 2 = None" by (auto simp: stress_ready_def)
  have "mset (map snd (stress_traffic clock)) = mset (map (stress_request ?m) [0..<50])"
    by (simp add: stress_traffic_def comp_def del: upt_rec_numeral)
  then have sp: "spending main_chain_wiring ''acc_stress'' ''acc_merchant_7'' ?m (key_store (idempotency s1)) (stress_traffic clock)"
    unfolding w(4) by (rule stress_spending) (use ready in \<open>simp add: stress_ready_def\<close>)
  have p: "acc_store (accounts s1) ''acc_stress'' = Some 2" "objects s1 2 = Some ?a" "account_currency ?a = currency ?m"
    by (simp_all add: w)
  have qv: "acc_store (accounts s1) ''acc_merchant_7'' = Some q" "same_currency (objects s1) q ?m"
    using q by (auto simp: w same_currency_def)
  note i = interleaved_spending [OF w(1) _ _ sp p qv run rest, unfolded stress_traffic_sel(1)]
  show "length (filter charged (stages t)) = 12" using i(1) by simp
  show "\<exists>a. objects (service t) 2 = Some a \<and> funds a = 0" using i(2) by simp
  show "\<exists>v. stages t ! i = Finished (Returns v)" if "i < 50" using i(3) that by simp
qed

section \<open>A retry while the first call is under way\<close>

lemma runs_move:
  assumes "runs (traffic_step W calls) t0 es t" "i < length (stages t)" "calls ! i = (now, req)"
    and "call_step W now req (stages t ! i) (service t) = Some (st, s)" "\<not> takes_effect (stages t ! i) st"
  shows "runs (traffic_step W calls) t0 es \<lparr>service = s, stages = (stages t)[i := st]\<rparr>"
  using runs.extend [OF assms(1) moves [OF assms(2-4)]] assms(5) by simp

text \<open>The retry looks its transaction up before the first call has stored it.\<close>

lemma retry_overtakes:
  fixes s :: "'w App"
  assumes key: "key_store (idempotency s) (idempotencyKey req) = None"
    and ids: "payerAccountId req \<noteq> []" "payeeAccountId req \<noteq> []"
    and unsaved: "txn_store (transactions s) (fst (next_id (txnIds s))) = None"
  obtains t where "runs (traffic_step (inmemory_wiring limit threshold) [(now, req), (now2, req)])
      (new_traffic [(now, req), (now2, req)] s) [] t"
    and "stages t ! 1 = Finished (Returns (duplicate_answer req))"
proof -
  let ?W = "inmemory_wiring limit threshold :: 'w AppWiring" and ?calls = "[(now, req), (now2, req)]"
  let ?R = "runs (traffic_step ?W ?calls) (new_traffic ?calls s) []"
  obtain i1 g1 i2 g2 where g: "next_id (txnIds s) = (i1, g1)" "next_id g1 = (i2, g2)" by fastforce
  have "i1 \<noteq> []" using g(1) by (auto simp: next_id_def id_text_def Let_def)
  then obtain txn where txn: "build now (request_builder req i1) = Returns txn"
    using ids by (simp add: build_def request_builder_def builder_defs)
  obtain ks where ks: "mem_putIfAbsent (idempotencyKey req) i1 (idempotency s) = (True, ks)"
    "mem_putIfAbsent (idempotencyKey req) i2 ks = (False, ks)" "mem_key_get (idempotencyKey req) ks = Some i1"
    using key by (simp add: mem_putIfAbsent_def mem_key_get_def)
  note ports = inmemory_wiring_sel(1) inmemory_ports_def
  have r0: "?R \<lparr>service = s, stages = [Minting, Minting]\<rparr>"
    using runs.start [of "traffic_step ?W ?calls" "new_traffic ?calls s"] by (simp add: new_traffic_def numeral_2_eq_2)
  have r1: "?R \<lparr>service = s\<lparr>txnIds := g1\<rparr>, stages = [Claiming i1, Minting]\<rparr>"
    using runs_move [OF r0, of 0 now req "Claiming i1"] g by (simp add: takes_effect_def)
  have r2: "?R \<lparr>service = s\<lparr>txnIds := g1, idempotency := ks\<rparr>, stages = [Locking txn, Minting]\<rparr>"
    using runs_move [OF r1, of 0 now req "Locking txn"] txn ks by (simp add: takes_effect_def ports)
  have r3: "?R \<lparr>service = s\<lparr>idempotency := ks, txnIds := g2\<rparr>, stages = [Locking txn, Claiming i2]\<rparr>"
    using runs_move [OF r2, of 1 now2 req "Claiming i2"] g by (simp add: takes_effect_def)
  have r4: "?R \<lparr>service = s\<lparr>txnIds := g2, idempotency := ks\<rparr>, stages = [Locking txn, Duplicate]\<rparr>"
    using runs_move [OF r3, of 1 now2 req Duplicate] ks by (simp add: takes_effect_def ports)
  have r5: "?R \<lparr>service = s\<lparr>txnIds := g2, idempotency := ks\<rparr>, stages = [Locking txn, Replaying i1]\<rparr>"
    using runs_move [OF r4, of 1 now2 req "Replaying i1"] ks by (simp add: takes_effect_def ports)
  have r6: "?R \<lparr>service = s\<lparr>txnIds := g2, idempotency := ks\<rparr>,
      stages = [Locking txn, Finished (Returns (duplicate_answer req))]\<rparr>"
    using runs_move [OF r5, of 1 now2 req "Finished (Returns (duplicate_answer req))"] unsaved g(1)
    by (simp add: takes_effect_def ports mem_txn_find_def)
  then show thesis by (rule that) simp
qed

lemma retry_in_progress:
  fixes s :: "'w App"
  assumes ok: "app_ok s" and key: "key_store (idempotency s) (idempotencyKey req) = None"
    and cap: "capturable limit threshold req (acc_store (accounts s)) (objects s)"
    and match: "matched (objects s) (acc_store (accounts s)) req"
    and unsaved: "txn_store (transactions s) (fst (next_id (txnIds s))) = None"
  obtains es t where "runs (traffic_step (inmemory_wiring limit threshold) [(now, req), (now2, req)])
      (new_traffic [(now, req), (now2, req)] s) es t"
    and "at_rest (traffic_step (inmemory_wiring limit threshold) [(now, req), (now2, req)]) t"
    and "charged (stages t ! 0)" "stages t ! 1 = Finished (Returns (duplicate_answer req))"
proof -
  let ?W = "inmemory_wiring limit threshold :: 'w AppWiring" and ?calls = "[(now, req), (now2, req)]"
  have "payerAccountId req \<noteq> []" "payeeAccountId req \<noteq> []" using cap by (simp_all add: capturable_def)
  from retry_overtakes [OF key this unsaved, of limit threshold now now2] obtain t1
    where t1: "runs (traffic_step ?W ?calls) (new_traffic ?calls s) [] t1" "stages t1 ! 1 = Finished (Returns (duplicate_answer req))"
    by blast
  obtain k es t where st: "steps (traffic_step ?W ?calls) k t1 es t" and rest: "at_rest (traffic_step ?W ?calls) t"
    using traffic_ends by blast
  have run: "runs (traffic_step ?W ?calls) (new_traffic ?calls s) es t" using runs_steps [OF st t1(1)] by simp
  have "runs (traffic_step ?W ?calls) t1 es t" unfolding runs_iff_steps using st by blast
  note dup = ended_stays [OF this t1(2)]
  have "app.ready ?W s ?calls" by (rule app_ready [OF ok]) (use match in simp)
  then obtain out u where u: "pays ?W (map ((!) ?calls) es) s = (out, u)" "serial_order ?calls (key_store (idempotency s)) es"
    and verdicts: "list_all2 (\<lambda>i r. \<exists>r'. stages t ! i = Finished r' \<and> succeeded r' = succeeded r) es out"
    by (rule rest_serial [OF _ ok run rest])
  have es: "set es \<subseteq> {0, 1}" "es \<noteq> []"
    using u(2) key by (auto simp: serial_order_def request_key_def numeral_2_eq_2 less_Suc_eq)
  then obtain i js where i: "es = i # js" "i = 0 \<or> i = 1" by (cases es) auto
  have call: "?calls ! i = (if i = 0 then now else now2, req)" using i(2) by auto
  obtain r u1 where pay: "pay ?W (if i = 0 then now else now2) req s = (r, u1)" by fastforce
  have "succeeded r" using succeeded_iff_capturable [OF ok key pay] cap by simp
  moreover obtain rs where "out = r # rs" using u(1) i(1) call pay by (auto simp: split_beta Let_def)
  ultimately have "charged (stages t ! i)" using verdicts i(1) by (auto simp: charged_def)
  moreover have "\<not> charged (stages t ! 1)"
    unfolding dup by (simp add: charged_def succeeded_def duplicate_answer_def Result_fail_def)
  ultimately have "charged (stages t ! 0)" using i(2) by auto
  with run rest dup show thesis by (intro that)
qed

end
