(* ===== verification/Main_Console.thy ===== *)
theory Main_Console
  imports Interleaved_Calls
begin

text \<open>
  What \<open>src/main.cpp\<close> writes to its console. The console is the outside world of the event publisher, so the
  lines of its subscriber and those of \<open>main\<close> end up in one text, in the order in which they are written.
  Standard output itself never fails. Text is bytes: the dash of the headings is the three bytes of its
  encoding.
\<close>

section \<open>Writing\<close>

type_synonym Console = "string App"

definition cout :: "string \<Rightarrow> Console \<Rightarrow> Console" where
  "cout t s = s\<lparr>events := (events s)\<lparr>outside := outside (events s) @ t\<rparr>\<rparr>"

definition console :: "Console \<Rightarrow> string" where
  "console s = outside (events s)"

definition dash :: string where
  "dash = [CHR 0xE2, CHR 0x80, CHR 0x94]"

definition rule_line :: string where
  "rule_line = ''------------------------------------------------'' @ [NEWLINE]"

definition title :: "string \<Rightarrow> string" where
  "title t = NEWLINE # ''### '' @ t @ '' ###'' @ [NEWLINE]"

text \<open>The headings of the scenarios.\<close>

definition heading_1 :: string where "heading_1 = ''1. Happy path '' @ dash @ '' a UPI payment of 500 INR''"
definition heading_2 :: string where "heading_2 = ''2. Idempotency '' @ dash @ '' retry the SAME key, must NOT charge twice''"
definition heading_3 :: string where "heading_3 = ''3. Insufficient funds '' @ dash @ '' debit larger than balance is rejected''"
definition heading_4 :: string where "heading_4 = ''4. Fraud rejection '' @ dash @ '' amount over the review threshold is held''"
definition heading_5 :: string where "heading_5 = ''5. Concurrency '' @ dash @ '' 50 parallel 100-INR debits, no double-spend''"
definition heading_6 :: string where "heading_6 = ''6. Ledger '' @ dash @ '' double-entry journal for the merchant (audit trail)''"
definition heading_7 :: string where "heading_7 = ''7. Durable adapter '' @ dash @ '' same port, now persisted to disk''"

definition event_line :: "DomainEvent \<Rightarrow> string" where
  "event_line e = ''  [event] '' @ event_type e @ '' for '' @ aggregateId e @ '' '' @ payload e @ [NEWLINE]"

definition event_printer :: "string Subscriber" where
  "event_printer e out = out @ event_line e"

text \<open>\<open>std::cout << label << account->balance() << after\<close>, at the account an address points to.\<close>

definition print_balance :: "string \<Rightarrow> addr \<Rightarrow> string \<Rightarrow> Console \<Rightarrow> Console outcome" where
  "print_balance label p after s = (case objects s p of
       None \<Rightarrow> Undefined
     | Some a \<Rightarrow> Returns (cout (label @ Money_toString (balance a) @ after) s))"

section \<open>Scenarios 1 to 4\<close>

definition main_begin :: "(string AppWiring \<times> Console) outcome" where
  "main_begin =
     (let out = ''=== Payment System :: End-to-End Demo (Phases 1-5) ==='' @ [NEWLINE]
      in obind main_wiring (\<lambda>W. obind (main_seed event_printer out) (\<lambda>s. Returns (W, s))))"

definition scenario_1 :: "string AppWiring \<Rightarrow> int64 \<Rightarrow> Console \<Rightarrow> Console outcome" where
  "scenario_1 W now s =
     (let s = cout (title heading_1) s;
          s = cout rule_line s
      in obind (main_request ''idem-key-001'' 500 UPI) (\<lambda>req.
         let (res, s) = pay W now req s
         in obind res (\<lambda>r.
           let s = cout ((case r of
                 Result_ok t \<Rightarrow> ''  OK  txn='' @ txn_id t @ '' status='' @ toString_status (txn_status t)
               | Result_err e \<Rightarrow> ''  ERR '' @ error_message e) @ [NEWLINE]) s
           in obind (print_balance ''  payer balance:    '' 0 [NEWLINE] s)
                (print_balance ''  merchant balance: '' 1 [NEWLINE]))))"

definition scenario_2 :: "string AppWiring \<Rightarrow> int64 \<Rightarrow> Console \<Rightarrow> Console outcome" where
  "scenario_2 W now s =
     (let s = cout (title heading_2) s;
          s = cout rule_line s
      in obind (main_request ''idem-key-001'' 500 UPI) (\<lambda>retry.
         let (res, s) = pay W now retry s
         in obind res (\<lambda>r.
           let s = cout (''  replayed txn: '' @ (case r of Result_ok t \<Rightarrow> txn_id t | Result_err e \<Rightarrow> error_message e) @ [NEWLINE]) s
           in print_balance ''  payer balance UNCHANGED: '' 0 [NEWLINE] s)))"

text \<open>Scenarios 3 and 4 differ in their heading, key and amount.\<close>

definition refused_scenario ::
    "string \<Rightarrow> string \<Rightarrow> int \<Rightarrow> string AppWiring \<Rightarrow> int64 \<Rightarrow> Console \<Rightarrow> Console outcome" where
  "refused_scenario heading key majorUnits W now s =
     (let s = cout (title heading) s;
          s = cout rule_line s
      in obind (main_request key majorUnits CARD_method) (\<lambda>req.
         let (res, s) = pay W now req s
         in obind res (\<lambda>r.
           Returns (cout (''  result: '' @ (case r of Result_ok t \<Rightarrow> ''OK'' | Result_err e \<Rightarrow> error_message e) @ [NEWLINE]) s))))"

definition scenario_3 :: "string AppWiring \<Rightarrow> int64 \<Rightarrow> Console \<Rightarrow> Console outcome" where
  "scenario_3 = refused_scenario heading_3
     ''idem-key-002'' 999999"

definition scenario_4 :: "string AppWiring \<Rightarrow> int64 \<Rightarrow> Console \<Rightarrow> Console outcome" where
  "scenario_4 = refused_scenario heading_4
     ''idem-key-003'' 60000"

definition main_to_scenario_4 :: "(nat \<Rightarrow> int64) \<Rightarrow> Console outcome" where
  "main_to_scenario_4 clock =
     obind main_begin (\<lambda>(W, s). obind (scenario_1 W (clock 1) s) (\<lambda>s. obind (scenario_2 W (clock 2) s) (\<lambda>s.
       obind (scenario_3 W (clock 3) s) (scenario_4 W (clock 4)))))"

section \<open>Scenarios 5 to 7\<close>

text \<open>Before the pool starts, and after all futures have been got.\<close>

definition scenario_5_begin :: "Console \<Rightarrow> Console outcome" where
  "scenario_5_begin s =
     (let s = cout (title heading_5) s
      in open_wallet (cout rule_line s))"

definition scenario_5_end :: "string Demo \<Rightarrow> Console outcome" where
  "scenario_5_end = (\<lambda>(s, ok, rejected).
     print_balance ''  final wallet balance: '' 2 (''  (never negative)'' @ [NEWLINE])
       (cout (''  succeeded: '' @ show_int ok @ ''  rejected: '' @ show_int rejected @ [NEWLINE]) s))"

definition entry_line :: "LedgerEntry \<Rightarrow> string" where
  "entry_line e = ''    seq='' @ show_int (sint (entry_seq e)) @ '' '' @ toString_direction (direction e) @ '' '' @
     Money_toString (entry_amount e) @ '' (txn '' @ entry_txnId e @ '')'' @ [NEWLINE]"

definition scenario_6 :: "Console \<Rightarrow> Console" where
  "scenario_6 s =
     (let s = cout (title heading_6) s;
          s = cout rule_line s;
          es = merchant_entries s;
          s = cout (''  '' @ show_nat (length es) @ '' credit entries recorded:'' @ [NEWLINE]) s
      in fold (\<lambda>e. cout (entry_line e)) es s)"

definition scenario_7 ::
    "(Index \<Rightarrow> Index) \<Rightarrow> int64 \<Rightarrow> int64 \<Rightarrow> string option \<Rightarrow> bool \<Rightarrow> Console \<Rightarrow> Console outcome" where
  "scenario_7 iter now now2 d w s =
     (let s = cout (title heading_7) s;
          s = cout rule_line s
      in obind (durable_demo iter now now2 d w) (\<lambda>loaded.
         let s = cout (''  saved txn_persist_1 to build/transactions.db'' @ [NEWLINE]) s;
             s = cout (''  after restart, reloaded from disk: '' @ (case loaded of
                   Some t \<Rightarrow> txn_id t @ '' ('' @ toString_status (txn_status t) @ '', '' @ Money_toString (txn_amount t) @ '')''
                 | None \<Rightarrow> ''NOT FOUND'') @ [NEWLINE]) s;
             s = cout rule_line s
         in Returns (cout (''Demo complete. See docs/HLD.md, docs/LLD.md, docs/INTERVIEW_QA.md.'' @ [NEWLINE]) s)))"

section \<open>What writing leaves alone\<close>

lemma cout_sel [simp]:
  "accounts (cout t s) = accounts s" "objects (cout t s) = objects s" "transactions (cout t s) = transactions s"
  "idempotency (cout t s) = idempotency s" "locks (cout t s) = locks s" "ledger (cout t s) = ledger s"
  "txnIds (cout t s) = txnIds s" "entryIds (cout t s) = entryIds s" "seq (cout t s) = seq s"
  "subscribers (events (cout t s)) = subscribers (events s)" "event_log (events (cout t s)) = event_log (events s)"
  "outside (events (cout t s)) = outside (events s) @ t"
  by (simp_all add: cout_def)

lemma cout_app_ok [simp]: "app_ok (cout t s) = app_ok s"
  by (simp add: app_ok_def)

lemma cout_stress_ready [simp]: "stress_ready (cout t s) = stress_ready s"
  by (simp add: stress_ready_def)

lemma fold_cout: "fold (\<lambda>e. cout (f e)) es s = cout (concat (map f es)) s"
  by (induction es arbitrary: s) (simp_all add: cout_def)

section \<open>One call in front of the console\<close>

definition wallets :: "int64 \<Rightarrow> int64 \<Rightarrow> heap" where
  "wallets u v = [0 \<mapsto> mkAccount ''acc_user_42'' USER_WALLET (fromMinor u INR),
     1 \<mapsto> mkAccount ''acc_merchant_7'' MERCHANT (fromMinor v INR)]"

text \<open>The state between two scenarios, as far as it decides what is printed.\<close>

definition shown ::
    "Console \<Rightarrow> string set \<Rightarrow> int64 \<times> int64 \<Rightarrow> (Direction \<times> Money) list \<Rightarrow> nat \<Rightarrow> string \<Rightarrow> bool" where
  "shown s ks b cs n out \<longleftrightarrow> app_ok s \<and> acc_store (accounts s) = [''acc_user_42'' \<mapsto> 0, ''acc_merchant_7'' \<mapsto> 1] \<and>
     dom (key_store (idempotency s)) = ks \<and> objects s = wallets (fst b) (snd b) \<and>
     credits_of ''acc_merchant_7'' (entries (ledger s)) = cs \<and> txnIds s = mkIdGenerator ''txn'' (of_nat n) \<and>
     subscribers (events s) = [event_printer] \<and> console s = out"

lemma shown_cout: "shown s ks b cs n out \<Longrightarrow> shown (cout t s) ks b cs n (out @ t)"
  by (simp add: shown_def console_def)

definition event_text :: "string \<Rightarrow> string \<Rightarrow> Money \<Rightarrow> TxnStatus \<Rightarrow> string" where
  "event_text ty i m st = ''  [event] '' @ ty @ '' for '' @ i @ '' {'' @ [quote_char] @ ''amount'' @ [quote_char] @ '':'' @
     [quote_char] @ Money_toString m @ [quote_char] @ '','' @ [quote_char] @ ''status'' @ [quote_char] @ '':'' @
     [quote_char] @ toString_status st @ [quote_char] @ ''}'' @ [NEWLINE]"

lemma printed_event:
  assumes "subscribers r = [event_printer]"
  shows "outside (mem_publish (mkEvent t ty) r) = outside r @ event_text ty (txn_id t) (txn_amount t) (txn_status t)"
  using assms by (simp add: mem_publish_def event_printer_def event_line_def mkEvent_def event_payload_def event_text_def)

lemma main_pay_matched:
  "m = [''acc_user_42'' \<mapsto> 0, ''acc_merchant_7'' \<mapsto> 1] \<Longrightarrow> matched (wallets u v) m (main_pay k a meth)"
  by (simp add: matched_def wallets_def main_pay_def)

text \<open>What every call has in common.\<close>

lemmas main_ports = inmemory_wiring_sel(1) [of "fromMinor 10000000 INR" "fromMinor 5000000 INR"]

lemma shown_call:
  assumes sh: "shown s ks b cs n out" and pay: "pay main_chain_wiring now (main_pay k a meth) s = (res, s')"
  shows "app_ok s'" "acc_store (accounts s') = [''acc_user_42'' \<mapsto> 0, ''acc_merchant_7'' \<mapsto> 1]"
    "dom (key_store (idempotency s')) = insert k ks" "txnIds s' = mkIdGenerator ''txn'' (of_nat (Suc n))"
proof -
  let ?req = "main_pay k a meth"
  have s: "app_ok s" "acc_store (accounts s) = [''acc_user_42'' \<mapsto> 0, ''acc_merchant_7'' \<mapsto> 1]"
    "dom (key_store (idempotency s)) = ks" "objects s = wallets (fst b) (snd b)" "txnIds s = mkIdGenerator ''txn'' (of_nat n)"
    using sh by (simp_all add: shown_def)
  have match: "\<forall>(now, req) \<in> set [(now, ?req)]. matched (objects s) (acc_store (accounts s)) req"
    unfolding s(4) by (simp add: main_pay_matched [OF s(2)])
  note W = main_ports and reg = app_ok_parts(1) [OF s(1)]
  show "app_ok s'"
    using pays_app_ok(1) [OF W _ _ s(1) match] pay by (simp add: standard_chain_returns)
  show "acc_store (accounts s') = [''acc_user_42'' \<mapsto> 0, ''acc_merchant_7'' \<mapsto> 1]"
    using app.pay_keeps(1) [OF W reg TrueI, of now ?req] pay s(2) by simp
  show "dom (key_store (idempotency s')) = insert k ks"
    using app.pay_keys [OF W reg, of now ?req] pay s(3) by (auto simp: main_pay_def)
  show "txnIds s' = mkIdGenerator ''txn'' (of_nat (Suc n))"
    using app.pay_txnIds [OF W reg, of now ?req] pay s(5) by (simp add: next_id_def mkIdGenerator_def Let_def add.commute)
qed

lemma shown_new_txn:
  assumes "shown s ks b cs n out" "n < 10"
  shows "txn_id (new_txn now req s) = ''txn_'' @ [decimal_digits ! n]"
proof -
  have "unat (of_nat n :: 64 word) = n" using assms(2) by (simp add: unat_of_nat)
  then show ?thesis using assms by (simp add: shown_def id_text_def show_nat_small mkIdGenerator_def)
qed

text \<open>The call that is captured.\<close>

lemma transferred_wallets:
  assumes "transferred 0 1 (fromMinor 50000 INR) (wallets 200000 0) h"
  shows "h = wallets 150000 50000"
  using assms
  by (auto simp: wallets_def transferred_def debit_at_def credit_at_def debit_def credit_def isNegative_def
      Money_compare_same Money_minus_def Money_plus_def add64_def sub64_def checked64_def in_int64_def mkAccount_def)

lemma shown_captured:
  assumes sh: "shown s ks (200000, 0) cs n out" and k: "k \<notin> ks"
  obtains s' t where "pay main_chain_wiring now (main_pay k 50000 UPI) s = (Returns (Result_ok t), s')"
    and "t = setStatus CAPTURED (new_txn now (main_pay k 50000 UPI) s)"
    and "shown s' (insert k ks) (150000, 50000) (cs @ [(CREDIT, fromMinor 50000 INR)]) (Suc n)
      (out @ event_text ''PaymentCaptured'' (txn_id t) (fromMinor 50000 INR) CAPTURED)"
    and "key_store (idempotency s') k = Some (txn_id t)" "txn_store (transactions s') (txn_id t) = Some t"
proof -
  let ?req = "main_pay k 50000 UPI" and ?t = "setStatus CAPTURED (new_txn now (main_pay k 50000 UPI) s)"
  have s: "app_ok s" "acc_store (accounts s) = [''acc_user_42'' \<mapsto> 0, ''acc_merchant_7'' \<mapsto> 1]"
    "dom (key_store (idempotency s)) = ks" "objects s = wallets 200000 0" "subscribers (events s) = [event_printer]"
    "credits_of ''acc_merchant_7'' (entries (ledger s)) = cs" "console s = out"
    using sh by (simp_all add: shown_def)
  have key: "key_store (idempotency s) (idempotencyKey ?req) = None" using k s(3) by (auto simp: main_pay_def)
  have cap: "capturable (fromMinor 10000000 INR) (fromMinor 5000000 INR) ?req (acc_store (accounts s)) (objects s)"
    by (simp add: capturable_def s(2,4) main_pay_def wallets_def)
  obtain res s' where pay: "pay main_chain_wiring now ?req s = (res, s')" by fastforce
  obtain p q where c: "res = Returns (Result_ok ?t)"
    "acc_store (accounts s) (payerAccountId ?req) = Some p" "acc_store (accounts s) (payeeAccountId ?req) = Some q"
    "transferred p q (amount ?req) (objects s) (objects s')"
    "entries (ledger s') = entries (ledger s) @ payment_posting ?req (new_txn now ?req s) s"
    by (rule captured_call [OF s(1) key cap pay])
  have "p = 0" "q = 1" using c(2,3) by (simp_all add: s(2) main_pay_def)
  with c(4) have "objects s' = wallets 150000 50000"
    using transferred_wallets [of "objects s'"] by (simp add: s(4) main_pay_def)
  moreover have rec: "recorded inmemory_ports (new_txn now ?req s) CAPTURED ''PaymentCaptured'' s s'"
    using app.pay_recorded(1) [OF main_ports app_ok_parts(1) [OF s(1)] key pay [unfolded c(1)]]
    by (simp add: final_status_def event_name_def)
  moreover have "credits_of ''acc_merchant_7'' (entries (ledger s')) = cs @ [(CREDIT, fromMinor 50000 INR)]"
    using s(6) by (auto simp: c(5) credits_of_def payment_posting_def mkPosting_def main_pay_def)
  ultimately have "shown s' (insert k ks) (150000, 50000) (cs @ [(CREDIT, fromMinor 50000 INR)]) (Suc n)
      (out @ event_text ''PaymentCaptured'' (txn_id ?t) (fromMinor 50000 INR) CAPTURED)"
    using shown_call [OF sh pay] s(5,7)
    by (simp add: shown_def recorded_def inmemory_ports_def console_def printed_event main_pay_def)
  moreover have "key_store (idempotency s') k = Some (txn_id ?t)"
    using app.pay_keys [OF main_ports app_ok_parts(1) [OF s(1)], of now ?req] pay key by (simp add: main_pay_def)
  moreover have "txn_store (transactions s') (txn_id ?t) = Some ?t"
    using rec by (simp add: recorded_def inmemory_ports_def mem_txn_save_def)
  ultimately show thesis using pay c(1) that by blast
qed

text \<open>The retry.\<close>

lemma shown_replayed:
  assumes sh: "shown s ks b cs n out" and key: "key_store (idempotency s) k = Some i" and t: "txn_store (transactions s) i = Some t"
  obtains s' where "pay main_chain_wiring now (main_pay k a meth) s = (Returns (Result_ok t), s')"
    and "shown s' ks b cs (Suc n) out"
proof -
  let ?req = "main_pay k a meth"
  obtain res s' where pay: "pay main_chain_wiring now ?req s = (res, s')" by fastforce
  have key': "key_store (idempotency s) (idempotencyKey ?req) = Some i" using key by (simp add: main_pay_def)
  note c = app.pay_claimed [OF main_ports key', of now, unfolded pay]
  have "res = Returns (Result_ok t)" using c(1) t by (simp add: inmemory_ports_def mem_txn_find_def)
  moreover have "k \<in> ks" using sh key by (auto simp: shown_def)
  then have "shown s' ks b cs (Suc n) out"
    using shown_call [OF sh pay] c(2) sh by (simp add: shown_def same_books_def console_def insert_absorb)
  ultimately show thesis using pay that by blast
qed

text \<open>A payment the chain refuses.\<close>

lemma shown_refused:
  assumes sh: "shown s ks b cs n out" and k: "k \<notin> ks" and c: "c \<noteq> NONE"
    and refuse: "\<And>txn. txn_amount txn = fromMinor a INR \<Longrightarrow> txn_payer txn = ''acc_user_42'' \<Longrightarrow> txn_payee txn = ''acc_merchant_7'' \<Longrightarrow>
      run (standard_chain (fromMinor 10000000 INR) (fromMinor 5000000 INR)) txn = Returns (Status_fail c m)"
  obtains s' where "pay main_chain_wiring now (main_pay k a meth) s = (Returns (Result_fail c m), s')"
    and "shown s' (insert k ks) b cs (Suc n)
      (out @ event_text ''PaymentFailed'' (txn_id (new_txn now (main_pay k a meth) s)) (fromMinor a INR) FAILED)"
proof -
  let ?req = "main_pay k a meth" and ?W = "main_chain_wiring :: string AppWiring"
  have s: "app_ok s" "dom (key_store (idempotency s)) = ks" "subscribers (events s) = [event_printer]" "console s = out"
    using sh by (simp_all add: shown_def)
  have pre: "key_store (idempotency s) (idempotencyKey ?req) = None" "lock_key ?req \<notin> held_keys (locks s)"
    "payerAccountId ?req \<noteq> []" "payeeAccountId ?req \<noteq> []"
    using k s(2) app_ok_parts(4) [OF s(1)] by (auto simp: main_pay_def)
  have run: "run (validation ?W) (new_txn now ?req s) = Returns (Status_fail c m)"
    unfolding inmemory_wiring_sel by (rule refuse) (simp_all add: main_pay_def)
  obtain s' where s': "pay ?W now ?req s = (Returns (Result_fail c m), s')" "objects s' = objects s" "ledger s' = ledger s"
    by (rule app.pay_rejected [OF main_ports pre run]) (use c in simp_all)
  have "recorded inmemory_ports (new_txn now ?req s) FAILED ''PaymentFailed'' s s'"
    using app.pay_recorded(1) [OF main_ports app_ok_parts(1) [OF s(1)] pre(1) s'(1)]
    by (simp add: final_status_def event_name_def Result_fail_def)
  then have "shown s' (insert k ks) b cs (Suc n)
      (out @ event_text ''PaymentFailed'' (txn_id (new_txn now ?req s)) (fromMinor a INR) FAILED)"
    using shown_call [OF sh s'(1)] s'(2,3) sh s(3,4)
    by (simp add: shown_def recorded_def inmemory_ports_def console_def printed_event main_pay_def)
  with s'(1) show thesis by (rule that)
qed

section \<open>The text of scenarios 1 to 4\<close>

definition lines_text :: "string list \<Rightarrow> string" where
  "lines_text ls = concat (map (\<lambda>l. l @ [NEWLINE]) ls)"

lemma lines_text_append [simp]: "lines_text (xs @ ys) = lines_text xs @ lines_text ys"
  by (simp add: lines_text_def)

lemma money_texts:
  "Money_toString (fromMinor 0 INR) = ''0.00 INR''" "Money_toString (fromMinor 10000 INR) = ''100.00 INR''"
  "Money_toString (fromMinor 50000 INR) = ''500.00 INR''" "Money_toString (fromMinor 75000 INR) = ''750.00 INR''"
  "Money_toString (fromMinor 150000 INR) = ''1500.00 INR''" "Money_toString (fromMinor 6000000 INR) = ''60000.00 INR''"
  "Money_toString (fromMinor 10000000 INR) = ''100000.00 INR''" "Money_toString (fromMinor 99999900 INR) = ''999999.00 INR''"
  by (simp_all add: Money_toString_nonneg show_nat_small show_nat_large decimal_digits_def)

lemma main_requests:
  "main_request k 500 m = Returns (main_pay k 50000 m)" "main_request k 999999 m = Returns (main_pay k 99999900 m)"
  "main_request k 60000 m = Returns (main_pay k 6000000 m)"
  by (simp_all add: main_request_def main_amounts main_pay_def)

definition banner :: "string list" where
  "banner = [''=== Payment System :: End-to-End Demo (Phases 1-5) ==='']"

definition rule_text :: string where
  "rule_text = ''------------------------------------------------''"

lemma main_begins:
  obtains s where "main_begin = Returns (main_chain_wiring, s)" "shown s {} (200000, 0) [] 1 (lines_text banner)"
proof -
  let ?s = "seeded event_printer (lines_text banner)"
  have "main_begin = Returns (main_chain_wiring, ?s)"
    by (simp add: main_begin_def main_wiring_eq main_seed_eq lines_text_def banner_def)
  moreover have "shown ?s {} (200000, 0) [] 1 (lines_text banner)"
    using seeded_ok [of event_printer "lines_text banner"]
    by (simp add: shown_def seeded_def wallets_def Money_zero_def credits_of_def console_def new_key_store_def new_ledger_def
        subscribe_def new_publisher_def fromMinor_def)
  ultimately show thesis by (rule that)
qed

definition event_json :: "string \<Rightarrow> string \<Rightarrow> string" where
  "event_json a st = ''{'' @ [quote_char] @ ''amount'' @ [quote_char] @ '':'' @ [quote_char] @ a @ [quote_char] @ '','' @
     [quote_char] @ ''status'' @ [quote_char] @ '':'' @ [quote_char] @ st @ [quote_char] @ ''}''"

lemma event_text_line:
  "event_text ty i m st = lines_text [''  [event] '' @ ty @ '' for '' @ i @ '' '' @ event_json (Money_toString m) (toString_status st)]"
  by (simp add: event_text_def event_json_def lines_text_def)

lemma heading: "title t @ rule_line = lines_text ['''', ''### '' @ t @ '' ###'', rule_text]"
  by (simp add: title_def rule_line_def rule_text_def lines_text_def)

definition text_1 :: "string list" where
  "text_1 = ['''', ''### '' @ heading_1 @ '' ###'', rule_text,
     ''  [event] PaymentCaptured for txn_1 '' @ event_json ''500.00 INR'' ''CAPTURED'',
     ''  OK  txn=txn_1 status=CAPTURED'', ''  payer balance:    1500.00 INR'', ''  merchant balance: 500.00 INR'']"

definition text_2 :: "string list" where
  "text_2 = ['''', ''### '' @ heading_2 @ '' ###'', rule_text,
     ''  replayed txn: txn_1'', ''  payer balance UNCHANGED: 1500.00 INR'']"

definition text_3 :: "string list" where
  "text_3 = ['''', ''### '' @ heading_3 @ '' ###'', rule_text,
     ''  [event] PaymentFailed for txn_3 '' @ event_json ''999999.00 INR'' ''FAILED'',
     ''  result: amount 999999.00 INR exceeds per-txn limit 100000.00 INR'']"

definition text_4 :: "string list" where
  "text_4 = ['''', ''### '' @ heading_4 @ '' ###'', rule_text,
     ''  [event] PaymentFailed for txn_4 '' @ event_json ''60000.00 INR'' ''FAILED'',
     ''  result: amount 60000.00 INR held for fraud review'']"

lemma shown_heading:
  assumes "shown s ks b cs n out"
  shows "shown (cout rule_line (cout (title t) s)) ks b cs n (out @ lines_text ['''', ''### '' @ t @ '' ###'', rule_text])"
  using shown_cout [OF shown_cout [OF assms, of "title t"], of rule_line] by (simp only: append_assoc heading)

lemma printed_balance:
  "shown s ks b cs n out \<Longrightarrow> print_balance l 0 [NEWLINE] s = Returns (cout (lines_text [l @ Money_toString (fromMinor (fst b) INR)]) s)"
  "shown s ks b cs n out \<Longrightarrow> print_balance l 1 [NEWLINE] s = Returns (cout (lines_text [l @ Money_toString (fromMinor (snd b) INR)]) s)"
  by (simp_all add: print_balance_def shown_def wallets_def lines_text_def)

lemma scenario_1_shown:
  assumes sh: "shown s {} (200000, 0) [] 1 out"
  obtains s' t where "scenario_1 main_chain_wiring now s = Returns s'"
    and "shown s' {''idem-key-001''} (150000, 50000) [(CREDIT, fromMinor 50000 INR)] 2 (out @ lines_text text_1)"
    and "key_store (idempotency s') ''idem-key-001'' = Some ''txn_1''" "txn_store (transactions s') ''txn_1'' = Some t"
    and "txn_id t = ''txn_1''"
proof -
  let ?t = heading_1
  let ?s0 = "cout rule_line (cout (title ?t) s)"
  note sh0 = shown_heading [OF sh, of ?t]
  obtain s1 t where s1: "pay main_chain_wiring now (main_pay ''idem-key-001'' 50000 UPI) ?s0 = (Returns (Result_ok t), s1)"
    "t = setStatus CAPTURED (new_txn now (main_pay ''idem-key-001'' 50000 UPI) ?s0)"
    "shown s1 (insert ''idem-key-001'' {}) (150000, 50000) ([] @ [(CREDIT, fromMinor 50000 INR)]) (Suc 1)
      ((out @ lines_text ['''', ''### '' @ ?t @ '' ###'', rule_text]) @ event_text ''PaymentCaptured'' (txn_id t) (fromMinor 50000 INR) CAPTURED)"
    "key_store (idempotency s1) ''idem-key-001'' = Some (txn_id t)" "txn_store (transactions s1) (txn_id t) = Some t"
    by (rule shown_captured [OF sh0]) simp
  have id: "txn_id t = ''txn_1''"
    using shown_new_txn [OF sh0, of now "main_pay ''idem-key-001'' 50000 UPI"] by (simp add: s1(2) decimal_digits_def)
  have st: "txn_status t = CAPTURED" by (simp add: s1(2))
  let ?s2 = "cout (lines_text [''  OK  txn=txn_1 status=CAPTURED'']) s1"
  let ?s3 = "cout (lines_text [''  payer balance:    1500.00 INR'']) ?s2"
  let ?s4 = "cout (lines_text [''  merchant balance: 500.00 INR'']) ?s3"
  note sh2 = shown_cout [OF s1(3), of "lines_text [''  OK  txn=txn_1 status=CAPTURED'']"]
  note sh3 = shown_cout [OF sh2, of "lines_text [''  payer balance:    1500.00 INR'']"]
  have "scenario_1 main_chain_wiring now s = obind (print_balance ''  payer balance:    '' 0 [NEWLINE] ?s2)
      (print_balance ''  merchant balance: '' 1 [NEWLINE])"
    by (simp add: scenario_1_def main_requests s1(1) id st lines_text_def)
  also have "\<dots> = Returns ?s4"
    using printed_balance(1) [OF sh2, of "''  payer balance:    ''"] printed_balance(2) [OF sh3, of "''  merchant balance: ''"]
    by (simp add: money_texts)
  finally have "scenario_1 main_chain_wiring now s = Returns ?s4" .
  moreover have "shown ?s4 {''idem-key-001''} (150000, 50000) [(CREDIT, fromMinor 50000 INR)] 2 (out @ lines_text text_1)"
    using shown_cout [OF sh3, of "lines_text [''  merchant balance: 500.00 INR'']"]
    by (simp add: text_1_def event_text_line id money_texts lines_text_def numeral_2_eq_2)
  ultimately show thesis using that s1(4,5) id by simp
qed

lemma scenario_2_shown:
  assumes sh: "shown s ks (150000, v) cs n out"
    and "key_store (idempotency s) ''idem-key-001'' = Some ''txn_1''" "txn_store (transactions s) ''txn_1'' = Some t" "txn_id t = ''txn_1''"
  obtains s' where "scenario_2 main_chain_wiring now s = Returns s'" "shown s' ks (150000, v) cs (Suc n) (out @ lines_text text_2)"
proof -
  let ?t = heading_2
  let ?s0 = "cout rule_line (cout (title ?t) s)"
  obtain s1 where s1: "pay main_chain_wiring now (main_pay ''idem-key-001'' 50000 UPI) ?s0 = (Returns (Result_ok t), s1)"
    "shown s1 ks (150000, v) cs (Suc n) (out @ lines_text ['''', ''### '' @ ?t @ '' ###'', rule_text])"
    by (rule shown_replayed [OF shown_heading [OF sh], where now = now and a = 50000 and meth = UPI]) (use assms(2,3) in simp_all)
  note sh2 = shown_cout [OF s1(2), of "lines_text [''  replayed txn: txn_1'']"]
  have "scenario_2 main_chain_wiring now s =
      print_balance ''  payer balance UNCHANGED: '' 0 [NEWLINE] (cout (lines_text [''  replayed txn: txn_1'']) s1)"
    by (simp add: scenario_2_def main_requests s1(1) assms(4) lines_text_def)
  also have "\<dots> = Returns (cout (lines_text [''  payer balance UNCHANGED: 1500.00 INR'']) (cout (lines_text [''  replayed txn: txn_1'']) s1))"
    using printed_balance(1) [OF sh2] by (simp add: money_texts)
  finally show thesis
    by (rule that) (use shown_cout [OF sh2, of "lines_text [''  payer balance UNCHANGED: 1500.00 INR'']"] in
      \<open>simp add: text_2_def lines_text_def\<close>)
qed

definition refused_text :: "string \<Rightarrow> nat \<Rightarrow> int64 \<Rightarrow> string \<Rightarrow> string list" where
  "refused_text h n a m = ['''', ''### '' @ h @ '' ###'', rule_text,
     ''  [event] PaymentFailed for txn_'' @ [decimal_digits ! n] @ '' '' @ event_json (Money_toString (fromMinor a INR)) ''FAILED'',
     ''  result: '' @ m]"

lemma refused_scenario_shown:
  assumes sh: "shown s ks b cs n out" and key: "k \<notin> ks" and n: "n < 10" and c: "c \<noteq> NONE"
    and req: "main_request k maj CARD_method = Returns (main_pay k a CARD_method)"
    and refuse: "\<And>txn. txn_amount txn = fromMinor a INR \<Longrightarrow> txn_payer txn = ''acc_user_42'' \<Longrightarrow> txn_payee txn = ''acc_merchant_7'' \<Longrightarrow>
      run (standard_chain (fromMinor 10000000 INR) (fromMinor 5000000 INR)) txn = Returns (Status_fail c m)"
  obtains s' where "refused_scenario h k maj main_chain_wiring now s = Returns s'"
    and "shown s' (insert k ks) b cs (Suc n) (out @ lines_text (refused_text h n a m))"
proof -
  let ?s0 = "cout rule_line (cout (title h) s)" and ?req = "main_pay k a CARD_method"
  note sh0 = shown_heading [OF sh, of h]
  obtain s1 where s1: "pay main_chain_wiring now ?req ?s0 = (Returns (Result_fail c m), s1)"
    "shown s1 (insert k ks) b cs (Suc n) ((out @ lines_text ['''', ''### '' @ h @ '' ###'', rule_text]) @
      event_text ''PaymentFailed'' (txn_id (new_txn now ?req ?s0)) (fromMinor a INR) FAILED)"
    by (rule shown_refused [OF sh0 key c refuse])
  have id: "txn_id (new_txn now ?req ?s0) = ''txn_'' @ [decimal_digits ! n]" by (rule shown_new_txn [OF sh0 n])
  have "refused_scenario h k maj main_chain_wiring now s = Returns (cout (lines_text [''  result: '' @ m]) s1)"
    by (simp add: refused_scenario_def req s1(1) Result_fail_def mkError_sel lines_text_def)
  then show thesis
    by (rule that) (use shown_cout [OF s1(2), of "lines_text [''  result: '' @ m]"] id in
      \<open>simp add: event_text_line lines_text_def refused_text_def\<close>)
qed

text \<open>The two headings and answers.\<close>

lemma text_3_eq: "text_3 = refused_text heading_3 3 99999900
    (''amount '' @ Money_toString (fromMinor 99999900 INR) @ '' exceeds per-txn limit '' @ Money_toString (fromMinor 10000000 INR))"
  by (simp add: text_3_def refused_text_def money_texts decimal_digits_def)

lemma text_4_eq: "text_4 = refused_text heading_4 4 6000000
    (''amount '' @ Money_toString (fromMinor 6000000 INR) @ '' held for fraud review'')"
  by (simp add: text_4_def refused_text_def money_texts decimal_digits_def)

lemma scenarios_shown:
  obtains s where "main_to_scenario_4 clock = Returns s"
    and "shown s {''idem-key-001'', ''idem-key-002'', ''idem-key-003''} (150000, 50000) [(CREDIT, fromMinor 50000 INR)] 5
      (lines_text (banner @ text_1 @ text_2 @ text_3 @ text_4))"
proof -
  obtain s0 where s0: "main_begin = Returns (main_chain_wiring, s0)" "shown s0 {} (200000, 0) [] 1 (lines_text banner)"
    by (rule main_begins)
  obtain s1 t where s1: "scenario_1 main_chain_wiring (clock 1) s0 = Returns s1"
    "shown s1 {''idem-key-001''} (150000, 50000) [(CREDIT, fromMinor 50000 INR)] 2 (lines_text banner @ lines_text text_1)"
    "key_store (idempotency s1) ''idem-key-001'' = Some ''txn_1''" "txn_store (transactions s1) ''txn_1'' = Some t" "txn_id t = ''txn_1''"
    by (rule scenario_1_shown [OF s0(2)])
  obtain s2 where s2: "scenario_2 main_chain_wiring (clock 2) s1 = Returns s2"
    "shown s2 {''idem-key-001''} (150000, 50000) [(CREDIT, fromMinor 50000 INR)] (Suc 2)
      ((lines_text banner @ lines_text text_1) @ lines_text text_2)"
    by (rule scenario_2_shown [OF s1(2-5)])
  obtain s3 where s3: "scenario_3 main_chain_wiring (clock 3) s2 = Returns s3"
    "shown s3 (insert ''idem-key-002'' {''idem-key-001''}) (150000, 50000) [(CREDIT, fromMinor 50000 INR)] (Suc (Suc 2))
      (((lines_text banner @ lines_text text_1) @ lines_text text_2) @ lines_text text_3)"
    unfolding scenario_3_def text_3_eq
    by (rule refused_scenario_shown [OF s2(2) _ _ _ main_requests(2) main_rejects(1), where now = "clock 3" and k = "''idem-key-002''"])
      simp_all
  obtain s4 where s4: "scenario_4 main_chain_wiring (clock 4) s3 = Returns s4"
    "shown s4 (insert ''idem-key-003'' (insert ''idem-key-002'' {''idem-key-001''})) (150000, 50000) [(CREDIT, fromMinor 50000 INR)]
      (Suc (Suc (Suc 2))) ((((lines_text banner @ lines_text text_1) @ lines_text text_2) @ lines_text text_3) @ lines_text text_4)"
    unfolding scenario_4_def text_4_eq
    by (rule refused_scenario_shown [OF s3(2) _ _ _ main_requests(3) main_rejects(2), where now = "clock 4" and k = "''idem-key-003''"])
      simp_all
  show thesis
  proof (rule that)
    show "main_to_scenario_4 clock = Returns s4"
      by (simp add: main_to_scenario_4_def s0(1) s1(1) s2(1) s3(1) s4(1) del: One_nat_def)
    have "{''idem-key-001'', ''idem-key-002'', ''idem-key-003''} =
        insert ''idem-key-003'' (insert ''idem-key-002'' {''idem-key-001''})" by auto
    then show "shown s4 {''idem-key-001'', ''idem-key-002'', ''idem-key-003''} (150000, 50000) [(CREDIT, fromMinor 50000 INR)] 5
        (lines_text (banner @ text_1 @ text_2 @ text_3 @ text_4))"
      using s4(2) by (simp add: eval_nat_numeral)
  qed
qed

end
