(* ===== verification/Main_Console_End.thy ===== *)
theory Main_Console_End
  imports Main_Console
begin

text \<open>
  What \<open>src/main.cpp\<close> writes from scenario 5 on. The fifty calls print one line each, in an order that is
  left open; the figures that follow are the same in every run.
\<close>

section \<open>The lines of a run of calls\<close>

lemma pays_print:
  assumes "registered (objects s) (acc_store (accounts s))" "subscribers (events s) = [event_printer]"
    and "spending (main_chain_wiring :: string AppWiring) x y m (key_store (idempotency s)) rs"
    and "\<forall>r \<in> set (fst (pays main_chain_wiring rs s)). \<exists>u. r = Returns u"
  shows "\<exists>evs. console (snd (pays main_chain_wiring rs s)) = console s @ concat (map event_line evs) \<and>
    map event_type evs = map (\<lambda>r. if succeeded r then ''PaymentCaptured'' else ''PaymentFailed'') (fst (pays main_chain_wiring rs s))"
  using assms
proof (induction rs arbitrary: s)
  case (Cons z rs)
  obtain now req where z: "z = (now, req)" by fastforce
  note reg = Cons.prems(1)
  have key: "key_store (idempotency s) (idempotencyKey req) = None" using Cons.prems(3) by (auto simp: z spending_def)
  obtain res s1 where pay: "pay main_chain_wiring now req s = (res, s1)" by fastforce
  obtain r where r: "res = Returns r" using Cons.prems(4) by (auto simp: z pay split_beta Let_def)
  have "recorded inmemory_ports (new_txn now req s) (final_status r) (event_name r) s s1"
    using app.pay_recorded(1) [OF main_ports reg key pay [unfolded r]] .
  then obtain ev where ev: "events s1 = mem_publish ev (events s)" "event_type ev = event_name r"
    by (auto simp: recorded_def inmemory_ports_def mkEvent_def)
  have out: "console s1 = console s @ event_line ev" "subscribers (events s1) = [event_printer]"
    using Cons.prems(2) by (simp_all add: console_def ev(1)) (simp add: mem_publish_def event_printer_def)
  have keys1: "spending (main_chain_wiring :: string AppWiring) x y m (key_store (idempotency s1)) rs"
    using app.pay_keys [OF main_ports reg, of now req] key spending_Cons [OF Cons.prems(3) [unfolded z]] by (simp add: pay)
  have reg1: "registered (objects s1) (acc_store (accounts s1))"
    using app.pay_registered [OF main_ports reg TrueI, of now req] by (simp add: pay)
  have "\<forall>r \<in> set (fst (pays main_chain_wiring rs s1)). \<exists>u. r = Returns u"
    using Cons.prems(4) by (auto simp: z pay split_beta Let_def)
  from Cons.IH [OF reg1 out(2) keys1 this] obtain evs where
    evs: "console (snd (pays main_chain_wiring rs s1)) = console s1 @ concat (map event_line evs)"
    "map event_type evs = map (\<lambda>r. if succeeded r then ''PaymentCaptured'' else ''PaymentFailed'') (fst (pays main_chain_wiring rs s1))"
    by blast
  show ?case
    by (rule exI [of _ "ev # evs"]) (use evs out(1) ev(2) r in \<open>simp add: z pay split_beta Let_def event_name_def\<close>)
qed simp

lemma pays_length: "length (fst (pays W rs s)) = length rs"
  by (induction rs arbitrary: s) (auto simp: split_beta Let_def)

section \<open>Scenario 5\<close>

lemma shown_stress_ready:
  assumes "shown s {''idem-key-001'', ''idem-key-002'', ''idem-key-003''} (150000, 50000) cs n out"
  shows "stress_ready s"
proof -
  have s: "app_ok s" "acc_store (accounts s) = [''acc_user_42'' \<mapsto> 0, ''acc_merchant_7'' \<mapsto> 1]"
    "dom (key_store (idempotency s)) = {''idem-key-001'', ''idem-key-002'', ''idem-key-003''}" "objects s = wallets 150000 50000"
    using assms by (simp_all add: shown_def)
  have "key_store (idempotency s) (''stress-'' @ show_nat i) = None" for i
  proof -
    have "''stress-'' @ show_nat i \<notin> dom (key_store (idempotency s))" unfolding s(3) by simp
    then show ?thesis by (simp add: domIff)
  qed
  moreover have "total INR (wallets 150000 50000) = 200000" by (simp add: total_def wallets_def)
  ultimately show ?thesis using s(1,2,4) by (simp add: stress_ready_def) (simp add: wallets_def)
qed

definition text_5 :: "string list" where
  "text_5 = ['''', ''### '' @ heading_5 @ '' ###'', rule_text]"

definition text_5_end :: "string list" where
  "text_5_end = [''  succeeded: 12  rejected: 38'', ''  final wallet balance: 0.00 INR  (never negative)'']"

lemma open_wallet_events:
  assumes "open_wallet s = Returns s1"
  shows "events s1 = events s"
  using assms by (auto simp: open_wallet_def open_account_def mem_acc_save_def main_amounts)

lemma scenario_5_console:
  assumes sh: "shown s {''idem-key-001'', ''idem-key-002'', ''idem-key-003''} (150000, 50000) [(CREDIT, fromMinor 50000 INR)] n out"
    and start: "scenario_5_begin s = Returns s1"
    and run: "pool_run (stress_pool s1) es p" "map work (submitted es) = stress_jobs clock"
    and got: "\<forall>f < 50. futures p f \<noteq> None" "\<not> stopped p"
  obtains s3 evs where "scenario_5_end (world p) = Returns s3"
    and "console s3 = out @ lines_text text_5 @ concat (map event_line evs) @ lines_text text_5_end"
    and "length evs = 50" "length (filter (\<lambda>e. event_type e = ''PaymentCaptured'') evs) = 12"
    and "credits_of ''acc_merchant_7'' (entries (ledger s3)) = (CREDIT, fromMinor 50000 INR) # replicate 12 (CREDIT, fromMinor 10000 INR)"
proof -
  let ?s0 = "cout rule_line (cout (title heading_5) s)"
  note sh0 = shown_heading [OF sh, of heading_5, folded text_5_def]
  note ready = shown_stress_ready [OF sh0]
  have wallet: "open_wallet ?s0 = Returns s1" using start by (simp add: scenario_5_begin_def)
  note w = open_wallet_effect [OF ready wallet] and ev = open_wallet_events [OF wallet]
  obtain js outs s2 where c: "mset js = mset [0..<50]" "pays main_chain_wiring (map (stress_call clock) js) s1 = (outs, s2)"
    "world p = (s2, 12, 38)"
    by (rule stress_pool_calls [OF ready wallet run got])
  note d = stress_calls [OF ready wallet c(1,2)]
  have "mset (map snd (map (stress_call clock) js)) = mset (map (stress_request (fromMinor 10000 INR)) [0..<50])"
    using c(1) by (simp add: comp_def del: upt_rec_numeral)
  then have sp: "spending (main_chain_wiring :: string AppWiring) ''acc_stress'' ''acc_merchant_7'' (fromMinor 10000 INR) (key_store (idempotency s1))
      (map (stress_call clock) js)"
    unfolding w(4) by (rule stress_spending) (use ready in \<open>simp add: stress_ready_def\<close>)
  have sub: "subscribers (events s1) = [event_printer]" "console s1 = out @ lines_text text_5"
    using sh0 by (simp_all add: ev console_def shown_def)
  obtain evs where evs: "console s2 = console s1 @ concat (map event_line evs)"
    "map event_type evs = map (\<lambda>r. if succeeded r then ''PaymentCaptured'' else ''PaymentFailed'') outs"
    using pays_print [OF app_ok_parts(1) [OF w(1)] sub(1) sp] d(3) c(2) by auto
  have "length outs = length js" using arg_cong [OF c(2), of "\<lambda>x. length (fst x)"] by (simp add: pays_length)
  then have len: "length evs = 50" using arg_cong [OF evs(2), of length] mset_eq_length [OF c(1)] by simp
  have "length (filter (\<lambda>e. event_type e = ''PaymentCaptured'') evs) = length (filter (\<lambda>t. t = ''PaymentCaptured'') (map event_type evs))"
    by (simp add: filter_map comp_def)
  also have "\<dots> = length (filter succeeded outs)"
    unfolding evs(2) by (simp add: filter_map comp_def cong: if_cong)
  finally have captured: "length (filter (\<lambda>e. event_type e = ''PaymentCaptured'') evs) = 12" using d(1) by simp
  obtain a where a: "objects s2 2 = Some a" "funds a = 0" using d(2) by blast
  have "shape (objects s2) = shape (objects s1)"
    using app.pays_frame [OF main_ports app_ok_parts(1) [OF w(1)] TrueI, of "map (stress_call clock) js"] unfolding c(2) by simp
  from fun_cong [OF this, of 2] a(1) have "account_currency a = INR" by (simp add: shape_def w(3))
  with a(2) have bal: "balance a = fromMinor 0 INR" by (intro Money_eqI) simp_all
  let ?s3 = "cout (lines_text [''  final wallet balance: 0.00 INR  (never negative)''])
      (cout (lines_text [''  succeeded: 12  rejected: 38'']) s2)"
  show thesis
  proof (rule that)
    have "show_int 12 = ''12''" "show_int 38 = ''38''"
      by (simp_all add: show_int_def show_nat_small show_nat_large decimal_digits_def)
    then show "scenario_5_end (world p) = Returns ?s3"
      by (simp add: scenario_5_end_def c(3) print_balance_def a(1) bal money_texts lines_text_def)
    show "console ?s3 = out @ lines_text text_5 @ concat (map event_line evs) @ lines_text text_5_end"
      using evs(1) sub(2) by (simp add: console_def text_5_end_def lines_text_def)
    show "credits_of ''acc_merchant_7'' (entries (ledger ?s3)) =
        (CREDIT, fromMinor 50000 INR) # replicate 12 (CREDIT, fromMinor 10000 INR)"
      using d(4) sh by (simp add: w(5) shown_def)
  qed (rule len captured)+
qed

section \<open>Scenarios 6 and 7\<close>

definition text_6 :: "nat \<Rightarrow> string list" where
  "text_6 n = ['''', ''### '' @ heading_6 @ '' ###'', rule_text, ''  '' @ show_nat n @ '' credit entries recorded:'']"

lemma scenario_6_console:
  "console (scenario_6 s) = console s @ lines_text (text_6 (length (merchant_entries s))) @ concat (map entry_line (merchant_entries s))"
proof -
  have "merchant_entries (cout t s) = merchant_entries s" for t s by (simp add: merchant_entries_def)
  then show ?thesis
    by (simp add: scenario_6_def Let_def fold_cout console_def text_6_def lines_text_def title_def rule_line_def rule_text_def)
qed

text \<open>A line of the audit trail, for a credit.\<close>

lemma entry_line_credit:
  "direction e = CREDIT \<Longrightarrow> entry_line e = ''    seq='' @ show_int (sint (entry_seq e)) @ '' CREDIT '' @
     Money_toString (entry_amount e) @ '' (txn '' @ entry_txnId e @ '')'' @ [NEWLINE]"
  by (simp add: entry_line_def)

definition text_7 :: "bool \<Rightarrow> string list" where
  "text_7 found = ['''', ''### '' @ heading_7 @ '' ###'', rule_text, ''  saved txn_persist_1 to build/transactions.db'',
     ''  after restart, reloaded from disk: '' @ (if found then ''txn_persist_1 (CAPTURED, 750.00 INR)'' else ''NOT FOUND''),
     rule_text, ''Demo complete. See docs/HLD.md, docs/LLD.md, docs/INTERVIEW_QA.md.'']"

lemma scenario_7_console:
  assumes "\<And>idx. mset (iter idx) = mset idx"
  shows "\<exists>s'. scenario_7 iter now now2 None can_open s = Returns s' \<and> console s' = console s @ lines_text (text_7 can_open)"
proof -
  have "durable_demo iter now now2 None can_open = Returns (if can_open then Some (persisted now) else None)"
    using durable_demo_found [OF assms] durable_demo_lost by (cases can_open) simp_all
  then show ?thesis
    by (simp add: scenario_7_def Let_def console_def text_7_def lines_text_def title_def rule_line_def rule_text_def
        persisted_def money_texts)
qed

section \<open>The whole text\<close>

lemma demo_console:
  assumes iter: "\<And>idx. mset (iter idx) = mset idx"
    and scenarios: "main_to_scenario_4 clock = Returns s" and start: "scenario_5_begin s = Returns s1"
    and run: "pool_run (stress_pool s1) es p" "map work (submitted es) = stress_jobs clock5"
    and got: "\<forall>f < 50. futures p f \<noteq> None" "\<not> stopped p"
    and end5: "scenario_5_end (world p) = Returns s3" and end7: "scenario_7 iter now now2 None can_open (scenario_6 s3) = Returns s'"
  obtains evs ls where "console s' = lines_text (banner @ text_1 @ text_2 @ text_3 @ text_4 @ text_5) @ concat (map event_line evs) @
      lines_text (text_5_end @ text_6 13) @ concat (map entry_line ls) @ lines_text (text_7 can_open)"
    and "length evs = 50" "length (filter (\<lambda>e. event_type e = ''PaymentCaptured'') evs) = 12"
    and "map (\<lambda>e. (direction e, entry_amount e)) ls = (CREDIT, fromMinor 50000 INR) # replicate 12 (CREDIT, fromMinor 10000 INR)"
proof -
  let ?out = "lines_text (banner @ text_1 @ text_2 @ text_3 @ text_4)"
  obtain s0 where "main_to_scenario_4 clock = Returns s0"
    "shown s0 {''idem-key-001'', ''idem-key-002'', ''idem-key-003''} (150000, 50000) [(CREDIT, fromMinor 50000 INR)] 5 ?out"
    by (rule scenarios_shown)
  with scenarios have sh: "shown s {''idem-key-001'', ''idem-key-002'', ''idem-key-003''} (150000, 50000)
      [(CREDIT, fromMinor 50000 INR)] 5 ?out" by simp
  obtain s3' evs where c: "scenario_5_end (world p) = Returns s3'"
    "console s3' = ?out @ lines_text text_5 @ concat (map event_line evs) @ lines_text text_5_end"
    "length evs = 50" "length (filter (\<lambda>e. event_type e = ''PaymentCaptured'') evs) = 12"
    "credits_of ''acc_merchant_7'' (entries (ledger s3')) = (CREDIT, fromMinor 50000 INR) # replicate 12 (CREDIT, fromMinor 10000 INR)"
    by (rule scenario_5_console [OF sh start run got])
  have eq: "s3' = s3" using c(1) end5 by simp
  have entries: "map (\<lambda>e. (direction e, entry_amount e)) (merchant_entries s3) =
      (CREDIT, fromMinor 50000 INR) # replicate 12 (CREDIT, fromMinor 10000 INR)"
    using c(5) unfolding eq merchant_entries_credits .
  have "length (merchant_entries s3) = 13" using arg_cong [OF entries, of length] by simp
  then have "console (scenario_6 s3) = ?out @ lines_text text_5 @ concat (map event_line evs) @ lines_text text_5_end @
      lines_text (text_6 13) @ concat (map entry_line (merchant_entries s3))"
    using c(2) unfolding eq by (simp add: scenario_6_console)
  with scenario_7_console [OF iter, of now now2 can_open "scenario_6 s3"] end7
  have "console s' = lines_text (banner @ text_1 @ text_2 @ text_3 @ text_4 @ text_5) @ concat (map event_line evs) @
      lines_text (text_5_end @ text_6 13) @ concat (map entry_line (merchant_entries s3)) @ lines_text (text_7 can_open)"
    by auto
  then show thesis using c(3,4) entries by (rule that)
qed

end
