(* ===== verification/Pooled_Calls.thy ===== *)
theory Pooled_Calls
  imports Thread_Pool Wiring
begin

text \<open>
  A thread pool whose tasks are calls of \<open>pay\<close>, as in scenario 5 of \<open>src/main.cpp\<close>. A worker that has popped
  a task makes the steps of its call, \<open>call_step\<close>, between the steps of the other workers, of the queue and
  of the clients; when the call has ended, the last step of the task uses the answer and sets the future.
  The world of the pool is the traffic of the calls and the other state the tasks share. The call of a
  task is known by the number of its future.

  Lemmas: the calls on a pool are an interleaving of the calls (\<open>working\<close>), at most as many are under way
  as there are workers, the pool comes to rest, and at rest nobody waits for a lock: a call that holds one
  is in the hands of a worker, who can go on.
\<close>

section \<open>The calls on the pool\<close>

fun ended :: "Stage \<Rightarrow> bool" where
  "ended (Finished r) = True"
| "ended st = False"

definition result_of :: "Stage \<Rightarrow> Transaction Result outcome" where
  "result_of st = (case st of Finished r \<Rightarrow> r | _ \<Rightarrow> Blocks)"

text \<open>What is left of a task when its call has ended.\<close>

definition call_task ::
    "(Transaction Result outcome \<Rightarrow> 'r outcome) \<Rightarrow> (Transaction Result outcome \<Rightarrow> 'x \<Rightarrow> 'x) \<Rightarrow> nat
     \<Rightarrow> 'svc Traffic \<times> 'x \<Rightarrow> 'r outcome \<times> ('svc Traffic \<times> 'x)" where
  "call_task answer tally k = (\<lambda>(t, x). let r = result_of (stages t ! k) in (answer r, (t, tally r x)))"

datatype ('r, 'w) WorkEvent =
    Of_pool "('r, 'w) PoolEvent"
  | Of_call nat

inductive work_step ::
    "('ar, 'tr, 'is, 'dl, 'lr, 'ev) Wiring \<Rightarrow> (int64 \<times> PaymentRequest) list
     \<Rightarrow> ('r, ('ar, 'tr, 'is, 'dl, 'lr, 'ev) Service Traffic \<times> 'x) ThreadPool
     \<Rightarrow> ('r, ('ar, 'tr, 'is, 'dl, 'lr, 'ev) Service Traffic \<times> 'x) WorkEvent list
     \<Rightarrow> ('r, ('ar, 'tr, 'is, 'dl, 'lr, 'ev) Service Traffic \<times> 'x) ThreadPool \<Rightarrow> bool" for W calls where
  of_pool: "pool_step p es q \<Longrightarrow> (\<And>i tk. Ran i tk \<in> set es \<Longrightarrow> ended (stages (fst (world p)) ! future_id tk)) \<Longrightarrow>
     work_step W calls p (map Of_pool es) q"
| of_call: "i < workers p \<Longrightarrow> place p i = Pop_returns (Some tk) \<Longrightarrow> world p = (t, x) \<Longrightarrow> k = future_id tk \<Longrightarrow>
     k < length (stages t) \<Longrightarrow> calls ! k = (now, req) \<Longrightarrow>
     call_step W now req (stages t ! k) (service t) = Some (st, s) \<Longrightarrow>
     work_step W calls p (if takes_effect (stages t ! k) st then [Of_call k] else [])
       (p\<lparr>world := (\<lparr>service = s, stages = (stages t)[k := st]\<rparr>, x)\<rparr>)"

text \<open>The clients submit the calls in the order of the list, and do what else clients do.\<close>

inductive work_call ::
    "(int64 \<times> PaymentRequest) list \<Rightarrow> (Transaction Result outcome \<Rightarrow> 'r outcome)
     \<Rightarrow> (Transaction Result outcome \<Rightarrow> 'x \<Rightarrow> 'x) \<Rightarrow> ('r, 'svc Traffic \<times> 'x) ThreadPool
     \<Rightarrow> ('r, 'svc Traffic \<times> 'x) WorkEvent list \<Rightarrow> ('r, 'svc Traffic \<times> 'x) ThreadPool \<Rightarrow> bool"
  for calls answer tally where
  outside: "pool_call p es q \<Longrightarrow>
     (\<And>i tk. Submitted i tk \<in> set es \<Longrightarrow>
        future_id tk < length calls \<and> work tk = call_task answer tally (future_id tk)) \<Longrightarrow>
     work_call calls answer tally p (map Of_pool es) q"

inductive work_run ::
    "('ar, 'tr, 'is, 'dl, 'lr, 'ev) Wiring \<Rightarrow> (int64 \<times> PaymentRequest) list
     \<Rightarrow> (Transaction Result outcome \<Rightarrow> 'r outcome) \<Rightarrow> (Transaction Result outcome \<Rightarrow> 'x \<Rightarrow> 'x)
     \<Rightarrow> ('r, ('ar, 'tr, 'is, 'dl, 'lr, 'ev) Service Traffic \<times> 'x) ThreadPool
     \<Rightarrow> ('r, ('ar, 'tr, 'is, 'dl, 'lr, 'ev) Service Traffic \<times> 'x) WorkEvent list
     \<Rightarrow> ('r, ('ar, 'tr, 'is, 'dl, 'lr, 'ev) Service Traffic \<times> 'x) ThreadPool \<Rightarrow> bool"
  for W calls answer tally p where
  start: "work_run W calls answer tally p [] p"
| step: "work_run W calls answer tally p es q \<Longrightarrow> work_step W calls q fs r \<Longrightarrow> work_run W calls answer tally p (es @ fs) r"
| call: "work_run W calls answer tally p es q \<Longrightarrow> work_call calls answer tally q fs r \<Longrightarrow>
     work_run W calls answer tally p (es @ fs) r"

definition work_pool ::
    "nat \<Rightarrow> nat \<Rightarrow> (int64 \<times> PaymentRequest) list \<Rightarrow> 'svc \<Rightarrow> 'x \<Rightarrow> ('r, 'svc Traffic \<times> 'x) ThreadPool" where
  "work_pool ws clients calls s x = new_pool ws clients (new_traffic calls s, x)"

inductive_cases work_stepE: "work_step W calls p es q"
inductive_cases work_callE: "work_call calls answer tally p es q"

fun pool_events :: "('r, 'w) WorkEvent list \<Rightarrow> ('r, 'w) PoolEvent list" where
  "pool_events [] = []"
| "pool_events (Of_pool e # es) = e # pool_events es"
| "pool_events (Of_call k # es) = pool_events es"

fun effects :: "('r, 'w) WorkEvent list \<Rightarrow> nat list" where
  "effects [] = []"
| "effects (Of_pool e # es) = effects es"
| "effects (Of_call k # es) = k # effects es"

lemma work_events_append [simp]:
  "pool_events (es @ fs) = pool_events es @ pool_events fs" "effects (es @ fs) = effects es @ effects fs"
  by (induction es rule: pool_events.induct; simp)+

lemma work_events_map [simp]:
  "pool_events (map Of_pool es) = es" "effects (map Of_pool es) = []"
  by (induction es) simp_all

lemma call_task_traffic [simp]: "fst (snd (call_task answer tally k w)) = fst w"
  by (simp add: call_task_def Let_def split_beta)

lemma call_task_eq:
  "call_task answer tally k w =
     (answer (result_of (stages (fst w) ! k)), (fst w, tally (result_of (stages (fst w) ! k)) (snd w)))"
  by (simp add: call_task_def Let_def split_beta)

section \<open>What the pool knows of its calls\<close>

abbreviation stage_of :: "('r, 'svc Traffic \<times> 'x) ThreadPool \<Rightarrow> nat \<Rightarrow> Stage" where
  "stage_of p k \<equiv> stages (fst (world p)) ! k"

definition staffed ::
    "(int64 \<times> PaymentRequest) list \<Rightarrow> (Transaction Result outcome \<Rightarrow> 'r outcome)
     \<Rightarrow> (Transaction Result outcome \<Rightarrow> 'x \<Rightarrow> 'x) \<Rightarrow> ('r, 'svc Traffic \<times> 'x) PoolEvent list \<Rightarrow> bool" where
  "staffed calls answer tally es \<longleftrightarrow>
     (\<forall>tk \<in> set (submitted es). future_id tk < length calls \<and> work tk = call_task answer tally (future_id tk))"

text \<open>A call that has begun is in the hands of a worker or its task has run, and a task that has run has ended its call.\<close>

definition tended :: "('r, 'svc Traffic \<times> 'x) PoolEvent list \<Rightarrow> ('r, 'svc Traffic \<times> 'x) ThreadPool \<Rightarrow> bool" where
  "tended es p \<longleftrightarrow> (\<forall>tk \<in> set (ran es). ended (stage_of p (future_id tk))) \<and>
     (\<forall>k < length (stages (fst (world p))). stage_of p k \<noteq> Minting \<longrightarrow>
        k \<in> future_id ` (set (in_hand (tasks p)) \<union> set (ran es)))"

text \<open>The shared state and the futures are those of the tasks that have run.\<close>

definition settled ::
    "(Transaction Result outcome \<Rightarrow> 'r outcome) \<Rightarrow> (Transaction Result outcome \<Rightarrow> 'x \<Rightarrow> 'x) \<Rightarrow> 'x
     \<Rightarrow> ('r, 'svc Traffic \<times> 'x) PoolEvent list \<Rightarrow> ('r, 'svc Traffic \<times> 'x) ThreadPool \<Rightarrow> bool" where
  "settled answer tally x0 es p \<longleftrightarrow>
     snd (world p) = fold (\<lambda>tk. tally (result_of (stage_of p (future_id tk)))) (ran es) x0 \<and>
     futures p = (\<lambda>f. if f \<in> future_id ` set (refused es) then Some Broken
       else if f \<in> future_id ` set (ran es) then Some (Ready (answer (result_of (stage_of p f)))) else None)"

definition working ::
    "('ar, 'tr, 'is, 'dl, 'lr, 'ev) Wiring \<Rightarrow> (int64 \<times> PaymentRequest) list \<Rightarrow> (Transaction Result outcome \<Rightarrow> 'r outcome)
     \<Rightarrow> (Transaction Result outcome \<Rightarrow> 'x \<Rightarrow> 'x) \<Rightarrow> ('ar, 'tr, 'is, 'dl, 'lr, 'ev) Service \<Rightarrow> 'x
     \<Rightarrow> ('r, ('ar, 'tr, 'is, 'dl, 'lr, 'ev) Service Traffic \<times> 'x) WorkEvent list
     \<Rightarrow> ('r, ('ar, 'tr, 'is, 'dl, 'lr, 'ev) Service Traffic \<times> 'x) ThreadPool \<Rightarrow> bool" where
  "working W calls answer tally s0 x0 es p \<longleftrightarrow>
     pool_inv p \<and> accounted (pool_events es) p \<and> open_so_far (pool_events es) p \<and>
     runs (traffic_step W calls) (new_traffic calls s0) (effects es) (fst (world p)) \<and>
     staffed calls answer tally (pool_events es) \<and> tended (pool_events es) p \<and> settled answer tally x0 (pool_events es) p"

lemma new_working: "working W calls answer tally s0 x0 [] (work_pool ws clients calls s0 x0)"
proof -
  let ?p = "work_pool ws clients calls s0 x0 :: ('r, _) ThreadPool"
  have w: "world ?p = (new_traffic calls s0, x0)" "futures ?p = Map.empty"
    by (simp_all add: work_pool_def new_pool_def Let_def)
  have "tended [] ?p" "settled answer tally x0 [] ?p" "staffed calls answer tally []"
    by (auto simp: tended_def settled_def staffed_def refused_def w new_traffic_def)
  moreover have "pool_inv ?p" "accounted [] ?p" "open_so_far [] ?p"
    unfolding work_pool_def by (rule new_pool_inv new_pool_accounted new_pool_open)+
  ultimately show ?thesis by (simp add: working_def w runs.start)
qed

text \<open>The tasks that workers hold were submitted, and none of them has run.\<close>

lemma held_task:
  assumes "working W calls answer tally s0 x0 es p" "i < workers p" "place p i = Pop_returns (Some tk)"
  shows "tk \<in> set (in_hand (tasks p))" "work tk = call_task answer tally (future_id tk)" "future_id tk < length calls"
    and "future_id tk \<notin> future_id ` set (ran (pool_events es))" "future_id tk \<notin> future_id ` set (refused (pool_events es))"
proof -
  have inv: "pool_inv p" and acc: "accounted (pool_events es) p" and st: "staffed calls answer tally (pool_events es)"
    using assms(1) by (simp_all add: working_def)
  have i: "i < length (places (tasks p))" using inv assms(2) by (simp add: pool_inv_def)
  show hand: "tk \<in> set (in_hand (tasks p))"
    using assms(3) nth_mem [OF i] by (force simp: in_hand_def place_def)
  have "mset (submitted (pool_events es)) = mset (offered (tasks p)) + mset (refused (pool_events es)) +
      mset (queue (object (tasks p))) + mset (in_hand (tasks p)) + mset (ran (pool_events es))"
    using acc by (simp add: accounted_def)
  from arg_cong [OF this, of set_mset] hand have "tk \<in> set (submitted (pool_events es))" by simp
  with st show "work tk = call_task answer tally (future_id tk)" "future_id tk < length calls"
    by (simp_all add: staffed_def)
  show "future_id tk \<notin> future_id ` set (ran (pool_events es))" "future_id tk \<notin> future_id ` set (refused (pool_events es))"
    using accounted_distinct [OF acc] hand by auto
qed

lemma working_queue:
  assumes w: "working W calls answer tally s0 x0 es p" and st: "queue_step (tasks p) gs m"
  defines "q \<equiv> p\<lparr>tasks := m, futures := fold abandon gs (futures p)\<rparr>"
  shows "working W calls answer tally s0 x0 (es @ map Of_pool (map Queue_event gs)) q"
proof -
  have q: "pool_step p (map Queue_event gs) q" unfolding q_def by (rule in_queue [OF st])
  have inv: "pool_inv p" and acc: "accounted (pool_events es) p" and op: "open_so_far (pool_events es) p"
    using w by (simp_all add: working_def)
  have "set (in_hand (tasks p)) \<subseteq> set (in_hand m)"
    using queue_step_tasks(2) [OF st] by (metis Un_upper1 set_mset_mset set_mset_union)
  then have "future_id ` (set (in_hand (tasks p)) \<union> set (ran (pool_events es))) \<subseteq>
      future_id ` (set (in_hand m) \<union> set (ran (pool_events es)))" by blast
  then have "tended (pool_events es @ map Queue_event gs) q"
    using w by (simp add: working_def tended_def q_def) blast
  moreover have "settled answer tally x0 (pool_events es @ map Queue_event gs) q"
    using w by (auto simp: working_def settled_def q_def fold_abandon fun_eq_iff)
  ultimately show ?thesis
    using w pool_step_inv [OF q inv] pool_step_accounted [OF q inv acc] pool_step_open [OF q inv op]
    by (simp add: working_def staffed_def del: map_map) (simp add: q_def)
qed

lemma working_run:
  assumes w: "working W calls answer tally s0 x0 es p" and i: "i < workers p" "place p i = Pop_returns (Some tk)"
    and fin: "ended (stage_of p (future_id tk))"
  shows "working W calls answer tally s0 x0 (es @ [Of_pool (Ran i tk)]) (run_task i tk p)"
proof -
  note h = held_task [OF w i]
  have q: "pool_step p [Ran i tk] (run_task i tk p)" by (rule run [OF i])
  have inv: "pool_inv p" and acc: "accounted (pool_events es) p" and op: "open_so_far (pool_events es) p"
    using w by (simp_all add: working_def)
  have l: "i < length (places (tasks p))" using inv i(1) by (simp add: pool_inv_def)
  have eq: "world (run_task i tk p) = (fst (world p), tally (result_of (stage_of p (future_id tk))) (snd (world p)))"
    "futures (run_task i tk p) = (futures p)(future_id tk \<mapsto> Ready (answer (result_of (stage_of p (future_id tk)))))"
    by (simp_all add: run_task_eq h(2) call_task_eq)
  have "set (in_hand (tasks p)) = insert tk (set (in_hand (tasks (run_task i tk p))))"
    using run_task_tasks(1) [OF l i(2)] by (metis set_mset_add_mset_insert set_mset_mset)
  then have "tended (pool_events es @ [Ran i tk]) (run_task i tk p)"
    using w fin by (auto simp: working_def tended_def eq)
  moreover have "settled answer tally x0 (pool_events es @ [Ran i tk]) (run_task i tk p)"
    using w h(4,5) by (auto simp: working_def settled_def eq refused_def fun_eq_iff)
  ultimately show ?thesis
    using w pool_step_inv [OF q inv] pool_step_accounted [OF q inv acc] pool_step_open [OF q inv op]
    by (simp add: working_def staffed_def eq)
qed

lemma working_join:
  assumes w: "working W calls answer tally s0 x0 es p"
    and j: "workers p \<le> i" "i < length (places (tasks p))" "place p i = Close_returns" "joinable p"
  shows "working W calls answer tally s0 x0 es (move i Idle p)"
proof -
  have q: "pool_step p [] (move i Idle p)" by (rule join [OF j])
  have inv: "pool_inv p" and acc: "accounted (pool_events es) p" and op: "open_so_far (pool_events es) p"
    using w by (simp_all add: working_def)
  have "mset (in_hand (tasks (move i Idle p))) = mset (in_hand (tasks p))"
    by (rule move_tasks) (use j in simp_all)
  then have "set (in_hand (tasks (move i Idle p))) = set (in_hand (tasks p))" by (rule mset_eq_setD)
  then have "tended (pool_events es) (move i Idle p)" "settled answer tally x0 (pool_events es) (move i Idle p)"
    using w by (auto simp: working_def tended_def settled_def)
  then show ?thesis
    using w pool_step_inv [OF q inv] pool_step_accounted [OF q inv acc] pool_step_open [OF q inv op]
    by (simp add: working_def staffed_def)
qed

lemma call_step_ended: "call_step W now req st s = Some x \<Longrightarrow> \<not> ended st"
  by (cases st) auto

lemma working_call_step:
  assumes w: "working W calls answer tally s0 x0 es p" and i: "i < workers p" "place p i = Pop_returns (Some tk)"
    and t: "world p = (t, x)" and k: "k = future_id tk" "k < length (stages t)" "calls ! k = (now, req)"
    and st: "call_step W now req (stages t ! k) (service t) = Some (st, s)"
  shows "working W calls answer tally s0 x0 (es @ (if takes_effect (stages t ! k) st then [Of_call k] else []))
    (p\<lparr>world := (\<lparr>service = s, stages = (stages t)[k := st]\<rparr>, x)\<rparr>)"
    (is "working W calls answer tally s0 x0 (es @ ?es) ?q")
proof -
  have [simp]: "pool_events ?es = []" "effects ?es = (if takes_effect (stages t ! k) st then [k] else [])" by simp_all
  note h = held_task [OF w i]
  have inv: "pool_inv ?q"
    by (rule pool_inv_frame [of _ p]) (use w in \<open>simp_all add: working_def\<close>)
  have "traffic_step W calls t (effects ?es) (fst (world ?q))"
    using moves [OF k(2,3) st] by simp
  then have "runs (traffic_step W calls) (new_traffic calls s0) (effects (es @ ?es)) (fst (world ?q))"
    using w t unfolding working_def work_events_append by (intro runs.extend [where t = t]) simp_all
  moreover have other: "(stages t)[k := st] ! future_id u = stages t ! future_id u" if "u \<in> set (ran (pool_events es))" for u
  proof -
    have "k \<noteq> future_id u" using that h(4) k(1) by (metis imageI)
    then show ?thesis by simp
  qed
  then have "tended (pool_events es) ?q"
    using w t h(1) k(1,2) unfolding working_def tended_def by (auto simp: nth_list_update)
  moreover have "fold (\<lambda>tk. tally (result_of ((stages t)[k := st] ! future_id tk))) (ran (pool_events es)) x0 =
      fold (\<lambda>tk. tally (result_of (stages t ! future_id tk))) (ran (pool_events es)) x0"
    using other by (intro fold_cong) simp_all
  then have "settled answer tally x0 (pool_events es) ?q"
    using w t other unfolding working_def settled_def by (auto simp: fun_eq_iff)
  ultimately show ?thesis
    using w inv by (simp add: working_def accounted_def open_so_far_def)
qed

lemma pool_call_same:
  assumes "pool_call p es q"
  shows "set (in_hand (tasks q)) = set (in_hand (tasks p)) \<and> world q = world p \<and> futures q = futures p \<and>
    workers q = workers p \<and> ran es = [] \<and> refused es = []"
  using assms
proof cases
  case (submits i f fut)
  have "mset (in_hand (tasks q)) = mset (in_hand (tasks p))"
    using submits(5) move_tasks [OF submits(3), of "Pushing \<lparr>future_id = promised p, work = f\<rparr>"] free_place [OF submits(4)]
    by (auto simp: submit_eq move_def)
  then have "set (in_hand (tasks q)) = set (in_hand (tasks p))" by (rule mset_eq_setD)
  then show ?thesis using submits(1,5) by (auto simp: submit_eq refused_def)
next
  case (shuts_down i)
  have "mset (in_hand (tasks q)) = mset (in_hand (tasks p))"
    using shuts_down(2) move_tasks [OF shuts_down(4), of Closing] free_place [OF shuts_down(5)]
    by (auto simp: shutdown_def move_def)
  then have "set (in_hand (tasks q)) = set (in_hand (tasks p))" by (rule mset_eq_setD)
  then show ?thesis using shuts_down(1,2) by (simp add: shutdown_def refused_def)
next
  case (wakes_up m)
  from wakes_up(3) show ?thesis
  proof cases
    case (wake i cv)
    from concat_update_same [OF wake(2), of holds] woken_tasks [OF wake(3)]
    have "mset (in_hand m) = mset (in_hand (tasks p))" unfolding wake(1) by (simp add: in_hand_def)
    then have "set (in_hand m) = set (in_hand (tasks p))" by (rule mset_eq_setD)
    then show ?thesis using wakes_up(1,2) by (simp add: refused_def)
  qed
qed

lemma pool_call_submitted:
  "pool_call p es q \<Longrightarrow> tk \<in> set (submitted es) \<Longrightarrow> \<exists>i. Submitted i tk \<in> set es"
  by (auto elim!: pool_callE)

lemma working_outside:
  assumes w: "working W calls answer tally s0 x0 es p" and st: "work_call calls answer tally p fs q"
  shows "working W calls answer tally s0 x0 (es @ fs) q"
  using st
proof cases
  case (outside gs)
  note same = pool_call_same [OF outside(2)]
  have inv: "pool_inv p" and acc: "accounted (pool_events es) p" and op: "open_so_far (pool_events es) p"
    using w by (simp_all add: working_def)
  have new: "future_id tk < length calls \<and> work tk = call_task answer tally (future_id tk)" if "tk \<in> set (submitted gs)" for tk
    using outside(3) pool_call_submitted [OF outside(2) that] by metis
  have "staffed calls answer tally (pool_events es @ gs)"
    using w new by (auto simp: working_def staffed_def)
  moreover have "tended (pool_events es @ gs) q" "settled answer tally x0 (pool_events es @ gs) q"
    using w same by (simp_all add: working_def tended_def settled_def fun_eq_iff)
  ultimately show ?thesis
    using w same outside(1) pool_call_inv [OF outside(2) inv] pool_call_accounted [OF outside(2) acc]
      pool_call_open [OF outside(2) op]
    by (simp add: working_def)
qed

lemma working_step:
  assumes w: "working W calls answer tally s0 x0 es p" and st: "work_step W calls p fs q"
  shows "working W calls answer tally s0 x0 (es @ fs) q"
  using st
proof cases
  case (of_pool gs)
  from of_pool(2) show ?thesis
  proof cases
    case (in_queue hs m)
    then show ?thesis using working_queue [OF w in_queue(3)] of_pool(1) by simp
  next
    case (run i tk)
    then show ?thesis using working_run [OF w run(3,4)] of_pool(1,3) by simp
  next
    case (join i)
    then show ?thesis using working_join [OF w join(3-6)] of_pool(1) by simp
  qed
next
  case (of_call i tk t x k now req st s)
  then show ?thesis using working_call_step [OF w of_call(3-9)] by simp
qed

lemma work_run_working:
  "work_run W calls answer tally (work_pool ws clients calls s0 x0) es p \<Longrightarrow> working W calls answer tally s0 x0 es p"
  by (induction rule: work_run.induct) (auto intro: new_working working_step working_outside)

section \<open>The pool bounds what is under way\<close>

lemma worker_holds: "worker_place q pl \<Longrightarrow> length (holds pl) \<le> 1"
  by (cases "(q, pl)" rule: worker_place.cases) auto

lemma client_holds: "client_place st pl \<Longrightarrow> holds pl = []"
  by (cases pl) auto

lemma in_hand_workers:
  assumes "pool_inv p"
  shows "length (in_hand (tasks p)) \<le> workers p"
proof -
  let ?ts = "places (tasks p)"
  have len: "workers p \<le> length ?ts" using assms by (simp add: pool_inv_def)
  have w: "length (holds (?ts ! i)) \<le> (if i < workers p then 1 else 0)" if "i < length ?ts" for i
  proof (cases "i < workers p")
    case True
    then have "worker_place (object (tasks p)) (?ts ! i)" using assms by (simp add: pool_inv_def place_def)
    with True worker_holds show ?thesis by fastforce
  next
    case False
    then have "client_place (stopped p) (?ts ! i)" using assms that by (simp add: pool_inv_def place_def)
    with False client_holds show ?thesis by fastforce
  qed
  have "length (in_hand (tasks p)) = (\<Sum>i < length ?ts. length (holds (?ts ! i)))"
    by (simp add: in_hand_def length_concat comp_def sum_list_sum_nth atLeast0LessThan)
  also have "\<dots> \<le> (\<Sum>i < length ?ts. if i < workers p then 1 else 0)"
    by (rule sum_mono) (use w in auto)
  also have "\<dots> = card ({..<length ?ts} \<inter> {i. i < workers p})"
    by (simp add: sum.If_cases)
  also have "\<dots> \<le> workers p"
    using card_mono [of "{..<workers p}" "{..<length ?ts} \<inter> {i. i < workers p}"] by auto
  finally show ?thesis .
qed

definition under_way :: "('r, 'svc Traffic \<times> 'x) ThreadPool \<Rightarrow> nat set" where
  "under_way p = {k. k < length (stages (fst (world p))) \<and> stage_of p k \<noteq> Minting \<and> \<not> ended (stage_of p k)}"

lemma under_way_held:
  assumes "working W calls answer tally s0 x0 es p"
  shows "under_way p \<subseteq> future_id ` set (in_hand (tasks p))"
  using assms by (fastforce simp: working_def tended_def under_way_def)

lemma under_way_bounded:
  assumes "working W calls answer tally s0 x0 es p"
  shows "card (under_way p) \<le> workers p"
proof -
  have "card (under_way p) \<le> card (future_id ` set (in_hand (tasks p)))"
    by (rule card_mono [OF _ under_way_held [OF assms]]) simp
  also have "\<dots> \<le> card (set (in_hand (tasks p)))" by (rule card_image_le) simp
  also have "\<dots> \<le> length (in_hand (tasks p))" by (rule card_length)
  also have "\<dots> \<le> workers p" using assms by (intro in_hand_workers) (simp add: working_def)
  finally show ?thesis .
qed

section \<open>Coming to rest\<close>

definition work_potential :: "('r, 'svc Traffic \<times> 'x) ThreadPool \<Rightarrow> nat" where
  "work_potential p = pool_potential p + to_go (fst (world p))"

lemma pool_step_traffic:
  assumes w: "working W calls answer tally s0 x0 es p" and st: "pool_step p fs q"
  shows "fst (world q) = fst (world p)"
  using st
proof cases
  case (run i tk)
  then show ?thesis using held_task(2) [OF w run(3,4)] by (simp add: run_task_eq)
qed simp_all

lemma work_step_potential:
  assumes w: "working W calls answer tally s0 x0 es p" and st: "work_step W calls p fs q"
  shows "work_potential q < work_potential p"
  using st
proof cases
  case (of_pool gs)
  have "pool_inv p" using w by (simp add: working_def)
  with pool_step_potential [OF _ of_pool(2)] pool_step_traffic [OF w of_pool(2)] show ?thesis
    by (simp add: work_potential_def)
next
  case (of_call i tk t x k now req st s)
  have "to_go \<lparr>service = s, stages = (stages t)[k := st]\<rparr> < to_go t"
    by (rule traffic_step_to_go [OF moves [OF of_call(7-9)]])
  then show ?thesis using of_call(2,5) by (simp add: work_potential_def pool_potential_def)
qed

interpretation work_machine: machine "work_step W calls" "\<lambda>p. \<exists>es. working W calls answer tally s0 x0 es p" work_potential
  for W calls answer tally s0 x0
  by unfold_locales (auto intro: working_step work_step_potential)

lemma work_run_steps:
  "steps (work_step W calls) k q fs r \<Longrightarrow> work_run W calls answer tally p es q \<Longrightarrow> work_run W calls answer tally p (es @ fs) r"
proof (induction arbitrary: es rule: steps.induct)
  case (more q es' t k fs u)
  from more.IH [OF work_run.step [OF more.prems more.hyps(1)]] show ?case by simp
qed simp

lemma in_hand_worker:
  assumes "pool_inv p" "tk \<in> set (in_hand (tasks p))"
  obtains i where "i < workers p" "tk \<in> set (holds (place p i))"
proof -
  from assms(2) obtain i where i: "i < length (places (tasks p))" "tk \<in> set (holds (place p i))"
    by (auto simp: in_hand_def place_def in_set_conv_nth [of _ "places (tasks p)"])
  then have "holds (place p i) \<noteq> []" by auto
  with holder_is_worker [OF assms(1) i(1)] i(2) show thesis by (intro that)
qed

lemma working_length:
  assumes "working W calls answer tally s0 x0 es p"
  shows "length (stages (fst (world p))) = length calls"
proof -
  have "runs (traffic_step W calls) (new_traffic calls s0) (effects es) (fst (world p))"
    using assms by (simp add: working_def)
  from traffic_steps_length [OF this] show ?thesis by (simp add: new_traffic_def)
qed

text \<open>Where nothing moves, a worker that has a task waits in it for the lock of a payer.\<close>

lemma rest_holder:
  assumes w: "working W calls answer tally s0 x0 es p" and rest: "at_rest (work_step W calls) p"
    and i: "i < workers p" "tk \<in> set (holds (place p i))"
  obtains txn where "stage_of p (future_id tk) = Locking txn" "future_id tk < length calls"
    "locks_acquire (ports W) (lock_key (snd (calls ! future_id tk))) (locks (service (fst (world p)))) = None"
proof -
  have inv: "pool_inv p" using w by (simp add: working_def)
  note len = working_length [OF w]
  have "\<not> queue_step (tasks p) es m" for es m
    using rest of_pool [OF in_queue [of p es m]] unfolding at_rest_def by fastforce
  then have quiet: "quiet (tasks p)" unfolding quiet_iff at_rest_def by blast
  have l: "i < length (places (tasks p))" using inv i(1) by (simp add: pool_inv_def)
  have "idle (place p i) \<or> waits_on NotEmpty (place p i) \<or> waits_on NotFull (place p i)"
    using quiet nth_mem [OF l] unfolding quiet_def place_def by blast
  with i(2) have place: "place p i = Pop_returns (Some tk)" by (cases "place p i" rule: holds.cases) auto
  note h = held_task [OF w i(1) place]
  have not: "\<not> ended (stage_of p (future_id tk))"
  proof
    assume "ended (stage_of p (future_id tk))"
    with rest of_pool [OF run [OF i(1) place]] show False unfolding at_rest_def by force
  qed
  have "call_step W (fst (calls ! future_id tk)) (snd (calls ! future_id tk)) (stage_of p (future_id tk))
      (service (fst (world p))) = None"
  proof (rule ccontr)
    assume "call_step W (fst (calls ! future_id tk)) (snd (calls ! future_id tk)) (stage_of p (future_id tk))
      (service (fst (world p))) \<noteq> None"
    then obtain st s where "call_step W (fst (calls ! future_id tk)) (snd (calls ! future_id tk))
      (stage_of p (future_id tk)) (service (fst (world p))) = Some (st, s)" by auto
    from of_call [OF i(1) place surjective_pairing refl _ surjective_pairing this] h(3) len rest
    show False unfolding at_rest_def by metis
  qed
  with not show thesis unfolding call_step_None using h(3) that by auto
qed

lemma guarded_under_way: "j < length (stages (fst (world p))) \<Longrightarrow> guarded (stage_of p j) \<Longrightarrow> j \<in> under_way p"
  unfolding under_way_def by (cases "stage_of p j") auto

section \<open>When all tasks have run\<close>

lemma work_answered:
  assumes w: "working W calls answer tally s0 x0 es p" and all: "\<forall>f < promised p. futures p f \<noteq> None" and up: "\<not> stopped p"
  shows "mset (submitted (pool_events es)) = mset (ran (pool_events es))"
proof -
  have "refused (pool_events es) = []" using w up by (simp add: working_def open_so_far_def)
  moreover have "\<forall>f < promised p. f \<in> future_id ` (set (refused (pool_events es)) \<union> set (ran (pool_events es)))"
    using w all by (auto simp: working_def settled_def image_Un split: if_splits)
  ultimately show ?thesis
    using all_answered [of "pool_events es" p] w by (simp add: working_def)
qed

lemma all_ran:
  assumes w: "working W calls answer tally s0 x0 es p"
    and ran: "mset (submitted (pool_events es)) = mset (ran (pool_events es))" and all: "promised p = length calls"
  shows "mset (map future_id (ran (pool_events es))) = mset [0..<length calls]"
    and "k < length calls \<Longrightarrow> ended (stage_of p k)"
    and "snd (world p) = fold (\<lambda>k. tally (result_of (stage_of p k))) (map future_id (ran (pool_events es))) x0"
    and "\<not> stopped p \<Longrightarrow> k < length calls \<Longrightarrow> futures p k = Some (Ready (answer (result_of (stage_of p k))))"
proof -
  have ids: "map future_id (submitted (pool_events es)) = [0..<length calls]"
    using w all by (simp add: working_def accounted_def)
  show m: "mset (map future_id (ran (pool_events es))) = mset [0..<length calls]"
    unfolding ids [symmetric] mset_map ran ..
  then have mem: "k \<in> future_id ` set (ran (pool_events es))" if "k < length calls" for k
    using that mset_eq_setD [OF m] by simp
  show "ended (stage_of p k)" if "k < length calls"
    using mem [OF that] w by (auto simp: working_def tended_def)
  show "snd (world p) = fold (\<lambda>k. tally (result_of (stage_of p k))) (map future_id (ran (pool_events es))) x0"
    using w by (simp add: working_def settled_def fold_map comp_def)
  show "futures p k = Some (Ready (answer (result_of (stage_of p k))))" if "\<not> stopped p" "k < length calls"
    using mem [OF that(2)] that(1) w by (simp add: working_def settled_def open_so_far_def)
qed

lemma ended_rest: "(\<And>k. k < length (stages t) \<Longrightarrow> ended (stages t ! k)) \<Longrightarrow> at_rest (traffic_step W calls) t"
  unfolding at_rest_traffic by (metis call_step.simps(17) ended.elims(2))

text \<open>What the threads leave as it is.\<close>

lemma work_step_frame:
  "work_step W calls p es q \<Longrightarrow> stopped q = stopped p \<and> promised q = promised p \<and> workers q = workers p \<and>
     length (places (tasks q)) = length (places (tasks p)) \<and> submitted (pool_events es) = []"
proof (erule work_stepE)
  fix gs assume st: "pool_step p gs q" and es: "es = map Of_pool gs"
  have "promised q = promised p \<and> submitted gs = []" using st by (auto simp: run_task_eq elim!: pool_stepE)
  with es pool_step_stopped [OF st] pool_frame [OF disjI1 [OF st]] show ?thesis by simp
qed simp

lemma work_steps_frame:
  "steps (work_step W calls) k p es q \<Longrightarrow> stopped q = stopped p \<and> promised q = promised p \<and> workers q = workers p \<and>
     length (places (tasks q)) = length (places (tasks p)) \<and> submitted (pool_events es) = []"
  by (induction rule: steps.induct) (auto dest: work_step_frame)

lemma work_pool_frame [simp]:
  "stopped (work_pool ws clients calls s x) = False" "promised (work_pool ws clients calls s x) = 0"
  "length (places (tasks (work_pool ws clients calls s x))) = (if ws = 0 then 1 else ws) + clients"
  "workers (work_pool ws clients calls s x) = (if ws = 0 then 1 else ws)"
  by (simp_all add: work_pool_def new_pool_def Let_def)

lemma work_run_workers:
  "work_run W calls answer tally p es q \<Longrightarrow>
     workers q = workers p \<and> length (places (tasks q)) = length (places (tasks p))"
proof (induction rule: work_run.induct)
  case (step es q fs r)
  with work_step_frame [OF step.hyps(2)] show ?case by simp
next
  case (call es q fs r)
  from call.hyps(2) obtain gs where "pool_call q gs r" by (rule work_callE)
  from pool_frame [OF disjI2 [OF this]] call.IH show ?case by simp
qed simp

section \<open>Nobody waits for ever\<close>

context payment_service
begin

lemma work_rests:
  assumes ready: "ready W s0 calls" and w: "working W calls answer tally s0 x0 es p" and rest: "at_rest (work_step W calls) p"
  shows "in_hand (tasks p) = []" and "at_rest pool_step p"
proof -
  let ?t = "fst (world p)"
  have W: "ports W = P" using ready by (simp add: ready_def)
  have inv: "pool_inv p" and run: "runs (traffic_step W calls) (new_traffic calls s0) (effects es) ?t"
    using w by (simp_all add: working_def)
  have locks: "held (locks (service ?t)) = call_key calls ` inside (stages ?t)"
    using traffic_runs_ok [OF ready run] by (simp add: traffic_ok_def exclusive_def)
  have none: "holds (place p i) = []" if i: "i < workers p" for i
  proof (rule ccontr)
    assume "holds (place p i) \<noteq> []"
    then obtain tk where "tk \<in> set (holds (place p i))" by (meson hd_in_set)
    then obtain txn where tk: "locks_acquire P (lock_key (snd (calls ! future_id tk))) (locks (service ?t)) = None"
      using rest_holder [OF w rest i] W by metis
    then have "lock_key (snd (calls ! future_id tk)) \<in> held (locks (service ?t))"
      using dl.acquire_free [of _ "locks (service ?t)"] by (metis option.distinct(1))
    then obtain j where j: "j < length (stages ?t)" "guarded (stages ?t ! j)"
      unfolding locks by (auto simp: inside_def)
    from guarded_under_way [OF j] obtain u where u: "u \<in> set (in_hand (tasks p))" "j = future_id u" using under_way_held [OF w] by auto
    obtain i' where "i' < workers p" "u \<in> set (holds (place p i'))" by (rule in_hand_worker [OF inv u(1)])
    then obtain txn' where "stages ?t ! j = Locking txn'" using rest_holder [OF w rest] u(2) by metis
    with j(2) show False by simp
  qed
  show hand: "in_hand (tasks p) = []"
  proof (rule ccontr)
    assume "in_hand (tasks p) \<noteq> []"
    then obtain u where "u \<in> set (in_hand (tasks p))" by (meson hd_in_set)
    then obtain i where "i < workers p" "u \<in> set (holds (place p i))" by (rule in_hand_worker [OF inv])
    with none show False by simp
  qed
  show "at_rest pool_step p"
    unfolding at_rest_def
  proof (intro notI, elim exE)
    fix es q assume st: "pool_step p es q"
    then have "Ran i tk \<notin> set es" for i tk
    proof cases
      case (run j u)
      from none [OF run(3)] run(4) show ?thesis by simp
    qed auto
    with of_pool [OF st] rest show False unfolding at_rest_def by blast
  qed
qed

text \<open>Hence at rest every task has run or was refused, and no client is blocked.\<close>

lemma work_rested:
  assumes "ready W s0 calls" "working W calls answer tally s0 x0 es p" "at_rest (work_step W calls) p"
  shows "mset (submitted (pool_events es)) = mset (refused (pool_events es)) + mset (ran (pool_events es))"
    and "workers p \<le> i \<Longrightarrow> i < length (places (tasks p)) \<Longrightarrow> free (place p i)"
    and "stopped p \<Longrightarrow> joinable p"
proof -
  have "pool_inv p" using assms(2) by (simp add: working_def)
  note r = pool_rests [OF this work_rests(2) [OF assms]]
  show "mset (submitted (pool_events es)) = mset (refused (pool_events es)) + mset (ran (pool_events es))"
    using assms(2) r(1-3) by (simp add: working_def accounted_def)
  show "workers p \<le> i \<Longrightarrow> i < length (places (tasks p)) \<Longrightarrow> free (place p i)" "stopped p \<Longrightarrow> joinable p"
    by (rule r; assumption)+
qed

lemma work_locks:
  assumes ready: "ready W s0 calls" and w: "working W calls answer tally s0 x0 es p" and rest: "at_rest (work_step W calls) p"
  shows "held (locks (service (fst (world p)))) = {}"
proof -
  have run: "runs (traffic_step W calls) (new_traffic calls s0) (effects es) (fst (world p))"
    using w by (simp add: working_def)
  have "under_way p = {}" using under_way_held [OF w] work_rests(1) [OF assms] by simp
  then have "inside (stages (fst (world p))) = {}" using guarded_under_way by (fastforce simp: inside_def)
  with traffic_runs_ok [OF ready run] show ?thesis by (simp add: traffic_ok_def exclusive_def)
qed

lemma work_futures:
  assumes "ready W s0 calls" "working W calls answer tally s0 x0 es p" "at_rest (work_step W calls) p" "f < promised p"
  shows "futures p f \<noteq> None"
proof -
  have "f \<in> set (map future_id (submitted (pool_events es)))"
    using assms(2,4) by (simp add: working_def accounted_def)
  moreover have "set (submitted (pool_events es)) = set (refused (pool_events es)) \<union> set (ran (pool_events es))"
    using work_rested(1) [OF assms(1-3)] by (metis set_mset_mset set_mset_union)
  ultimately have "f \<in> future_id ` set (refused (pool_events es)) \<or> f \<in> future_id ` set (ran (pool_events es))" by auto
  then show ?thesis using assms(2) by (auto simp: working_def settled_def)
qed

lemma work_comes_to_rest:
  assumes "work_run W calls answer tally (work_pool ws clients calls s0 x0) es q"
  obtains fs r where "work_run W calls answer tally (work_pool ws clients calls s0 x0) (es @ fs) r"
    and "at_rest (work_step W calls) r" and "\<exists>k. steps (work_step W calls) k q fs r"
proof -
  have "\<exists>es. working W calls answer tally s0 x0 es q" using work_run_working [OF assms] by blast
  from work_machine.comes_to_rest [OF this]
  obtain k fs r where "steps (work_step W calls) k q fs r" "at_rest (work_step W calls) r" by blast
  with work_run_steps [OF _ assms] that show thesis by blast
qed

text \<open>A client can submit the calls, one after the other.\<close>

lemma work_can_run:
  assumes ready: "ready W s0 calls" and clients: "0 < clients" and n: "n \<le> length calls"
  shows "\<exists>es p. work_run W calls answer tally (work_pool ws clients calls s0 x0) es p \<and> promised p = n \<and>
    at_rest (work_step W calls) p \<and> \<not> stopped p"
  using n
proof (induction n)
  case 0
  let ?p0 = "work_pool ws clients calls s0 x0"
  obtain fs r where r: "work_run W calls answer tally ?p0 ([] @ fs) r" "at_rest (work_step W calls) r"
    "\<exists>k. steps (work_step W calls) k ?p0 fs r"
    by (rule work_comes_to_rest [OF work_run.start])
  then obtain k where k: "steps (work_step W calls) k ?p0 fs r" by blast
  have "promised r = 0 \<and> \<not> stopped r" using work_steps_frame [OF k] by simp
  with r(1,2) show ?case by auto
next
  case (Suc n)
  then obtain es p where p: "work_run W calls answer tally (work_pool ws clients calls s0 x0) es p" "promised p = n"
    "at_rest (work_step W calls) p" "\<not> stopped p" by auto
  let ?f = "call_task answer tally n" and ?i = "workers p"
  have i: "?i \<le> ?i" "?i < length (places (tasks p))" using work_run_workers [OF p(1)] clients by auto
  have "free (place p ?i)" by (rule work_rested(2) [OF ready work_run_working [OF p(1)] p(3) i])
  then have call: "pool_call p [Submitted ?i \<lparr>future_id = n, work = ?f\<rparr>] (snd (submit ?i ?f p))"
    using submits [OF i _ prod.collapse [symmetric], of ?f] p(2) by (simp add: submit_eq)
  have "work_call calls answer tally p (map Of_pool [Submitted ?i \<lparr>future_id = n, work = ?f\<rparr>]) (snd (submit ?i ?f p))"
    by (rule outside [OF call]) (use Suc.prems in simp)
  from work_run.call [OF p(1) this]
  have q: "work_run W calls answer tally (work_pool ws clients calls s0 x0)
      (es @ [Of_pool (Submitted ?i \<lparr>future_id = n, work = ?f\<rparr>)]) (snd (submit ?i ?f p))" by simp
  obtain fs r where r: "work_run W calls answer tally (work_pool ws clients calls s0 x0)
      ((es @ [Of_pool (Submitted ?i \<lparr>future_id = n, work = ?f\<rparr>)]) @ fs) r" "at_rest (work_step W calls) r"
    "\<exists>k. steps (work_step W calls) k (snd (submit ?i ?f p)) fs r"
    by (rule work_comes_to_rest [OF q])
  then obtain k where k: "steps (work_step W calls) k (snd (submit ?i ?f p)) fs r" by blast
  have "promised r = Suc n \<and> \<not> stopped r" using work_steps_frame [OF k] p(2,4) by (simp add: submit_eq)
  with r(1,2) show ?case by blast
qed

end

end
