(* ===== verification/Pooled_Stress.thy ===== *)
theory Pooled_Stress
  imports Interleaved_Calls Pooled_Calls
begin

text \<open>
  Payments from one wallet on a thread pool, each a call that its worker makes step by step: scenario 5 of
  \<open>src/main.cpp\<close>. A task ends by counting its answer; \<open>future<void>\<close> only tells that it has ended.
\<close>

section \<open>Counting the answers\<close>

text \<open>The end of the task: \<open>ok\<close> or \<open>rejected\<close> goes up, and the future is set, or gets the exception.\<close>

definition forget :: "Transaction Result outcome \<Rightarrow> unit outcome" where
  "forget r = obind r (\<lambda>_. Returns ())"

fun count_answer :: "Transaction Result outcome \<Rightarrow> int \<times> int \<Rightarrow> int \<times> int" where
  "count_answer (Returns r) (ok, rejected) = (if Result_isOk r then (ok + 1, rejected) else (ok, rejected + 1))"
| "count_answer r counts = counts"

lemma count_answers:
  assumes "\<And>k. k \<in> set js \<Longrightarrow> \<exists>v. f k = Returns v"
  shows "fold (\<lambda>k. count_answer (f k)) js (a, b) =
    (a + int (length (filter (\<lambda>k. succeeded (f k)) js)), b + int (length (filter (\<lambda>k. \<not> succeeded (f k)) js)))"
  using assms
proof (induction js arbitrary: a b)
  case (Cons k js)
  obtain v where v: "f k = Returns v" using Cons.prems by force
  have "\<And>j. j \<in> set js \<Longrightarrow> \<exists>v. f j = Returns v" using Cons.prems by simp
  note IH = Cons.IH [OF this]
  show ?case by (cases v) (simp_all add: v IH succeeded_def)
qed simp

lemma filter_perm_length: "mset js = mset ks \<Longrightarrow> length (filter P js) = length (filter P ks)"
  by (metis mset_filter size_mset)

text \<open>The counters when all calls of a list have ended and returned.\<close>

lemma counted:
  assumes js: "mset js = mset [0..<length sts]" and ret: "\<And>k. k < length sts \<Longrightarrow> \<exists>v. sts ! k = Finished (Returns v)"
  shows "fold (\<lambda>k. count_answer (result_of (sts ! k))) js (0, 0) =
    (int (length (filter charged sts)), int (length sts) - int (length (filter charged sts)))"
proof -
  have mem: "k < length sts" if "k \<in> set js" for k using that mset_eq_setD [OF js] by simp
  have "\<exists>v. result_of (sts ! k) = Returns v" if "k \<in> set js" for k
    using ret [OF mem [OF that]] by (auto simp: result_of_def)
  note c = count_answers [of js "\<lambda>k. result_of (sts ! k)", OF this]
  have same: "succeeded (result_of (sts ! k)) = charged (sts ! k)" if "k < length sts" for k
    using ret [OF that] by (auto simp: result_of_def charged_def)
  have "length (filter (\<lambda>k. succeeded (result_of (sts ! k))) js) = length (filter (\<lambda>k. charged (sts ! k)) js)"
    using same mem by (intro arg_cong [where f = length] filter_cong) simp_all
  also have "\<dots> = length (filter (\<lambda>k. charged (sts ! k)) [0..<length sts])" by (rule filter_perm_length [OF js])
  also have "\<dots> = length (filter charged (map ((!) sts) [0..<length sts]))" by (simp add: filter_map comp_def)
  finally have yes: "length (filter (\<lambda>k. succeeded (result_of (sts ! k))) js) = length (filter charged sts)"
    by (simp add: map_nth)
  have "length js = length sts" using mset_eq_length [OF js] by simp
  with yes sum_length_filter_compl [of "\<lambda>k. succeeded (result_of (sts ! k))" js] c show ?thesis by simp
qed

section \<open>Payments from one wallet\<close>

text \<open>Whatever the number of workers: when every future is set, exactly what the wallet covers has been paid.\<close>

lemma pooled_spending:
  fixes s :: "'w App" and limit threshold :: Money
  defines "W \<equiv> inmemory_wiring limit threshold :: 'w AppWiring"
  assumes ok: "app_ok s" and xy: "x \<noteq> y" and pos: "0 < units m"
    and sp: "spending W x y m (key_store (idempotency s)) calls"
    and p: "acc_store (accounts s) x = Some p" "objects s p = Some a" "account_currency a = currency m"
    and q: "acc_store (accounts s) y = Some q" "same_currency (objects s) q m"
    and run: "work_run W calls answer tally (work_pool ws clients calls s x0) es pl"
    and all: "promised pl = length calls" "\<forall>f < length calls. futures pl f \<noteq> None" and up: "\<not> stopped pl"
  defines "n \<equiv> min (int (length calls)) (funds a div units m)" and "t \<equiv> fst (world pl)"
  shows "int (length (filter charged (stages t))) = n" "length (stages t) = length calls"
    and "\<exists>a'. objects (service t) p = Some a' \<and> funds a' = funds a - n * units m"
    and "f < length calls \<Longrightarrow> \<exists>v. stages t ! f = Finished (Returns v) \<and> futures pl f = Some (Ready (answer (Returns v)))"
    and "\<exists>js. mset js = mset [0..<length calls] \<and> snd (world pl) = fold (\<lambda>k. tally (result_of (stages t ! k))) js x0"
    and "total c (objects (service t)) = total c (objects s)" "shape (objects (service t)) = shape (objects s)"
proof -
  note w = work_run_working [OF run]
  have fut: "\<forall>f < promised pl. futures pl f \<noteq> None" using all by simp
  note r = all_ran [OF w work_answered [OF w fut up] all(1), folded t_def]
  show len: "length (stages t) = length calls" unfolding t_def by (rule working_length [OF w])
  have tr: "runs (traffic_step W calls) (new_traffic calls s) (effects es) t"
    using w by (simp add: working_def t_def)
  have rest: "at_rest (traffic_step W calls) t" by (rule ended_rest) (use r(2) len in simp)
  note i = interleaved_spending [OF ok xy pos sp [unfolded W_def] p q tr [unfolded W_def] rest [unfolded W_def]]
  show "int (length (filter charged (stages t))) = n"
    and "\<exists>a'. objects (service t) p = Some a' \<and> funds a' = funds a - n * units m"
    unfolding n_def by (rule i(1), rule i(2))
  show "\<exists>v. stages t ! f = Finished (Returns v) \<and> futures pl f = Some (Ready (answer (Returns v)))" if "f < length calls"
    using r(4) [OF up that] i(3) [OF that] by (auto simp: result_of_def)
  show "\<exists>js. mset js = mset [0..<length calls] \<and> snd (world pl) = fold (\<lambda>k. tally (result_of (stages t ! k))) js x0"
    using r(1,3) by blast
  have "\<forall>(now, req) \<in> set calls. matched (objects s) (acc_store (accounts s)) req"
    using sp p q by (fastforce simp: spending_def matched_def same_currency_def)
  note ready = app_ready [OF ok this, of limit threshold, folded W_def]
  note tok = app.traffic_runs_ok [OF ready tr]
  show "total c (objects (service t)) = total c (objects s)" by (rule app.rest_finished(3) [OF ready tok rest])
  show "shape (objects (service t)) = shape (objects s)"
    using tok by (simp add: app.traffic_ok_def app.preserves_money_def)
qed

section \<open>Scenario 5\<close>

lemma stress_app_ready:
  fixes s :: "'w App"
  assumes "stress_ready s" "open_wallet s = Returns s1"
  shows "app.ready main_chain_wiring s1 (stress_traffic clock)"
  by (rule app_ready [OF open_wallet_effect(1) [OF assms] stress_ready_calls [OF assms]])

text \<open>The futures of the fifty tasks are all that \<open>main\<close> waits for; the pool is still up then.\<close>

lemma pooled_stress:
  fixes s :: "'w App"
  assumes ready: "stress_ready s" and wallet: "open_wallet s = Returns s1"
    and run: "work_run main_chain_wiring (stress_traffic clock) forget count_answer
      (work_pool 8 1 (stress_traffic clock) s1 (0, 0)) es pl"
    and all: "promised pl = 50" "\<forall>f < 50. futures pl f \<noteq> None" and up: "\<not> stopped pl"
  shows "snd (world pl) = (12, 38)" "\<exists>a. objects (service (fst (world pl))) 2 = Some a \<and> funds a = 0"
    and "f < 50 \<Longrightarrow> future_get f (futures pl) = Returns ()"
proof -
  let ?t = "fst (world pl)"
  note w = work_run_working [OF run]
  have "\<forall>f < promised pl. futures pl f \<noteq> None" using all by simp
  note r = all_ran [OF w work_answered [OF w this up] all(1) [folded stress_traffic_sel(1) [of clock]]]
  have len: "length (stages ?t) = length (stress_traffic clock)" by (rule working_length [OF w])
  have tr: "runs (traffic_step main_chain_wiring (stress_traffic clock)) (new_traffic (stress_traffic clock) s1) (effects es) ?t"
    using w by (simp add: working_def)
  have rest: "at_rest (traffic_step main_chain_wiring (stress_traffic clock)) ?t"
    by (rule ended_rest) (use r(2) len in simp)
  note i = stress_interleaved [OF ready wallet tr rest]
  show "snd (world pl) = (12, 38)"
    using r(3) counted [OF r(1) [folded len]] i(1,3) by (simp add: len stress_traffic_sel(1))
  show "\<exists>a. objects (service ?t) 2 = Some a \<and> funds a = 0" by (rule i(2))
  show "future_get f (futures pl) = Returns ()" if "f < 50"
    using r(4) [OF up] i(3) [OF that] that
    by (auto simp: future_get_def result_of_def forget_def stress_traffic_sel(1))
qed

end
