(* ===== verification/Test_Suite.thy ===== *)
theory Test_Suite
  imports Pooled_Stress
begin

text \<open>
  \<open>tests/tests.cpp\<close>, the program's own tests, on the model. A test is the list of the truth values of its
  \<open>CHECK\<close>s, in their order, or the exception or undefined behaviour that ends the program. The tests with
  a thread pool are relations: they hold of what some schedule of the threads gives. Not modelled is the
  text that the tests print on the way.

  The tests say nothing about the code that the properties do not; that they come out as the program
  expects shows that the model behaves like the program where its authors looked.
\<close>

section \<open>The checks\<close>

type_synonym Checks = "bool list outcome"

text \<open>The tests one after the other; an exception that escapes ends all.\<close>

fun in_sequence :: "Checks list \<Rightarrow> Checks" where
  "in_sequence [] = Returns []"
| "in_sequence (t # ts) = obind t (\<lambda>cs. obind (in_sequence ts) (\<lambda>ds. Returns (cs @ ds)))"

text \<open>The counters, and what \<open>main\<close> makes of them.\<close>

definition g_pass :: "bool list \<Rightarrow> nat" where
  "g_pass cs = length (filter (\<lambda>c. c) cs)"

definition g_fail :: "bool list \<Rightarrow> nat" where
  "g_fail cs = length (filter (\<lambda>c. \<not> c) cs)"

definition exit_code :: "bool list \<Rightarrow> nat" where
  "exit_code cs = (if g_fail cs = 0 then 0 else 1)"

definition main_verdict :: "bool list \<Rightarrow> string" where
  "main_verdict cs = ''Passed: '' @ show_nat (g_pass cs) @ ''   Failed: '' @ show_nat (g_fail cs) @ [NEWLINE] @
     (if g_fail cs = 0 then ''ALL TESTS GREEN.'' else ''SOME TESTS FAILED.'') @ [NEWLINE]"

section \<open>The tests without threads\<close>

text \<open>The double \<open>0.1\<close> is \<open>3602879701896397 / 2 ^ 55\<close>.\<close>

definition test_money :: Checks where
  "test_money =
     obind (fromMajor (3, - 1) INR) (\<lambda>m1.
     obind (fromMajor (3602879701896397, - 55) INR) (\<lambda>m2.
       let a = fromMinor 10 INR; b = fromMinor 20 INR
       in obind (Money_plus a b) (\<lambda>sum.
          obind (Money_minus b a) (\<lambda>diff.
          obind (Money_less a b) (\<lambda>lt.
          obind (Money_greater b a) (\<lambda>gt.
            let threw = (case Money_plus a (fromMinor 5 USD) of Throws e \<Rightarrow> True | _ \<Rightarrow> False)
            in Returns [units m1 = 150, units m2 = 10, units sum = 30, units diff = 10, lt, gt, threw]))))))"

definition test_account :: Checks where
  "test_account =
     obind (fromMajor (100, 0) INR) (\<lambda>opening.
     obind (fromMajor (60, 0) INR) (\<lambda>m60.
     obind (fromMajor (50, 0) INR) (\<lambda>m50.
     obind (fromMajor (10, 0) INR) (\<lambda>m10.
     obind (debit m60 (mkAccount ''a1'' USER_WALLET opening)) (\<lambda>(d, acc1).
     obind (debit m50 acc1) (\<lambda>(od, acc2).
     obind (credit m10 acc2) (\<lambda>(c, acc3).
       Returns [Status_isOk d, funds acc1 = 4000, Status_isErr od, error_code (err od) = INSUFFICIENT_FUNDS,
         funds acc2 = 4000, Status_isOk c, funds acc3 = 5000])))))))"

definition test_state_machine :: Checks where
  "test_state_machine = Returns
     [canTransition INITIATED AUTHORIZED, canTransition AUTHORIZED CAPTURED, canTransition CAPTURED SETTLED,
      \<not> canTransition SETTLED INITIATED, \<not> canTransition INITIATED CAPTURED,
      error_code (err (transition SETTLED AUTHORIZED)) = INVALID_STATE_TRANSITION,
      isTerminal SETTLED, isTerminal FAILED, \<not> isTerminal INITIATED]"

definition makeTxn :: "int64 \<Rightarrow> string \<Rightarrow> Money \<Rightarrow> string \<Rightarrow> string \<Rightarrow> Transaction outcome" where
  "makeTxn now i amt payer payee =
     build now (set_method UPI (set_amount amt (set_payee payee (set_payer payer
       (set_idempotencyKey (''k-'' @ i) (set_id i new_builder))))))"

text \<open>One \<open>chain.run(makeTxn(...))\<close>.\<close>

definition run_txn :: "ValidationChain \<Rightarrow> int64 \<Rightarrow> string \<Rightarrow> int \<Rightarrow> string \<Rightarrow> string \<Rightarrow> Status outcome" where
  "run_txn chain now i major payer payee =
     obind (fromMajor (major, 0) INR) (\<lambda>amt. obind (makeTxn now i amt payer payee) (run chain))"

definition test_validation_chain :: "int64 \<Rightarrow> Checks" where
  "test_validation_chain now =
     obind (fromMajor (1000, 0) INR) (\<lambda>limit.
     obind (fromMajor (500, 0) INR) (\<lambda>threshold.
       let chain = add (FraudCheckHandler threshold) (add (LimitValidationHandler limit) (add BasicValidationHandler []))
       in obind (run_txn chain now ''t1'' 100 ''p'' ''m'') (\<lambda>v1.
          obind (obind (makeTxn now ''t2'' (Money_zero INR) ''p'' ''m'') (run chain)) (\<lambda>v2.
          obind (run_txn chain now ''t3'' 1 ''x'' ''x'') (\<lambda>v3.
          obind (run_txn chain now ''t4'' 600 ''p'' ''m'') (\<lambda>v4.
            Returns [Status_isOk v1, error_code (err v2) = VALIDATION_FAILED, error_code (err v3) = VALIDATION_FAILED,
              error_code (err v4) = FRAUD_REJECTED]))))))"

text \<open>\<open>value()\<close> of an empty optional throws; the exception ends the program, whichever it is.\<close>

definition test_idempotency_store :: Checks where
  "test_idempotency_store =
     (let (p1, store) = mem_putIfAbsent ''k'' ''txn_1'' new_key_store;
          (p2, store) = mem_putIfAbsent ''k'' ''txn_2'' store
      in case mem_key_get ''k'' store of
           None \<Rightarrow> Throws (Logic_error ''bad optional access'')
         | Some v \<Rightarrow> Returns [p1 = True, p2 = False, v = ''txn_1''])"

definition test_ledger_balancing :: Checks where
  "test_ledger_balancing =
     obind (fromMajor (100, 0) INR) (\<lambda>amt.
     obind (fromMajor (1, 0) INR) (\<lambda>rupee.
     obind (fromMajor (1, 0) USD) (\<lambda>dollar.
       let balanced = [mkLedgerEntry ''e1'' ''t1'' ''payer'' DEBIT amt 1, mkLedgerEntry ''e2'' ''t1'' ''payee'' CREDIT amt 2];
           unbalanced = [mkLedgerEntry ''e3'' ''t2'' ''payer'' CREDIT amt 3, mkLedgerEntry ''e4'' ''t2'' ''payee'' CREDIT amt 4];
           mixed = [mkLedgerEntry ''e5'' ''t3'' ''payer'' DEBIT rupee 5, mkLedgerEntry ''e6'' ''t3'' ''payee'' CREDIT dollar 6]
       in obind (mem_post balanced new_ledger) (\<lambda>(s1, l1).
          obind (mem_post unbalanced l1) (\<lambda>(s2, l2).
          obind (mem_post mixed l2) (\<lambda>(s3, l3).
            Returns [Status_isOk s1, Status_isErr s2, Status_isErr s3]))))))"

text \<open>What the file tests start from: the path has been removed, so the file is not there.\<close>

definition test_file_persistence :: "(Index \<Rightarrow> Index) \<Rightarrow> (nat \<Rightarrow> int64) \<Rightarrow> bool \<Rightarrow> Checks" where
  "test_file_persistence iter clock can_open =
     obind (fromMajor (42, 0) INR) (\<lambda>amt.
     obind (makeTxn (clock 0) ''txn_persist'' amt ''p'' ''m'') (\<lambda>t.
       let t = setStatus CAPTURED t
       in obind (open_file_repo (clock 1) None can_open) (\<lambda>repo.
          let repo = file_save iter t repo; size = file_size repo
          in obind (reopen (clock 2) repo) (\<lambda>repo.
               case file_find ''txn_persist'' repo of
                 None \<Rightarrow> Undefined
               | Some loaded \<Rightarrow> Returns [size = 1, True, units (txn_amount loaded) = 4200,
                   txn_status loaded = CAPTURED, txn_idempotencyKey loaded = ''k-txn_persist'']))))"

section \<open>They come out as expected\<close>

lemma test_amounts:
  "fromMajor (1, 0) c = Returns (fromMinor 100 c)" "fromMajor (10, 0) c = Returns (fromMinor 1000 c)"
  "fromMajor (40, 0) c = Returns (fromMinor 4000 c)" "fromMajor (42, 0) c = Returns (fromMinor 4200 c)"
  "fromMajor (50, 0) c = Returns (fromMinor 5000 c)" "fromMajor (60, 0) c = Returns (fromMinor 6000 c)"
  "fromMajor (100, 0) c = Returns (fromMinor 10000 c)" "fromMajor (300, 0) c = Returns (fromMinor 30000 c)"
  "fromMajor (500, 0) c = Returns (fromMinor 50000 c)" "fromMajor (600, 0) c = Returns (fromMinor 60000 c)"
  "fromMajor (1000, 0) c = Returns (fromMinor 100000 c)" "fromMajor (5000, 0) c = Returns (fromMinor 500000 c)"
  by (simp_all add: fromMajor_small)

text \<open>One and a half, exactly; a tenth, which is not exact as a double.\<close>

lemma fromMajor_fractions:
  "fromMajor (3, - 1) INR = Returns (fromMinor 150 INR)"
  "fromMajor (3602879701896397, - 55) INR = Returns (fromMinor 10 INR)"
proof -
  have "double_mul (3, - 1) (100, 0) = (300, - 1)" "double_add (300, - 1) (1, - 1) = (301, - 1)"
    by (simp_all add: double_mul_def double_add_def round53_exact)
  then show "fromMajor (3, - 1) INR = Returns (fromMinor 150 INR)"
    by (simp add: fromMajor_def double_trunc_def signed_divide_int_def checked64_def in_int64_def)
  have "bit_count 360287970189639700 = 59" by (rule bit_count_eq [of 58, simplified]) simp_all
  then have "double_mul (3602879701896397, - 55) (100, 0) = (5629499534213120, - 49)"
    by (simp add: double_mul_def round53_def round_div_def Let_def)
  moreover have "double_add (5629499534213120, - 49) (1, - 1) = (5910974510923776, - 49)"
    by (simp add: double_add_def round53_exact)
  ultimately show "fromMajor (3602879701896397, - 55) INR = Returns (fromMinor 10 INR)"
    by (simp add: fromMajor_def double_trunc_def signed_divide_int_def checked64_def in_int64_def)
qed

lemma test_money_green: "test_money = Returns (replicate 7 True)"
  by (simp add: test_money_def fromMajor_fractions Money_plus_def Money_minus_def Money_less_def Money_greater_def
      assertSameCcy_def add64_def sub64_def checked64_def in_int64_def Let_def eval_nat_numeral)

lemma test_account_green: "test_account = Returns (replicate 7 True)"
  by (simp add: test_account_def test_amounts debit_def credit_def isNegative_def Money_compare_same Money_minus_def
      Money_plus_def add64_def sub64_def checked64_def in_int64_def eval_nat_numeral)

lemma test_state_machine_green: "test_state_machine = Returns (replicate 9 True)"
  by (simp add: test_state_machine_def canTransition_def transition_def isTerminal_def allowed_table_def eval_nat_numeral)

lemma test_validation_chain_green: "test_validation_chain now = Returns (replicate 4 True)"
  by (simp add: test_validation_chain_def run_txn_def makeTxn_def test_amounts build_def builder_defs Let_def
      add_def check_Basic check_Limit_same check_Fraud_same isPositive_def Money_zero_def eval_nat_numeral)

lemma test_idempotency_store_green: "test_idempotency_store = Returns (replicate 3 True)"
  by (simp add: test_idempotency_store_def mem_putIfAbsent_def mem_key_get_def new_key_store_def eval_nat_numeral)

lemma test_ledger_balancing_green: "test_ledger_balancing = Returns (replicate 3 True)"
  by (simp add: test_ledger_balancing_def test_amounts mem_post_def signedAmount_def mkLedgerEntry_def new_ledger_def
      Money_times_def mul64_def add64_def checked64_def in_int64_def Let_def eval_nat_numeral)

lemma test_file_persistence_green:
  assumes "\<And>idx. mset (iter idx) = mset idx"
  shows "test_file_persistence iter clock True = Returns (replicate 5 True)"
proof -
  let ?t = "setStatus CAPTURED (mkTransaction (clock 0) ''txn_persist'' ''k-txn_persist'' ''p'' ''m'' (fromMinor 4200 INR) UPI)"
  let ?r = "\<lparr>index = [], disk = None, writable = True\<rparr>"
  have "file_inv ?r" "file_durable ?r" "storable ?t"
    by (simp_all add: file_inv_def index_ok_def file_durable_def all_storable_def storable_def plain_def)
  from file_restart_after_save [OF assms this, of "clock 2"]
  obtain r' where r': "reopen (clock 2) (file_save iter ?t ?r) = Returns r'"
    "file_view r' = file_view (file_save iter ?t ?r)" by blast
  have saved: "file_size (file_save iter ?t ?r) = 1" "file_view (file_save iter ?t ?r) ''txn_persist'' = Some ?t"
    by (simp_all add: file_size_def file_view_def file_save_def flushToDisk_def insert_or_assign_def)
  have found: "file_find ''txn_persist'' r' = Some ?t"
    using saved(2) r'(2) by (simp add: file_find_def file_view_def)
  have txn: "makeTxn (clock 0) ''txn_persist'' (fromMinor 4200 INR) ''p'' ''m'' =
      Returns (mkTransaction (clock 0) ''txn_persist'' ''k-txn_persist'' ''p'' ''m'' (fromMinor 4200 INR) UPI)"
    by (simp add: makeTxn_def build_def builder_defs)
  have five: "replicate 5 True = [True, True, True, True, True]" by (simp add: eval_nat_numeral)
  show ?thesis
    by (simp add: test_file_persistence_def test_amounts txn open_file_repo_def loadFromDisk_def Let_def r'(1) found saved(1) five)
qed

end
