(* ===== verification/Test_Service.thy ===== *)
theory Test_Service
  imports Test_Suite
begin

text \<open>
  The tests of \<open>tests/tests.cpp\<close> that pay or that use a thread pool, and the suite as a whole. In
  \<open>test_account_concurrency\<close> a task, one \<open>debit\<close> and one increment of an atomic counter, is one step of its
  worker; in \<open>test_service_concurrency\<close> the workers make the steps of their calls.
\<close>

section \<open>The harness\<close>

definition harness_wiring :: "'w AppWiring outcome" where
  "harness_wiring =
     obind (fromMajor (100000, 0) INR) (\<lambda>limit.
     obind (fromMajor (50000, 0) INR) (\<lambda>threshold.
       Returns (inmemory_wiring limit threshold)))"

text \<open>A wallet and a merchant without money; nobody subscribes to events.\<close>

definition harness_accounts :: "string \<Rightarrow> int \<Rightarrow> 'w \<Rightarrow> 'w App outcome" where
  "harness_accounts payer major w =
     obind (fromMajor (major, 0) INR) (\<lambda>opening.
     obind (open_account 0 (mkAccount payer USER_WALLET opening) (empty_app (new_publisher w)))
       (open_account 1 (mkAccount ''m'' MERCHANT (Money_zero INR))))"

definition has_units :: "'w App \<Rightarrow> addr \<Rightarrow> int \<Rightarrow> bool" where
  "has_units s p n = (case objects s p of Some a \<Rightarrow> funds a = n | None \<Rightarrow> False)"

definition harness_request :: "string \<Rightarrow> string \<Rightarrow> Money \<Rightarrow> PaymentMethod \<Rightarrow> PaymentRequest" where
  "harness_request key payer amt m =
     \<lparr>idempotencyKey = key, payerAccountId = payer, payeeAccountId = ''m'', amount = amt, req_method = m\<rparr>"

section \<open>The tests\<close>

definition test_service_end_to_end :: "(nat \<Rightarrow> int64) \<Rightarrow> 'w \<Rightarrow> Checks" where
  "test_service_end_to_end clock w =
     obind (harness_wiring :: 'w AppWiring outcome) (\<lambda>W. obind (harness_accounts ''u'' 1000 w) (\<lambda>s0.
     obind (fromMajor (300, 0) INR) (\<lambda>m300.
       let req = harness_request ''key-1'' ''u'' m300 UPI; (o1, s1) = pay W (clock 0) req s0
       in obind o1 (\<lambda>r1. obind (Result_value r1) (\<lambda>t1.
       let (o2, s2) = pay W (clock 1) req s1
       in obind o2 (\<lambda>r2. obind (Result_value r2) (\<lambda>t2.
          obind (fromMajor (5000, 0) INR) (\<lambda>m5000.
       let big = harness_request ''key-2'' ''u'' m5000 CARD_method; (o3, s3) = pay W (clock 2) big s2
       in obind o3 (\<lambda>r3. Returns
            [Result_isOk r1, txn_status t1 = CAPTURED, has_units s1 0 70000, has_units s1 1 30000,
             Result_isOk r2, txn_id t2 = txn_id t1, has_units s2 0 70000,
             Result_isErr r3, has_units s3 0 70000])))))))))"

text \<open>\<open>for (auto& f : fs) f.get()\<close>.\<close>

fun join_all :: "nat list \<Rightarrow> (nat \<rightharpoonup> unit FutureState) \<Rightarrow> unit outcome" where
  "join_all [] futs = Returns ()"
| "join_all (f # fs) futs = obind (future_get f futs) (\<lambda>_. join_all fs futs)"

definition debit_job :: "Account \<times> int \<Rightarrow> unit outcome \<times> (Account \<times> int)" where
  "debit_job = with_outcome (fromMajor (1, 0) INR) (\<lambda>rupee (acc, ok).
     with_outcome (debit rupee acc) (\<lambda>(d, acc') _. (Returns (), (acc', if Status_isOk d then ok + 1 else ok))) (acc, ok))"

definition test_account_concurrency :: "Checks \<Rightarrow> bool" where
  "test_account_concurrency out \<longleftrightarrow> (\<exists>opening es p. fromMajor (40, 0) INR = Returns opening \<and>
     pool_run (new_pool 8 1 (mkAccount ''a2'' USER_WALLET opening, 0)) es p \<and>
     map work (submitted es) = replicate 100 debit_job \<and> (\<forall>f < 100. futures p f \<noteq> None) \<and> \<not> stopped p \<and>
     out = obind (join_all [0..<100] (futures p)) (\<lambda>_. case world p of (acc, ok) \<Rightarrow>
       Returns [ok = 40, isZero (balance acc)]))"

fun count_ok :: "Transaction Result outcome \<Rightarrow> int \<Rightarrow> int" where
  "count_ok (Returns r) ok = (if Result_isOk r then ok + 1 else ok)"
| "count_ok r ok = ok"

definition concurrent_calls :: "(nat \<Rightarrow> int64) \<Rightarrow> Money \<Rightarrow> (int64 \<times> PaymentRequest) list" where
  "concurrent_calls clock amt = map (\<lambda>i. (clock i, harness_request (''c-'' @ show_nat i) ''w'' amt WALLET)) [0..<200]"

definition test_service_concurrency :: "(nat \<Rightarrow> int64) \<Rightarrow> 'w \<Rightarrow> Checks \<Rightarrow> bool" where
  "test_service_concurrency clock w out \<longleftrightarrow> (\<exists>(W :: 'w AppWiring) s0 amt es pl.
     harness_wiring = Returns W \<and> harness_accounts ''w'' 300 w = Returns s0 \<and> fromMajor (10, 0) INR = Returns amt \<and>
     work_run W (concurrent_calls clock amt) forget count_ok (work_pool 8 1 (concurrent_calls clock amt) s0 0) es pl \<and>
     promised pl = 200 \<and> (\<forall>f < 200. futures pl f \<noteq> None) \<and> \<not> stopped pl \<and>
     out = obind (join_all [0..<200] (futures pl)) (\<lambda>_. case world pl of (t, ok) \<Rightarrow>
       Returns [ok = 30, has_units (service t) 0 0, has_units (service t) 1 30000]))"

section \<open>Payments one after the other\<close>

lemma harness_wiring_eq: "harness_wiring = Returns main_chain_wiring"
  by (simp add: harness_wiring_def main_amounts)

definition harness_app :: "string \<Rightarrow> int64 \<Rightarrow> 'w \<Rightarrow> 'w App" where
  "harness_app payer minor w = (empty_app (new_publisher w))
     \<lparr>objects := [0 \<mapsto> mkAccount payer USER_WALLET (fromMinor minor INR), 1 \<mapsto> mkAccount ''m'' MERCHANT (Money_zero INR)],
      accounts := \<lparr>acc_store = [payer \<mapsto> 0, ''m'' \<mapsto> 1]\<rparr>\<rparr>"

lemma harness_accounts_eq:
  "harness_accounts ''u'' 1000 w = Returns (harness_app ''u'' 100000 w)"
  "harness_accounts ''w'' 300 w = Returns (harness_app ''w'' 30000 w)"
  by (simp_all add: harness_accounts_def test_amounts open_account_def mem_acc_save_def new_acc_repo_def harness_app_def)

lemma harness_app_sel [simp]:
  "objects (harness_app payer minor w) 0 = Some (mkAccount payer USER_WALLET (fromMinor minor INR))"
  "objects (harness_app payer minor w) (Suc 0) = Some (mkAccount ''m'' MERCHANT (Money_zero INR))"
  "acc_store (accounts (harness_app payer minor w)) = [payer \<mapsto> 0, ''m'' \<mapsto> 1]"
  "key_store (idempotency (harness_app payer minor w)) = Map.empty" "held_keys (locks (harness_app payer minor w)) = {}"
  "entries (ledger (harness_app payer minor w)) = []" "dom (objects (harness_app payer minor w)) = {0, 1}"
  by (auto simp: harness_app_def new_key_store_def new_lock_table_def held_keys_def new_ledger_def)

lemma total_two: "dom h = {0, 1} \<Longrightarrow> total c h = holding c (h 0) + holding c (h 1)"
  by (simp add: total_def)

lemma harness_app_ok:
  assumes "0 \<le> sint minor" "payer \<noteq> ''m''"
  shows "app_ok (harness_app payer minor w)" "total INR (objects (harness_app payer minor w)) = sint minor"
proof -
  let ?s = "harness_app payer minor w"
  have fits: "sint minor \<le> int64_max" using in_int64_sint [of minor] by (simp add: in_int64_def)
  have "total c (objects ?s) = (if c = INR then sint minor else 0)" for c
    unfolding total_two [OF harness_app_sel(7)] by (simp add: Money_zero_def)
  with fits have "funded (objects ?s)" and t: "total INR (objects ?s) = sint minor"
    using assms(1) by (auto simp: funded_def solvent_def harness_app_def Money_zero_def split: if_splits)
  moreover have "registered (objects ?s) (acc_store (accounts ?s))"
    using assms(2) by (auto simp: registered_def)
  ultimately show "app_ok ?s" "total INR (objects ?s) = sint minor" by (simp_all add: app_ok_def nets_to_zero_def)
qed

lemma harness_spendable:
  assumes "0 < sint minor" "sint minor \<le> 500000" "payer \<noteq> []" "payer \<noteq> ''m''" "m = UPI \<or> m = CARD_method \<or> m = WALLET"
  shows "spendable main_chain_wiring (harness_request key payer (fromMinor minor INR) m)"
  using assms
  by (auto simp: spendable_def harness_request_def run_standard_accepts create_def new_factory_def approving_def strategy_defs)

text \<open>A captured payment between the two accounts of the harness.\<close>

lemma harness_transferred:
  assumes t: "transferred 0 1 m h h'" and h: "h 0 = Some a" "h 1 = Some b"
    and c: "account_currency a = INR" "account_currency b = INR" "currency m = INR"
  shows "\<exists>a'. h' 0 = Some a' \<and> account_currency a' = INR \<and> funds a' = funds a - units m"
    and "\<exists>b'. h' 1 = Some b' \<and> account_currency b' = INR \<and> funds b' = funds b + units m"
proof -
  have same: "same_currency h 1 m" using h c by (simp add: same_currency_def)
  obtain a' where a': "h' 0 = Some a'" "account_currency a' = INR" using shape_Some [OF transferred_shape [OF t] h(1)] c by metis
  obtain b' where b': "h' 1 = Some b'" "account_currency b' = INR" using shape_Some [OF transferred_shape [OF t] h(2)] c by metis
  from transferred_holding [OF t same, of INR 0] h c a' have "funds a' = funds a - units m" by (simp add: in_currency_def)
  with a' show "\<exists>a'. h' 0 = Some a' \<and> account_currency a' = INR \<and> funds a' = funds a - units m" by blast
  from transferred_holding [OF t same, of INR 1] h c b' have "funds b' = funds b + units m" by (simp add: in_currency_def)
  with b' show "\<exists>b'. h' 1 = Some b' \<and> account_currency b' = INR \<and> funds b' = funds b + units m" by blast
qed

lemma test_service_end_to_end_green: "test_service_end_to_end clock (w :: 'w) = Returns (replicate 9 True)"
proof -
  let ?W = "main_chain_wiring :: 'w AppWiring" and ?s0 = "harness_app ''u'' 100000 w"
  let ?req = "harness_request ''key-1'' ''u'' (fromMinor 30000 INR) UPI"
    and ?big = "harness_request ''key-2'' ''u'' (fromMinor 500000 INR) CARD_method"
  note W = inmemory_wiring_sel(1) [of "fromMinor 10000000 INR" "fromMinor 5000000 INR"]
  have ok: "app_ok ?s0" by (rule harness_app_ok) simp_all
  note reg = app_ok_parts(1) [OF ok]
  have fresh: "key_store (idempotency ?s0) (idempotencyKey ?req) = None" by simp
  have sp: "spendable ?W ?req" by (rule harness_spendable) simp_all
  obtain s1 where s1: "pay ?W (clock 0) ?req ?s0 = (Returns (Result_ok (setStatus CAPTURED (new_txn (clock 0) ?req ?s0))), s1)"
    and t: "transferred 0 1 (amount ?req) (objects ?s0) (objects s1)"
    by (rule app.pay_captures [OF W reg app_ok_parts(2) [OF ok] fresh _ sp, where now = "clock 0" and p = 0 and q = 1
        and a = "mkAccount ''u'' USER_WALLET (fromMinor 100000 INR)"]) (simp_all add: harness_request_def)
  obtain a b where a: "objects s1 0 = Some a" "account_currency a = INR" "funds a = 70000"
    and b: "objects s1 1 = Some b" "funds b = 30000"
    using harness_transferred [OF t] by (fastforce simp: harness_request_def Money_zero_def)
  have len: "length [] < (2 :: nat) ^ 64" by simp
  obtain s2 where s2: "pay ?W (clock 1) ?req s1 = (Returns (Result_ok (setStatus CAPTURED (new_txn (clock 0) ?req ?s0))), s2)"
    and o2: "objects s2 = objects s1"
    using app.retry_replays [OF W reg TrueI fresh s1 len refl, where ?now2.0 = "clock 1"]
    by (cases "pay ?W (clock 1) ?req s1") (auto simp: same_books_def)
  have reg1: "registered (objects s1) (acc_store (accounts s1))"
    using app.pay_registered [OF W reg TrueI, of "clock 0" ?req] s1 by simp
  have acc: "accounts s1 = accounts ?s0" "accounts s2 = accounts s1"
    using app.pay_keeps(1) [OF W reg TrueI, of "clock 0" ?req] app.pay_keeps(1) [OF W reg1 TrueI, of "clock 1" ?req] s1 s2
    by simp_all
  have keys: "key_store (idempotency s2) (idempotencyKey ?big) = None"
    using app.pay_keys [OF W reg, of "clock 0" ?req] app.pay_keys [OF W reg1, of "clock 1" ?req] s1 s2
    by (simp add: harness_request_def domIff [symmetric])
  have locks: "lock_key ?big \<notin> held_keys (locks s2)"
    using app.pay_locks [OF W reg, of "clock 0" ?req] app.pay_locks [OF W reg1, of "clock 1" ?req] s1 s2 by simp
  have sp3: "spendable ?W ?big" by (rule harness_spendable) simp_all
  obtain s3 c where s3: "pay ?W (clock 2) ?big s2 = (Returns (Result_fail INSUFFICIENT_FUNDS c), s3)" "objects s3 = objects s2"
    by (rule app.pay_insufficient [OF W keys locks sp3, where now = "clock 2" and p = 0 and q = 1 and a = a])
      (use a o2 acc in \<open>simp_all add: harness_request_def\<close>)
  have nine: "replicate 9 True = [True, True, True, True, True, True, True, True, True]" by (simp add: eval_nat_numeral)
  show ?thesis
    by (simp add: test_service_end_to_end_def harness_wiring_eq harness_accounts_eq test_amounts s1 s2 [unfolded One_nat_def]
        s3 o2 a b [unfolded One_nat_def] has_units_def Result_isErr_def Result_fail_def nine)
qed

section \<open>Debits on a thread pool\<close>

lemma join_all_returns: "\<forall>f \<in> set fs. future_get f futs = Returns () \<Longrightarrow> join_all fs futs = Returns ()"
  by (induction fs) simp_all

definition debited :: "nat \<Rightarrow> Account \<times> int \<Rightarrow> bool" where
  "debited k w \<longleftrightarrow> account_currency (fst w) = INR \<and> funds (fst w) = 4000 - 100 * min (int k) 40 \<and> snd w = min (int k) 40"

lemma debit_job_debited:
  assumes "debited k w"
  shows "fst (debit_job w) = Returns ()" "debited (Suc k) (snd (debit_job w))"
proof -
  obtain acc ok where w: "w = (acc, ok)" by fastforce
  have i: "account_currency acc = INR" "funds acc = 4000 - 100 * min (int k) 40" "ok = min (int k) 40"
    using assms by (simp_all add: debited_def w)
  have "fst (debit_job w) = Returns () \<and> debited (Suc k) (snd (debit_job w))"
  proof (rule debit_cases [of "fromMinor 100 INR" acc])
    fix b
    assume "debit (fromMinor 100 INR) acc = Returns (Status_ok, acc\<lparr>balance := b\<rparr>)" "units (fromMinor 100 INR) \<le> funds acc"
      "units b = funds acc - units (fromMinor 100 INR)" "currency b = account_currency acc"
    then show ?thesis using i by (auto simp: debit_job_def test_amounts w debited_def min_def split: if_splits)
  qed (use i in \<open>auto simp: debit_job_def test_amounts w debited_def min_def split: if_splits\<close>)
  then show "fst (debit_job w) = Returns ()" "debited (Suc k) (snd (debit_job w))" by blast+
qed

lemma debit_jobs_run:
  assumes "\<forall>t \<in> set ts. work t = debit_job" "debited k w"
  shows "fst (run_all ts w) = map (\<lambda>t. (future_id t, Returns ())) ts \<and> debited (k + length ts) (snd (run_all ts w))"
  using assms
proof (induction ts arbitrary: k w)
  case (Cons t ts)
  note d = debit_job_debited [OF Cons.prems(2)]
  have ts: "\<forall>t \<in> set ts. work t = debit_job" and t: "work t = debit_job" using Cons.prems(1) by simp_all
  from Cons.IH [OF ts d(2)] d(1) t show ?case by (simp add: split_beta Let_def)
qed simp

lemma map_of_constant: "f \<in> g ` set ts \<Longrightarrow> map_of (map (\<lambda>t. (g t, c)) ts) f = Some c"
  by (induction ts) auto

lemma debit_pool_result:
  assumes run: "pool_run (new_pool 8 1 (mkAccount ''a2'' USER_WALLET (fromMinor 4000 INR), 0)) es p"
    and jobs: "map work (submitted es) = replicate 100 debit_job"
    and got: "\<forall>f < 100. futures p f \<noteq> None" and up: "\<not> stopped p"
  shows "snd (world p) = 40" "funds (fst (world p)) = 0" "f < 100 \<Longrightarrow> future_get f (futures p) = Returns ()"
proof -
  let ?w = "(mkAccount ''a2'' USER_WALLET (fromMinor 4000 INR), 0 :: int)"
  have none: "refused es = []" using pool_run_open [OF run] up by (simp add: open_so_far_def)
  have ids: "map future_id (submitted es) = [0..<promised p]"
    using pool_run_accounted [OF run] by (simp add: accounted_def)
  have len: "length (submitted es) = 100" using arg_cong [OF jobs, of length] by simp
  then have n: "promised p = 100" using arg_cong [OF ids, of length] by simp
  have perm: "mset (ran es) = mset (submitted es)"
    using all_futures_set [OF run] got none n by simp
  have "\<forall>t \<in> set (submitted es). work t = debit_job"
    using arg_cong [OF jobs, of set] by auto
  then have work: "\<forall>t \<in> set (ran es). work t = debit_job" using mset_eq_setD [OF perm] by simp
  have "debited 0 ?w" by (simp add: debited_def)
  note r = debit_jobs_run [OF work this]
  have ran: "length (ran es) = 100" using mset_eq_length [OF perm] len by simp
  have fut: "world p = snd (run_all (ran es) ?w)" "futures p = futures_of (ran es) (refused es) ?w"
    using pool_run_fulfilled [OF run] by (simp_all add: fulfilled_def)
  with r ran show "snd (world p) = 40" "funds (fst (world p)) = 0" by (simp_all add: debited_def)
  assume f: "f < 100"
  have "set (map future_id (ran es)) = set (map future_id (submitted es))"
    using mset_eq_setD [OF perm] by simp
  then have "f \<in> future_id ` set (ran es)" using ids f n by simp
  then have "map_of (map (\<lambda>t. (future_id t, Returns ())) (ran es)) f = Some (Returns ())"
    by (rule map_of_constant)
  then show "future_get f (futures p) = Returns ()"
    by (simp add: fut(2) futures_of_def none r future_get_def)
qed

lemma test_account_concurrency_green: "test_account_concurrency out \<longleftrightarrow> out = Returns [True, True]"
proof
  assume "test_account_concurrency out"
  then obtain es p where p: "pool_run (new_pool 8 1 (mkAccount ''a2'' USER_WALLET (fromMinor 4000 INR), 0)) es p"
    "map work (submitted es) = replicate 100 debit_job" "\<forall>f < 100. futures p f \<noteq> None" "\<not> stopped p"
    and out: "out = obind (join_all [0..<100] (futures p)) (\<lambda>_. case world p of (acc, ok) \<Rightarrow>
       Returns [ok = 40, isZero (balance acc)])"
    by (auto simp: test_account_concurrency_def test_amounts)
  note r = debit_pool_result [OF p]
  have "join_all [0..<100] (futures p) = Returns ()" by (rule join_all_returns) (use r(3) in auto)
  with r(1,2) show "out = Returns [True, True]" unfolding out by (simp add: isZero_def split_beta)
next
  assume out: "out = Returns [True, True]"
  let ?p0 = "new_pool 8 1 (mkAccount ''a2'' USER_WALLET (fromMinor 4000 INR), 0)"
  obtain es p where p: "pool_run ?p0 es p" "map work (submitted es) = replicate 100 debit_job" "at_rest pool_step p" "\<not> stopped p"
    by (rule pool_runs [OF zero_less_one])
  have "map future_id (submitted es) = [0..<promised p]"
    using pool_run_accounted [OF p(1)] by (simp add: accounted_def)
  from arg_cong [OF this, of length] arg_cong [OF p(2), of length] have "promised p = 100" by simp
  then have got: "\<forall>f < 100. futures p f \<noteq> None" using rested_futures(2) [OF p(1,3)] by simp
  note r = debit_pool_result [OF p(1,2) got p(4)]
  have "join_all [0..<100] (futures p) = Returns ()" by (rule join_all_returns) (use r(3) in auto)
  with r(1,2) out have "out = obind (join_all [0..<100] (futures p)) (\<lambda>_. case world p of (acc, ok) \<Rightarrow>
       Returns [ok = 40, isZero (balance acc)])" by (simp add: isZero_def split_beta)
  with p(1,2,4) got show "test_account_concurrency out"
    unfolding test_account_concurrency_def test_amounts by blast
qed

section \<open>Payments on a thread pool\<close>

lemma concurrent_calls_sel:
  "length (concurrent_calls clock amt) = 200"
  "i < 200 \<Longrightarrow> concurrent_calls clock amt ! i = (clock i, harness_request (''c-'' @ show_nat i) ''w'' amt WALLET)"
  by (simp_all add: concurrent_calls_def del: upt_rec_numeral)

lemma concurrent_spending:
  "spending main_chain_wiring ''w'' ''m'' (fromMinor 1000 INR) Map.empty (concurrent_calls clock (fromMinor 1000 INR))"
proof -
  have "distinct (map (\<lambda>i. ''c-'' @ show_nat i) [0..<200])"
    by (simp add: distinct_map inj_on_def del: upt_rec_numeral)
  moreover have "map (\<lambda>r. idempotencyKey (snd r)) (concurrent_calls clock (fromMinor 1000 INR)) = map (\<lambda>i. ''c-'' @ show_nat i) [0..<200]"
    by (simp add: concurrent_calls_def harness_request_def comp_def del: upt_rec_numeral)
  moreover have "spendable main_chain_wiring (harness_request key ''w'' (fromMinor 1000 INR) WALLET)" for key
    by (rule harness_spendable) simp_all
  ultimately have "distinct (map (\<lambda>r. idempotencyKey (snd r)) (concurrent_calls clock (fromMinor 1000 INR)))"
    and sp: "spendable main_chain_wiring (harness_request key ''w'' (fromMinor 1000 INR) WALLET)" for key
    by simp_all
  moreover have "\<exists>key. snd r = harness_request key ''w'' (fromMinor 1000 INR) WALLET"
    if "r \<in> set (concurrent_calls clock (fromMinor 1000 INR))" for r
    using that by (auto simp: concurrent_calls_def simp del: upt_rec_numeral)
  ultimately show ?thesis
    unfolding spending_def using sp by (fastforce simp: harness_request_def)
qed

lemma count_ok_answers: "fst (count_answer r (a, b)) = count_ok r a"
  by (cases r) auto

lemma fold_count_ok: "fold (\<lambda>k. count_ok (f k)) js a = fst (fold (\<lambda>k. count_answer (f k)) js (a, b))"
proof (induction js arbitrary: a b)
  case (Cons k js)
  obtain a' b' where "count_answer (f k) (a, b) = (a', b')" by fastforce
  with Cons.IH [of a' b'] count_ok_answers [of "f k" a b] show ?case by simp
qed simp

lemma concurrent_pool_result:
  fixes w :: 'w and clock :: "nat \<Rightarrow> int64"
  defines "calls \<equiv> concurrent_calls clock (fromMinor 1000 INR)"
  assumes run: "work_run main_chain_wiring calls forget count_ok (work_pool 8 1 calls (harness_app ''w'' 30000 w) 0) es pl"
    and all: "promised pl = 200" "\<forall>f < 200. futures pl f \<noteq> None" and up: "\<not> stopped pl"
  shows "snd (world pl) = 30" "has_units (service (fst (world pl))) 0 0" "has_units (service (fst (world pl))) 1 30000"
    and "f < 200 \<Longrightarrow> future_get f (futures pl) = Returns ()"
proof -
  let ?s = "harness_app ''w'' 30000 w" and ?t = "fst (world pl)" and ?a = "mkAccount ''w'' USER_WALLET (fromMinor 30000 INR)"
  have len: "length calls = 200" by (simp add: calls_def concurrent_calls_sel)
  have ok: "app_ok ?s" by (rule harness_app_ok) simp_all
  have tot: "total INR (objects ?s) = 30000" using harness_app_ok(2) [of 30000 "''w''" w] by simp
  have sp: "spending main_chain_wiring ''w'' ''m'' (fromMinor 1000 INR) (key_store (idempotency ?s)) calls"
    using concurrent_spending by (simp add: calls_def)
  have acc: "acc_store (accounts ?s) ''w'' = Some 0" "objects ?s 0 = Some ?a" "account_currency ?a = currency (fromMinor 1000 INR)"
    "acc_store (accounts ?s) ''m'' = Some 1" "same_currency (objects ?s) 1 (fromMinor 1000 INR)"
    by (simp_all add: same_currency_def Money_zero_def)
  note p = pooled_spending [OF ok _ _ sp acc run _ _ up, unfolded len]
  have paid: "length (filter charged (stages ?t)) = 30" "length (stages ?t) = 200"
    and wallet: "\<exists>a'. objects (service ?t) 0 = Some a' \<and> funds a' = 0"
    and ret: "\<And>f. f < 200 \<Longrightarrow> \<exists>v. stages ?t ! f = Finished (Returns v) \<and> futures pl f = Some (Ready (forget (Returns v)))"
    using p(1-4) all by simp_all
  obtain js where js: "mset js = mset [0..<200]" "snd (world pl) = fold (\<lambda>k. count_ok (result_of (stages ?t ! k))) js 0"
    using p(5) all by auto
  have "\<exists>v. stages ?t ! k = Finished (Returns v)" if "k < length (stages ?t)" for k using ret paid(2) that by auto
  from counted [OF js(1) [folded paid(2)] this]
  show "snd (world pl) = 30"
    using fold_count_ok [of "\<lambda>k. result_of (stages ?t ! k)" js 0 0] js(2) paid by simp
  show "has_units (service ?t) 0 0" using wallet by (auto simp: has_units_def)
  show "future_get f (futures pl) = Returns ()" if "f < 200"
    using ret [OF that] by (auto simp: future_get_def forget_def)
  have sh: "shape (objects (service ?t)) = shape (objects ?s)" and now: "total INR (objects (service ?t)) = 30000"
    using p(6,7) all tot by simp_all
  obtain a' where a': "objects (service ?t) 0 = Some a'" "funds a' = 0" "account_currency a' = INR"
    using wallet shape_Some [OF sh harness_app_sel(1)] by fastforce
  obtain b' where b': "objects (service ?t) 1 = Some b'" "account_currency b' = INR"
    using shape_Some [OF sh harness_app_sel(2)] by (auto simp: Money_zero_def)
  have "dom (objects (service ?t)) = {0, 1}" using shape_dom [OF sh] by simp
  from total_two [OF this, of INR] now show "has_units (service ?t) 1 30000"
    by (simp add: has_units_def a' b' [unfolded One_nat_def])
qed

lemma test_service_concurrency_green:
  "test_service_concurrency clock (w :: 'w) out \<longleftrightarrow> out = Returns [True, True, True]"
proof -
  let ?calls = "concurrent_calls clock (fromMinor 1000 INR)" and ?s = "harness_app ''w'' 30000 w"
  let ?W = "main_chain_wiring :: 'w AppWiring"
  have result: "obind (join_all [0..<200] (futures pl)) (\<lambda>_. case world pl of (t, ok) \<Rightarrow>
      Returns [ok = 30, has_units (service t) 0 0, has_units (service t) 1 30000]) = Returns [True, True, True]"
    if "work_run ?W ?calls forget count_ok (work_pool 8 1 ?calls ?s 0) es pl"
      "promised pl = 200" "\<forall>f < 200. futures pl f \<noteq> None" "\<not> stopped pl" for es pl
  proof -
    note r = concurrent_pool_result [OF that]
    have "join_all [0..<200] (futures pl) = Returns ()" by (rule join_all_returns) (use r(4) in auto)
    with r(1-3) show ?thesis by (simp add: split_beta)
  qed
  have ok: "app_ok ?s" by (rule harness_app_ok) simp_all
  have "\<forall>(now, req) \<in> set ?calls. matched (objects ?s) (acc_store (accounts ?s)) req"
    by (auto simp: concurrent_calls_def harness_request_def matched_def Money_zero_def simp del: upt_rec_numeral)
  then have ready: "app.ready ?W ?s ?calls" by (rule app_ready [OF ok])
  have "200 \<le> length ?calls" by (simp add: concurrent_calls_sel)
  then obtain es pl where p: "work_run ?W ?calls forget count_ok (work_pool 8 1 ?calls ?s 0) es pl" "promised pl = 200"
    "at_rest (work_step ?W ?calls) pl" "\<not> stopped pl"
    using app.work_can_run [OF ready zero_less_one] by meson
  have got: "\<forall>f < 200. futures pl f \<noteq> None"
    using app.work_futures [OF ready work_run_working [OF p(1)] p(3)] p(2) by simp
  show ?thesis
    unfolding test_service_concurrency_def harness_wiring_eq harness_accounts_eq test_amounts outcome.inject
  proof (intro iffI; (elim exE conjE)?)
    fix W :: "'w AppWiring" and s0 amt es pl
    assume a: "main_chain_wiring = W" "harness_app ''w'' 30000 w = s0" "fromMinor 1000 INR = amt"
      and run: "work_run W (concurrent_calls clock amt) forget count_ok (work_pool 8 1 (concurrent_calls clock amt) s0 0) es pl"
      "promised pl = 200" "\<forall>f < 200. futures pl f \<noteq> None" "\<not> stopped pl"
      and out: "out = obind (join_all [0..<200] (futures pl)) (\<lambda>_. case world pl of (t, ok) \<Rightarrow>
        Returns [ok = 30, has_units (service t) 0 0, has_units (service t) 1 30000])"
    from result [OF run [folded a]] show "out = Returns [True, True, True]" unfolding out .
  next
    assume "out = Returns [True, True, True]"
    then have "out = obind (join_all [0..<200] (futures pl)) (\<lambda>_. case world pl of (t, ok) \<Rightarrow>
        Returns [ok = 30, has_units (service t) 0 0, has_units (service t) 1 30000])"
      by (simp only: result [OF p(1,2) got p(4)])
    with p(1,2,4) got show "\<exists>W s0 amt es pl. main_chain_wiring = W \<and> harness_app ''w'' 30000 w = s0 \<and> fromMinor 1000 INR = amt \<and>
        work_run W (concurrent_calls clock amt) forget count_ok (work_pool 8 1 (concurrent_calls clock amt) s0 0) es pl \<and>
        promised pl = 200 \<and> (\<forall>f < 200. futures pl f \<noteq> None) \<and> \<not> stopped pl \<and>
        out = obind (join_all [0..<200] (futures pl)) (\<lambda>_. case world pl of (t, ok) \<Rightarrow>
          Returns [ok = 30, has_units (service t) 0 0, has_units (service t) 1 30000])"
      by blast
  qed
qed

section \<open>The suite\<close>

definition test_suite :: "(Index \<Rightarrow> Index) \<Rightarrow> (nat \<Rightarrow> int64) \<Rightarrow> bool \<Rightarrow> 'w \<Rightarrow> Checks \<Rightarrow> bool" where
  "test_suite iter clock can_open w out \<longleftrightarrow>
     (\<exists>debits payments. test_account_concurrency debits \<and> test_service_concurrency clock w payments \<and>
        out = in_sequence [test_money, test_account, debits, test_state_machine, test_validation_chain (clock 0),
          test_idempotency_store, test_ledger_balancing, test_service_end_to_end clock w, payments,
          test_file_persistence iter clock can_open])"

lemma test_suite_green:
  assumes "\<And>idx. mset (iter idx) = mset idx"
  shows "test_suite iter clock True w out \<longleftrightarrow> out = Returns (replicate 52 True)"
proof -
  have all: "in_sequence [test_money, test_account, Returns [True, True], test_state_machine, test_validation_chain (clock 0),
      test_idempotency_store, test_ledger_balancing, test_service_end_to_end clock w, Returns [True, True, True],
      test_file_persistence iter clock True] = Returns (replicate 52 True)"
    by (simp add: test_money_green test_account_green test_state_machine_green test_validation_chain_green
        test_idempotency_store_green test_ledger_balancing_green test_service_end_to_end_green
        test_file_persistence_green [OF assms] eval_nat_numeral)
  show ?thesis
    by (simp only: test_suite_def test_account_concurrency_green test_service_concurrency_green simp_thms ex_simps all)
qed

end
