(* ===== verification/Examples.thy ===== *)
theory Examples
  imports Main_Console_End Test_Service
begin

text \<open>
  Concrete services and requests at which the properties are instantiated: the seeded demo, the demo
  with a merchant in US dollars, and the demo over the file repository.
\<close>

definition demo :: "unit App" where
  "demo = seeded (\<lambda>_ w. w) ()"

abbreviation demo_wiring :: "unit AppWiring" where
  "demo_wiring \<equiv> main_chain_wiring"

lemma demo_ok: "app_ok demo"
  unfolding demo_def by (rule seeded_ok)

lemma demo_registered: "registered (objects demo) (acc_store (accounts demo))"
  by (rule app_ok_parts(1) [OF demo_ok])

lemma demo_sel [simp]:
  "objects demo 0 = Some (mkAccount ''acc_user_42'' USER_WALLET (fromMinor 200000 INR))"
  "objects demo (Suc 0) = Some (mkAccount ''acc_merchant_7'' MERCHANT (Money_zero INR))"
  "acc_store (accounts demo) = [''acc_user_42'' \<mapsto> 0, ''acc_merchant_7'' \<mapsto> 1]"
  "key_store (idempotency demo) = Map.empty" "held_keys (locks demo) = {}" "entries (ledger demo) = []"
  by (simp_all add: demo_def)

lemma main_pay_sel [simp]:
  "idempotencyKey (main_pay k u m) = k" "payerAccountId (main_pay k u m) = ''acc_user_42''"
  "payeeAccountId (main_pay k u m) = ''acc_merchant_7''" "amount (main_pay k u m) = fromMinor u INR"
  "req_method (main_pay k u m) = m"
  by (simp_all add: main_pay_def)

lemma demo_matched: "matched (objects demo) (acc_store (accounts demo)) (main_pay k u m)"
  by (simp add: matched_def Money_zero_def)

lemma demo_capturable:
  "capturable (fromMinor 10000000 INR) (fromMinor 5000000 INR) (main_pay k 50000 UPI)
     (acc_store (accounts demo)) (objects demo)"
  by (simp add: capturable_def)

lemma main_pay_spendable: "spendable demo_wiring (main_pay k 50000 UPI)"
  by (rule capturable_spendable [OF demo_capturable]) simp_all

text \<open>The first payment of the demo, under any key.\<close>

lemma demo_captured:
  obtains s1 where
    "pay demo_wiring now (main_pay k 50000 UPI) demo =
       (Returns (Result_ok (setStatus CAPTURED (new_txn now (main_pay k 50000 UPI) demo))), s1)"
    and "transferred 0 1 (fromMinor 50000 INR) (objects demo) (objects s1)"
proof -
  obtain s1 where p: "pay demo_wiring now (main_pay k 50000 UPI) demo =
      (Returns (Result_ok (setStatus CAPTURED (new_txn now (main_pay k 50000 UPI) demo))), s1)"
    and t: "transferred 0 1 (amount (main_pay k 50000 UPI)) (objects demo) (objects s1)"
    by (rule app.pay_captures [OF inmemory_wiring_sel(1) app_ok_parts(1,2) [OF demo_ok] _ _ main_pay_spendable,
          where p = 0 and q = 1 and a = "mkAccount ''acc_user_42'' USER_WALLET (fromMinor 200000 INR)"]) simp_all
  then show ?thesis using that by simp
qed

text \<open>A payment held for fraud review.\<close>

lemma demo_held:
  obtains s1 m where "pay demo_wiring now (main_pay k 6000000 CARD_method) demo =
    (Returns (Result_fail FRAUD_REJECTED m), s1)"
proof -
  have "between demo {}" using demo_registered by (simp add: between_def)
  then show ?thesis
    using main_rejected [of demo "{}" k 6000000 FRAUD_REJECTED now] that by blast
qed

section \<open>A merchant in another currency\<close>

definition usd_merchant :: Account where
  "usd_merchant = mkAccount ''acc_merchant_7'' MERCHANT (fromMinor 0 USD)"

definition usd_app :: "unit App" where
  "usd_app = demo\<lparr>objects := (objects demo)(1 \<mapsto> usd_merchant)\<rparr>"

lemma usd_app_sel [simp]:
  "accounts usd_app = accounts demo" "idempotency usd_app = idempotency demo" "locks usd_app = locks demo"
  "ledger usd_app = ledger demo" "objects usd_app = (objects demo)(1 \<mapsto> usd_merchant)"
  by (simp_all add: usd_app_def)

lemma usd_app_ok: "app_ok usd_app"
proof -
  note d = app_ok_parts [OF demo_ok]
  have fin: "finite (dom (objects demo))" "solvent (objects demo)" using d(2) by (simp_all add: funded_def)
  have "total c (objects usd_app) = total c (objects demo)" for c
    using total_update [OF fin(1), of 1 _ c usd_merchant] by (simp add: usd_merchant_def Money_zero_def)
  moreover have "solvent (objects usd_app)"
    using fin(2) by (auto simp: solvent_def usd_merchant_def)
  moreover have "registered (objects usd_app) (acc_store (accounts usd_app))"
    using d(1) by (auto simp: registered_def usd_merchant_def)
  ultimately show ?thesis using d by (simp add: app_ok_def funded_def)
qed

section \<open>The demo over the file repository\<close>

definition demo_boot :: "unit DurableApp" where
  "demo_boot = durable_boot (accounts demo) (objects demo)"

lemma demo_storable: "storable (new_txn now (main_pay ''idem-key-001'' 50000 UPI) demo_boot)"
  by (simp add: storable_def plain_def demo_boot_def durable_boot_def id_text_def show_nat_small decimal_digits_def)

lemma demo_boot_captured:
  obtains s1 where "pay (durable_wiring rev (fromMinor 10000000 INR) (fromMinor 5000000 INR)) now
      (main_pay ''idem-key-001'' 50000 UPI) demo_boot =
        (Returns (Result_ok (setStatus CAPTURED (new_txn now (main_pay ''idem-key-001'' 50000 UPI) demo_boot))), s1)"
    and "objects s1 0 = Some (mkAccount ''acc_user_42'' USER_WALLET (fromMinor 150000 INR))"
proof -
  let ?req = "main_pay ''idem-key-001'' 50000 UPI"
  have tr: "file_inv (transactions demo_boot)" "file_durable (transactions demo_boot)"
    by (simp_all add: demo_boot_def durable_boot_def file_inv_def index_ok_def file_durable_def all_storable_def)
  have pre: "registered (objects demo_boot) (acc_store (accounts demo_boot))" "funded (objects demo_boot)"
    "key_store (idempotency demo_boot) (idempotencyKey ?req) = None" "held_keys (locks demo_boot) = {}"
    "capturable (fromMinor 10000000 INR) (fromMinor 5000000 INR) ?req (acc_store (accounts demo_boot)) (objects demo_boot)"
    using demo_registered app_ok_parts(2) [OF demo_ok] demo_capturable
    by (simp_all add: demo_boot_def durable_boot_def)
  obtain p q s1 where s1: "pay (durable_wiring rev (fromMinor 10000000 INR) (fromMinor 5000000 INR)) now ?req demo_boot =
      (Returns (Result_ok (setStatus CAPTURED (new_txn now ?req demo_boot))), s1)"
    and v: "acc_store (accounts demo_boot) (payerAccountId ?req) = Some p"
      "acc_store (accounts demo_boot) (payeeAccountId ?req) = Some q"
    and t: "transferred p q (amount ?req) (objects demo_boot) (objects s1)"
    by (rule durable_capture [OF mset_rev pre(1-4) tr demo_storable [of now] pre(5)])
  have "p = 0" "q = 1" using v by (simp_all add: demo_boot_def durable_boot_def)
  with t have "objects s1 0 = Some (mkAccount ''acc_user_42'' USER_WALLET (fromMinor 150000 INR))"
    by (intro transferred_main(1)) (simp add: demo_boot_def durable_boot_def demo_def seeded_def)
  with s1 that show ?thesis by blast
qed

section \<open>Threads\<close>

text \<open>A producer that has not yet notified anybody, and a consumer that took its item.\<close>

lemma queue_handover:
  obtains s where "queue_run (new_monitor 1 2) [Enqueued 0 (7 :: nat), Dequeued 1 7] s" "places s ! 1 = Popped 7"
proof -
  let ?s0 = "new_monitor 1 2 :: nat Monitor"
  let ?s1 = "?s0\<lparr>places := [Pushing 7, Idle]\<rparr>" and ?q = "(new_queue 1)\<lparr>queue := [7]\<rparr> :: nat BlockingQueue"
  let ?s2 = "\<lparr>object = ?q, places = [Pushed, Idle]\<rparr>" and ?s3 = "\<lparr>object = ?q, places = [Pushed, Popping]\<rparr>"
    and ?s4 = "\<lparr>object = new_queue 1, places = [Pushed, Popped 7]\<rparr>"
  have "queue_call ?s0 ?s1" using enter [of 0 ?s0 "Pushing 7"] by (simp add: new_monitor_def numeral_2_eq_2)
  from queue_run.call [OF queue_run.start this] have r1: "queue_run ?s0 [] ?s1" .
  have "queue_step ?s1 [Enqueued 0 7] ?s2"
    using locked [of 0 ?s1 Pushed ?q "[Enqueued 0 7]"]
    by (simp add: new_monitor_def push_locked_def isFullLocked_def new_queue_def)
  from queue_run.step [OF r1 this] have r2: "queue_run ?s0 [Enqueued 0 7] ?s2" by simp
  have "queue_call ?s2 ?s3" using enter [of 1 ?s2 Popping] by simp
  from queue_run.call [OF r2 this] have r3: "queue_run ?s0 [Enqueued 0 7] ?s3" .
  have "queue_step ?s3 [Dequeued 1 7] ?s4"
    using locked [of 1 ?s3 "Popped 7" "new_queue 1" "[Dequeued 1 7]"]
    by (simp add: pop_locked_def new_queue_def)
  from queue_run.step [OF r3 this] have "queue_run ?s0 [Enqueued 0 7, Dequeued 1 7] ?s4" by simp
  then show thesis by (rule that) simp
qed

text \<open>A pool with one worker and two clients, of which the second has shut it down.\<close>

lemma pool_shut_down:
  obtains es and p :: "('r, nat) ThreadPool" where "pool_run (new_pool 1 2 0) es p" "closed (object (tasks p))"
    "workers p \<le> 1" "1 < length (places (tasks p))" "free (place p 1)" "promised p = 0"
proof -
  let ?p = "new_pool 1 2 0 :: ('r, nat) ThreadPool"
  have "pool_call ?p [] (shutdown 2 ?p)"
    by (rule shuts_down) (simp_all add: new_pool_def place_def nth_append)
  from pool_run.call [OF pool_run.start this] have run: "pool_run ?p [] (shutdown 2 ?p)" by simp
  let ?m = "\<lparr>object = (new_queue 1024)\<lparr>closed := True\<rparr>, places = [Popping, Idle, Closed_notEmpty]\<rparr>"
  have "queue_step (tasks (shutdown 2 ?p)) [Shut 2] ?m"
    using locked [of 2 "tasks (shutdown 2 ?p)" Closed_notEmpty "(new_queue 1024)\<lparr>closed := True\<rparr>" "[Shut 2]"]
    by (simp add: shutdown_def new_pool_def close_locked_def numeral_2_eq_2)
  from pool_run.step [OF run in_queue [OF this]] show thesis
    by (rule that) (simp_all add: shutdown_def new_pool_def place_def)
qed

section \<open>Calls at once\<close>

text \<open>Two payments of the demo's user, to their end, and to where the first has just taken the lock.\<close>

definition two_calls :: "(int64 \<times> PaymentRequest) list" where
  "two_calls = [(7, main_pay ''a'' 50000 UPI), (8, main_pay ''b'' 50000 UPI)]"

lemma two_calls_matched: "\<forall>(now, req) \<in> set two_calls. matched (objects demo) (acc_store (accounts demo)) req"
  by (simp add: two_calls_def demo_matched del: demo_sel)

lemma two_calls_ended:
  obtains k es t where "steps (traffic_step demo_wiring two_calls) k (new_traffic two_calls demo) es t"
    and "runs (traffic_step demo_wiring two_calls) (new_traffic two_calls demo) es t"
    and "at_rest (traffic_step demo_wiring two_calls) t"
  using traffic_ends runs_iff_steps by metis

lemma two_calls_pooled:
  obtains es p where "work_run demo_wiring two_calls forget count_answer (work_pool 8 1 two_calls demo (0, 0)) es p"
    and "promised p = 2"
proof -
  have "app.ready demo_wiring demo two_calls" by (rule app_ready [OF demo_ok two_calls_matched])
  moreover have "2 \<le> length two_calls" by (simp add: two_calls_def)
  ultimately show thesis using app.work_can_run that by (metis zero_less_one)
qed

lemma two_calls_locked:
  obtains t txn where "runs (traffic_step demo_wiring two_calls) (new_traffic two_calls demo) [] t"
    and "stages t = [Checking txn, Minting]"
proof -
  let ?R = "runs (traffic_step demo_wiring two_calls) (new_traffic two_calls demo) []" and ?req = "main_pay ''a'' 50000 UPI"
  have call: "two_calls ! 0 = (7, ?req)" by (simp add: two_calls_def)
  obtain i g where g: "next_id (txnIds demo) = (i, g)" by fastforce
  have "i \<noteq> []" using g by (auto simp: next_id_def id_text_def Let_def)
  then obtain txn where txn: "build 7 (request_builder ?req i) = Returns txn"
    by (simp add: build_def request_builder_def builder_defs)
  obtain ks where ks: "mem_putIfAbsent ''a'' i (idempotency demo) = (True, ks)"
    by (simp add: mem_putIfAbsent_def)
  obtain dl where dl: "mem_lock_acquire (lock_key ?req) (locks demo) = Some dl"
    using mem_lock.acquire_free [of "lock_key ?req" "locks demo"] by auto
  note ports = inmemory_wiring_sel(1) inmemory_ports_def
  have r0: "?R \<lparr>service = demo, stages = [Minting, Minting]\<rparr>"
    using runs.start [of "traffic_step demo_wiring two_calls" "new_traffic two_calls demo"]
    by (simp add: new_traffic_def two_calls_def numeral_2_eq_2)
  have r1: "?R \<lparr>service = demo\<lparr>txnIds := g\<rparr>, stages = [Claiming i, Minting]\<rparr>"
    using runs_move [OF r0 _ call, of "Claiming i"] g by (simp add: takes_effect_def)
  have r2: "?R \<lparr>service = demo\<lparr>txnIds := g, idempotency := ks\<rparr>, stages = [Locking txn, Minting]\<rparr>"
    using runs_move [OF r1 _ call, of "Locking txn"] txn ks by (simp add: takes_effect_def ports)
  have "?R \<lparr>service = demo\<lparr>txnIds := g, idempotency := ks, locks := dl\<rparr>, stages = [Checking txn, Minting]\<rparr>"
    using runs_move [OF r2 _ call, of "Checking txn"] dl by (simp add: takes_effect_def ports)
  then show thesis by (rule that) simp
qed

end
