(* ===== verification/Spec2Isabelle.thy ===== *)
theory Spec2Isabelle
  imports Examples
begin

text \<open>
  A verification development for the payment system under \<open>src/\<close>: a C++ library of header files,
  \<open>include/payment/**\<close>, and a demo, \<open>src/main.cpp\<close>. This theory holds the properties; the theories it
  imports hold the model and the lemmas.

  \<^bold>\<open>The program.\<close> \<open>PaymentService::pay\<close> (\<open>service/PaymentService.hpp\<close>) moves an amount from a payer to a
  payee. It claims the request's idempotency key, builds the transaction, takes the payer's lock, runs the
  validation chain, finds both accounts, asks the payment strategy for authorisation, debits the payer,
  credits the payee, posts a balanced pair to the ledger, captures, stores the transaction and publishes an
  event. Everything it talks to is a port (\<open>ports/Ports.hpp\<close>) with an in-memory adapter, and a
  file-backed one for transactions (\<open>adapters/\<close>).

  \<^bold>\<open>Theories and code.\<close>
  \<^item> \<open>Prelude\<close>: outcomes of C++ calls (a value, one of three exceptions, undefined behaviour, waiting for a
    lock), \<open>int64_t\<close> as a 64-bit word whose overflowing operations are undefined, and the decimal
    conversions and \<open>getline\<close> of the standard library.
  \<^item> \<open>Enums\<close>, \<open>Result\<close>, \<open>Money\<close>, \<open>Floating\<close>: \<open>common/\<close>. An enum has a constructor \<open>Other...\<close> for the values
    a cast of an integer can produce besides the enumerators. \<open>Floating\<close> is \<open>Money::fromMajor\<close> with its
    \<open>double\<close> arithmetic as exact results rounded to 53 bits.
  \<^item> \<open>Account\<close>, \<open>Transaction\<close>, \<open>LedgerEntry\<close>: \<open>domain/\<close> (\<open>DomainEvent\<close> is in \<open>LedgerEntry\<close>). Accounts are
    shared by pointer, so they live in a heap from addresses to accounts; all else is copied by value.
  \<^item> \<open>State_Machine\<close>, \<open>Validation_Chain\<close>, \<open>Payment_Strategy\<close>: \<open>patterns/\<close>. A handler or strategy is the
    record of its virtual functions, the factory a map from methods to strategies.
  \<^item> \<open>Id_Generator\<close>: \<open>infra/IdGenerator.hpp\<close>, a counter modulo \<open>2 ^ 64\<close>.
  \<^item> \<open>Ports\<close>: one locale for each abstract class, stating over an abstract view what the service relies on,
    and the record of port functions that is injected.
  \<^item> \<open>InMemory_*\<close>, \<open>File_Transaction_Repository\<close>: \<open>adapters/\<close>, each with the interpretation of its locale.
    The file repository is the index, the content of the file and whether the file can be opened; the
    order in which \<open>unordered_map\<close> is iterated is the parameter \<open>iter\<close>, of which only the law that each entry
    comes once is used (locale \<open>iteration_order\<close>, interpreted at two orders).
  \<^item> \<open>Payment_Service\<close>: the service. \<open>Service\<close> is all state a call can change, \<open>Wiring\<close> what the constructor
    receives. \<open>pay\<close> is cut into \<open>locked_payment\<close>, \<open>process_payment\<close>, \<open>move_money\<close>, \<open>post_payment\<close> and
    \<open>capture_payment\<close> at the comments of the source; \<open>fail_txn\<close>, \<open>publish_event\<close> and \<open>advance\<close> are the private
    helpers. \<open>pays\<close> is a sequence of calls.
  \<^item> \<open>Payment_Contract\<close>, \<open>Conservation\<close>, \<open>Payment_Guarantees\<close>, \<open>Payment_History\<close>, \<open>Payment_Progress\<close>: the
    service proved once in the locale \<open>payment_service\<close>, which assumes the six port contracts.
    \<open>pay_cases\<close> lists every way a call can end with the state it leaves; conservation, reconciliation,
    idempotency and progress are derived from it for one call, then for histories by induction.
  \<^item> \<open>Wiring\<close>, \<open>App_Guarantees\<close>: the composition with the in-memory ports and with the file repository, the
    two interpretations of \<open>payment_service\<close>, and the guarantees at the demo chain and factory.
  \<^item> \<open>Machine\<close>, \<open>Blocking_Queue\<close>, \<open>Thread_Pool\<close>: \<open>infra/BlockingQueue.hpp\<close> and \<open>infra/ThreadPool.hpp\<close> as step
    relations over the places where the threads are: a critical section is one step, a notification
    another, a spurious wakeup and a new call come from outside. \<open>Machine\<close> is the locale of step relations
    with an invariant and a potential, interpreted at both and at the calls of \<open>pay\<close>. The channel of
    \<open>Blocking_Queue\<close> is the abstract specification of the queue.
  \<^item> \<open>Payment_Threads\<close>: \<open>pay\<close> in small steps, \<open>call_step\<close>, one access to shared state each, and any number of
    calls at once, \<open>traffic_step\<close>. \<open>Concurrent_Payments\<close> proves their invariants in \<open>payment_service\<close>, by the
    cases of a step (\<open>step_cases\<close>); \<open>Serial_Payments\<close> simulates every interleaving at the demo chain by a
    sequential run; \<open>Interleaved_Calls\<close> has what follows for wallets, scenario 5 and early retries.
  \<^item> \<open>Pooled_Calls\<close>: the thread pool with such calls as its tasks. \<open>work_step\<close> is a step of the pool or of a call in
    the hands of a worker, \<open>call_task\<close> what a task does with the answer. \<open>working\<close> is the invariant that ties the
    two machines together. \<open>Pooled_Stress\<close> spends a wallet on such a pool, scenario 5 in particular.
  \<^item> \<open>Main_Demo\<close>, \<open>Main_Threads\<close>: \<open>src/main.cpp\<close> without its printing, scenarios 1 to 5 as calls, scenarios 5 to 7
    with the pool, the audit trail and the file. \<open>Main_Console\<close>, \<open>Main_Console_End\<close>: the same with the text it
    writes; the console is the outside world of the event publisher.
  \<^item> \<open>Test_Suite\<close>, \<open>Test_Service\<close>: \<open>tests/tests.cpp\<close>, a definition for each test that gives the values of its checks;
    the tests with a pool are relations between a schedule and what comes out. \<open>Examples\<close>: concrete instances.

  \<^bold>\<open>What is shown.\<close> C1 to C9 are the guarantees of the service: conservation, idempotency, all or nothing,
  the exact condition of success, reconciliation, double entry, no double spend, one record and one event
  for each processed request, and the lock released on every exit. C10 is durability. C11 to C17 are calls
  at once: every interleaving has a sequential run with the same accounts and verdicts, money and journal in
  the middle of it, one call for each payer under its lock, one charge for each key, no deadlock, the types
  of the accounts, and that the small steps are \<open>pay\<close>. C18 to C22 are the threads: the queue refines a channel
  and strands nobody, the pool runs every task once and answers every future, and what becomes of a task
  submitted too late. C23 and C24 put the two together: a pool of calls is an interleaving of calls, no more at
  once than workers, and neither the queue nor the locks make anybody wait for ever. C25 to C29 are places where
  the code departs from what its comments promise, each as a theorem about the code as it is. C30 to C33 are the
  demo and the text it prints, C34 is the program's test suite. C35 to C40 are the components.

  \<^bold>\<open>Bounds.\<close> C2 allows fewer than \<open>2 ^ 64\<close> calls between a call and its retry, the period of the id counter
  (C37 shows that the bound is sharp for a generator). C1, C3, C5, C7, C11 to C16 and C24 start from a state in
  which no balance is negative and the accounts of each currency together hold at most \<open>2 ^ 63 - 1\<close> minor
  units (\<open>funded\<close>, part of \<open>app_ok\<close>); C1 and C12 show that this stays so, hence no balance overflows. C15, C19,
  C21 and C24 bound the number of steps by a potential of the state; there is no fuel. The one loop that is not
  structural, \<open>load_loop\<close>, shortens its input.

  \<^bold>\<open>What is not modelled.\<close> Each method of an adapter or an account that holds its mutex throughout is one step,
  and memory is sequentially consistent; delivering an event to its subscribers is one step with logging it.
  In C20 to C22, C31 and \<open>test_account_concurrency\<close> a task of the pool is one step; in C23, C24, C32 and
  \<open>test_service_concurrency\<close> it is a call made step by step, whose end, counting the answer and setting the future,
  is one step. The text a test prints before the verdict is left out. The clock is an argument.
  Failures of memory, of thread creation or of the file system other than a file that cannot be opened, the
  translation of line ends on Windows, and infinite or undefined doubles are outside the model. An event
  subscriber is a function on an outside world; it does not call back into the service. A pool task does not
  submit to its own pool. Writing to the console never fails.
\<close>

section \<open>Payments\<close>

text \<open>
  C1. Whatever requests arrive, in whatever order: a well-formed service whose payers and payees hold the
  same currency stays well-formed (no negative balance, no lock left held, a balanced journal),
  conserves the money of every currency, never overflows and never waits for a lock.
\<close>

theorem history_conserves_money:
  fixes s :: "'w App"
  assumes "app_ok s" and "\<forall>(now, req) \<in> set rs. matched (objects s) (acc_store (accounts s)) req"
    and "pays (inmemory_wiring limit threshold) rs s = (out, s')"
  shows "app_ok s' \<and> (\<forall>c. total c (objects s') = total c (objects s)) \<and> Undefined \<notin> set out \<and> Blocks \<notin> set out"
proof -
  have chain: "\<And>t. run (validation (inmemory_wiring limit threshold)) t \<noteq> Undefined"
    "\<And>t. run (validation (inmemory_wiring limit threshold)) t \<noteq> Blocks"
    by (simp_all add: standard_chain_returns)
  show ?thesis
    using pays_app_ok [OF inmemory_wiring_sel(1) chain assms(1,2)] assms(3)
      app.pays_conserve [OF inmemory_wiring_sel(1) chain(1) app_ok_parts(1) [OF assms(1)] TrueI
        app_ok_parts(2) [OF assms(1)] assms(2)]
    by simp
qed

theorem history_conserves_money_witness:
  "\<exists>out s'. pays demo_wiring [(7, main_pay ''a'' 50000 UPI), (8, main_pay ''b'' 6000000 CARD_method)] demo = (out, s') \<and>
     app_ok s' \<and> total INR (objects s') = total INR (objects demo)"
proof -
  let ?rs = "[(7, main_pay ''a'' 50000 UPI), (8, main_pay ''b'' 6000000 CARD_method)] :: (int64 \<times> PaymentRequest) list"
  have "\<forall>(now, req) \<in> set ?rs. matched (objects demo) (acc_store (accounts demo)) req"
    by (simp del: demo_sel add: demo_matched)
  from history_conserves_money [OF demo_ok this prod.collapse [symmetric]] show ?thesis
    by (metis prod.collapse)
qed

text \<open>
  C2. Idempotency: once a call has returned, a retry with its key, after any history of fewer than
  \<open>2 ^ 64\<close> other calls and whatever the retry asks for, answers with the stored transaction of the first
  call and touches no account, transaction, posting or event. The bound is the period of the id counter.
\<close>

theorem retry_replays_first_answer:
  fixes s :: "'w App"
  assumes "ports W = inmemory_ports" "registered (objects s) (acc_store (accounts s))"
    and "key_store (idempotency s) (idempotencyKey req) = None" "pay W now req s = (Returns r, s1)"
    and "length rs < 2 ^ 64" "pays W rs s1 = (out, s2)" "idempotencyKey retry = idempotencyKey req"
    and "pay W now2 retry s2 = (res, s3)"
  shows "res = Returns (Result_ok (setStatus (if Result_isOk r then CAPTURED else FAILED) (new_txn now req s))) \<and>
    same_books s2 s3"
  using app.retry_replays [OF assms(1,2) TrueI assms(3,4,5,7), of now2] assms(6,8)
  by (simp add: final_status_def)

theorem retry_replays_first_answer_witness:
  "let s1 = snd (pay demo_wiring 7 (main_pay ''a'' 50000 UPI) demo);
       s2 = snd (pays demo_wiring [(8, main_pay ''b'' 50000 UPI)] s1)
   in fst (pay demo_wiring 9 (main_pay ''a'' 1 WALLET) s2) =
        Returns (Result_ok (setStatus CAPTURED (new_txn 7 (main_pay ''a'' 50000 UPI) demo)))"
proof -
  obtain s1 where s1: "pay demo_wiring 7 (main_pay ''a'' 50000 UPI) demo =
      (Returns (Result_ok (setStatus CAPTURED (new_txn 7 (main_pay ''a'' 50000 UPI) demo))), s1)"
    by (rule demo_captured)
  have key: "key_store (idempotency demo) (idempotencyKey (main_pay ''a'' 50000 UPI)) = None" by simp
  have len: "length [(8 :: int64, main_pay ''b'' 50000 UPI)] < 2 ^ 64" by simp
  have same: "idempotencyKey (main_pay ''a'' 1 WALLET) = idempotencyKey (main_pay ''a'' 50000 UPI)" by simp
  from retry_replays_first_answer [OF inmemory_wiring_sel(1) demo_registered key s1 len prod.collapse [symmetric] same
      prod.collapse [symmetric], of 9] s1
  show ?thesis unfolding Let_def by simp
qed



text \<open>
  C4. Under the demo wiring a new request is captured exactly when it is \<open>capturable\<close>: ids present and
  different, all amounts in one currency, positive, within the limit and below the fraud threshold, a
  known method, both accounts registered, and a payer in that currency with enough funds.
\<close>

theorem captured_iff_capturable:
  fixes s :: "'w App"
  assumes "app_ok s" and "key_store (idempotency s) (idempotencyKey req) = None"
    and "pay (inmemory_wiring limit threshold) now req s = (res, s')"
  shows "(\<exists>t. res = Returns (Result_ok t)) \<longleftrightarrow>
    capturable limit threshold req (acc_store (accounts s)) (objects s)"
proof -
  have "(\<exists>t. res = Returns (Result_ok t)) \<longleftrightarrow> succeeded res"
    by (cases res rule: outcome.exhaust) (auto simp: succeeded_def elim: Result_isOk.elims)
  then show ?thesis using succeeded_iff_capturable [OF assms] by simp
qed

theorem captured_iff_capturable_witness:
  "\<exists>t. fst (pay demo_wiring 7 (main_pay ''a'' 50000 UPI) demo) = Returns (Result_ok t)"
proof -
  have "key_store (idempotency demo) (idempotencyKey (main_pay ''a'' 50000 UPI)) = None" by simp
  from captured_iff_capturable [OF demo_ok this prod.collapse [symmetric]] demo_capturable show ?thesis by blast
qed



text \<open>
  C6. Double entry: whatever chain, strategies and requests, after any history the journal nets to zero in
  every currency.
\<close>

theorem journal_always_nets_to_zero:
  fixes s :: "'w App"
  assumes "ports W = inmemory_ports" "registered (objects s) (acc_store (accounts s))"
    and "nets_to_zero (entries (ledger s))" "pays W rs s = (out, s')"
  shows "nets_to_zero (entries (ledger s'))"
  using app.pays_net_to_zero [OF assms(1,2) TrueI assms(3), of rs] assms(4) by simp

theorem journal_always_nets_to_zero_witness:
  "nets_to_zero (entries (ledger (snd (pays demo_wiring [(7, main_pay ''a'' 50000 UPI)] demo))))"
  by (rule journal_always_nets_to_zero [OF inmemory_wiring_sel(1) demo_registered app_ok_parts(3) [OF demo_ok]
        prod.collapse [symmetric]])

text \<open>
  C7. No double spend: of any number of approved payments of one amount from one wallet, under keys of
  their own and in any order, exactly as many are captured as the balance covers, and the wallet keeps
  the remainder.
\<close>

theorem wallet_is_spent_exactly:
  fixes s :: "'w App"
  assumes "ports W = inmemory_ports" "x \<noteq> y" "0 < units m" "app_ok s"
    and "spending W x y m (key_store (idempotency s)) rs"
    and "acc_store (accounts s) x = Some p" "objects s p = Some a" "account_currency a = currency m"
    and "acc_store (accounts s) y = Some q" "same_currency (objects s) q m"
    and "pays W rs s = (out, s')"
  shows "int (length (filter succeeded out)) = min (int (length rs)) (funds a div units m) \<and>
    (\<exists>a'. objects s' p = Some a' \<and>
       funds a' = funds a - int (length (filter succeeded out)) * units m \<and> 0 \<le> funds a')"
proof -
  have "''account:'' @ x \<notin> held_keys (locks s)" using app_ok_parts(4) [OF assms(4)] by simp
  note r = app.pays_spend [OF assms(1-3) app_ok_parts(1) [OF assms(4)] TrueI app_ok_parts(2) [OF assms(4)] this assms(5-10)]
  have nonneg: "0 \<le> funds a" using app_ok_parts(2) [OF assms(4)] assms(7) by (auto simp: funded_def solvent_def)
  have "min (int (length rs)) (funds a div units m) * units m \<le> funds a div units m * units m"
    using assms(3) by (intro mult_right_mono) simp_all
  also have "\<dots> \<le> funds a" using assms(3) by (metis div_mult_mod_eq le_add_same_cancel1 pos_mod_sign)
  finally show ?thesis using r assms(11) by auto
qed

theorem wallet_is_spent_exactly_witness:
  "length (filter succeeded (fst (pays demo_wiring
     (map (\<lambda>k. (7, main_pay k 50000 UPI)) [''a'', ''b'', ''c'', ''d'', ''e'', ''f'']) demo))) = 4"
proof -
  let ?m = "fromMinor 50000 INR" and ?a = "mkAccount ''acc_user_42'' USER_WALLET (fromMinor 200000 INR)"
  let ?rs = "map (\<lambda>k. (7 :: int64, main_pay k 50000 UPI)) [''a'', ''b'', ''c'', ''d'', ''e'', ''f'']"
  have sp: "spending demo_wiring ''acc_user_42'' ''acc_merchant_7'' ?m (key_store (idempotency demo)) ?rs"
    by (simp add: spending_def main_pay_spendable)
  have c: "''acc_user_42'' \<noteq> ''acc_merchant_7''" "0 < units ?m" "acc_store (accounts demo) ''acc_user_42'' = Some 0"
    "objects demo 0 = Some ?a" "account_currency ?a = currency ?m"
    "acc_store (accounts demo) ''acc_merchant_7'' = Some 1" "same_currency (objects demo) 1 ?m"
    by (simp_all add: same_currency_def Money_zero_def)
  from wallet_is_spent_exactly [OF inmemory_wiring_sel(1) c(1,2) demo_ok sp c(3-7) prod.collapse [symmetric]]
  show ?thesis by simp
qed

text \<open>
  C8. A call that processes its request and returns has stored exactly one transaction, \<open>CAPTURED\<close> if the
  answer is a success and \<open>FAILED\<close> otherwise, and has published exactly one event, for that transaction.
\<close>

theorem processed_payment_is_recorded:
  fixes s :: "'w App"
  assumes "ports W = inmemory_ports" "registered (objects s) (acc_store (accounts s))"
    and "key_store (idempotency s) (idempotencyKey req) = None" and "pay W now req s = (Returns r, s')"
  shows "let t = setStatus (if Result_isOk r then CAPTURED else FAILED) (new_txn now req s) in
           (Result_isOk r \<longrightarrow> r = Result_ok t) \<and>
           txn_store (transactions s') = (txn_store (transactions s))(txn_id t \<mapsto> t) \<and>
           event_log (events s') = event_log (events s) @
             [mkEvent t (if Result_isOk r then ''PaymentCaptured'' else ''PaymentFailed'')]"
  using app.pay_recorded [OF assms]
  by (simp add: recorded_def Let_def final_status_def event_name_def inmemory_ports_def mem_txn_save_def
      mem_events.publish_log)

theorem processed_payment_is_recorded_witness:
  "\<exists>s1. pay demo_wiring 7 (main_pay ''a'' 50000 UPI) demo =
      (Returns (Result_ok (setStatus CAPTURED (new_txn 7 (main_pay ''a'' 50000 UPI) demo))), s1) \<and>
    length (event_log (events s1)) = length (event_log (events demo)) + 1"
proof -
  obtain s1 where s1: "pay demo_wiring 7 (main_pay ''a'' 50000 UPI) demo =
      (Returns (Result_ok (setStatus CAPTURED (new_txn 7 (main_pay ''a'' 50000 UPI) demo))), s1)"
    by (rule demo_captured)
  have key: "key_store (idempotency demo) (idempotencyKey (main_pay ''a'' 50000 UPI)) = None" by simp
  from processed_payment_is_recorded [OF inmemory_wiring_sel(1) demo_registered key s1] s1
  show ?thesis by (auto simp: Let_def)
qed

text \<open>
  C9. On every way out of a call, a return, an exception or an undefined step, the locks are as before,
  the key is claimed and one id has been drawn.
\<close>

theorem every_exit_releases_the_lock:
  fixes s :: "'w App"
  assumes "ports W = inmemory_ports" "registered (objects s) (acc_store (accounts s))" "pay W now req s = (res, s')"
  shows "held_keys (locks s') = held_keys (locks s) \<and>
    key_store (idempotency s') (idempotencyKey req) \<noteq> None \<and>
    counter (txnIds s') = counter (txnIds s) + 1"
  using app.pay_locks [OF assms(1,2), of now req] app.pay_keys [OF assms(1,2), of now req]
    app.pay_txnIds [OF assms(1,2), of now req] assms(3) by auto

theorem every_exit_releases_the_lock_witness:
  "held_keys (locks (snd (pay demo_wiring 7 (main_pay ''a'' 50000 UPI) demo))) = {}"
  using every_exit_releases_the_lock [OF inmemory_wiring_sel(1) demo_registered prod.collapse [symmetric]] by simp



section \<open>Calls at once\<close>

text \<open>
  C11. Interleaved calls are as good as calls one after the other. When every call has ended, the calls that
  took effect, in the order in which they did, are a sequential run of \<open>pay\<close> that gives each the same
  verdict and leaves the same accounts. They are one call for each key that was not taken before.
\<close>

theorem interleavings_are_serialisable:
  fixes s :: "'w App"
  assumes "app_ok s" and "\<forall>(now, req) \<in> set calls. matched (objects s) (acc_store (accounts s)) req"
    and "runs (traffic_step (inmemory_wiring limit threshold) calls) (new_traffic calls s) es t"
    and "at_rest (traffic_step (inmemory_wiring limit threshold) calls) t"
  shows "\<exists>out u. pays (inmemory_wiring limit threshold) (map ((!) calls) es) s = (out, u) \<and>
    objects u = objects (service t) \<and>
    list_all2 (\<lambda>i r. \<exists>r'. stages t ! i = Finished r' \<and> succeeded r' = succeeded r) es out \<and>
    distinct es \<and> set es \<subseteq> {..<length calls} \<and>
    inj_on (request_key calls) (set es) \<and> request_key calls ` set es \<inter> dom (key_store (idempotency s)) = {} \<and>
    request_key calls ` {..<length calls} \<subseteq> dom (key_store (idempotency s)) \<union> request_key calls ` set es"
proof -
  obtain out u where "pays (inmemory_wiring limit threshold) (map ((!) calls) es) s = (out, u)"
    "objects u = objects (service t)" "serial_order calls (key_store (idempotency s)) es"
    "list_all2 (\<lambda>i r. \<exists>r'. stages t ! i = Finished r' \<and> succeeded r' = succeeded r) es out"
    by (rule rest_serial [OF app_ready [OF assms(1,2)] assms(1,3,4)])
  then show ?thesis by (auto simp: serial_order_def)
qed

theorem interleavings_are_serialisable_witness:
  "\<exists>es t out u. runs (traffic_step demo_wiring two_calls) (new_traffic two_calls demo) es t \<and>
     pays demo_wiring (map ((!) two_calls) es) demo = (out, u) \<and> objects u = objects (service t) \<and>
     request_key two_calls ` {..<2} \<subseteq> request_key two_calls ` set es"
proof -
  obtain k es t where t: "steps (traffic_step demo_wiring two_calls) k (new_traffic two_calls demo) es t"
    "runs (traffic_step demo_wiring two_calls) (new_traffic two_calls demo) es t"
    "at_rest (traffic_step demo_wiring two_calls) t" by (rule two_calls_ended)
  have "length two_calls = 2" by (simp add: two_calls_def)
  with interleavings_are_serialisable [OF demo_ok two_calls_matched t(2,3)] t(2) show ?thesis by auto
qed



text \<open>
  C13. The locks: at every moment of every interleaving the held locks are exactly those of the calls between
  taking and releasing one, and no two of these calls have the same payer.
\<close>

theorem one_call_per_payer_inside:
  fixes s :: "'w App"
  assumes "app_ok s" and "\<forall>(now, req) \<in> set calls. matched (objects s) (acc_store (accounts s)) req"
    and "runs (traffic_step (inmemory_wiring limit threshold) calls) (new_traffic calls s) es t"
    and "i < length calls" "guarded (stages t ! i)"
  shows "lock_key (snd (calls ! i)) \<in> held_keys (locks (service t)) \<and>
    (\<forall>j < length calls. guarded (stages t ! j) \<longrightarrow>
       payerAccountId (snd (calls ! j)) = payerAccountId (snd (calls ! i)) \<longrightarrow> j = i)"
proof -
  have e: "length (stages t) = length calls" "held_keys (locks (service t)) = call_key calls ` inside (stages t)"
    "inj_on (call_key calls) (inside (stages t))"
    using app.traffic_runs_ok [OF app_ready [OF assms(1,2)] assms(3)]
    by (simp_all add: app.traffic_ok_def app.knows_def app.exclusive_def)
  then show ?thesis using assms(4,5) by (auto simp: inside_def call_key_def lock_key_def inj_on_def)
qed

theorem one_call_per_payer_inside_witness:
  "\<exists>es t. runs (traffic_step demo_wiring two_calls) (new_traffic two_calls demo) es t \<and>
     guarded (stages t ! 0) \<and> lock_key (snd (two_calls ! 0)) \<in> held_keys (locks (service t))"
proof -
  obtain t txn where t: "runs (traffic_step demo_wiring two_calls) (new_traffic two_calls demo) [] t"
    "stages t = [Checking txn, Minting]" by (rule two_calls_locked)
  have i: "0 < length two_calls" "guarded (stages t ! 0)" by (simp_all add: two_calls_def t(2))
  from one_call_per_payer_inside [OF demo_ok two_calls_matched t(1) i] i(2) t(1) show ?thesis by blast
qed

text \<open>
  C14. At most one call is charged for a key: of the calls with one key at most one gets past the claim, none
  when the key was taken before, and a call that was answered without taking effect met the key in the
  hands of another.
\<close>

theorem each_key_has_one_owner:
  fixes s :: "'w App"
  assumes "app_ok s" and "\<forall>(now, req) \<in> set calls. matched (objects s) (acc_store (accounts s)) req"
    and "runs (traffic_step (inmemory_wiring limit threshold) calls) (new_traffic calls s) es t"
  shows "distinct es \<and> inj_on (request_key calls) (won es (stages t)) \<and>
    request_key calls ` won es (stages t) \<inter> dom (key_store (idempotency s)) = {} \<and>
    (\<forall>i < length calls. \<not> undecided (stages t ! i) \<longrightarrow> i \<notin> set es \<longrightarrow>
       request_key calls i \<in> dom (key_store (idempotency s)) \<union> request_key calls ` (won es (stages t) - {i}))"
proof -
  note ready = app_ready [OF assms(1,2)]
  have "length (stages t) = length calls"
    using app.traffic_runs_ok [OF ready assms(3)] by (simp add: app.traffic_ok_def app.knows_def)
  with app.runs_one_owner [OF ready assms(3)] show ?thesis by (auto simp: app.one_owner_def)
qed

theorem each_key_has_one_owner_witness:
  "\<exists>es t. runs (traffic_step demo_wiring two_calls) (new_traffic two_calls demo) es t \<and>
     at_rest (traffic_step demo_wiring two_calls) t \<and> inj_on (request_key two_calls) (won es (stages t))"
proof -
  obtain k es t where t: "steps (traffic_step demo_wiring two_calls) k (new_traffic two_calls demo) es t"
    "runs (traffic_step demo_wiring two_calls) (new_traffic two_calls demo) es t"
    "at_rest (traffic_step demo_wiring two_calls) t" by (rule two_calls_ended)
  with each_key_has_one_owner [OF demo_ok two_calls_matched t(2)] show ?thesis by blast
qed

text \<open>
  C15. No deadlock and no livelock: \<open>n\<close> calls take at most \<open>16 * n\<close> steps, from wherever they are they can come
  to rest, and where none can move every call has returned or thrown and no lock is held.
\<close>

theorem interleavings_end:
  fixes s :: "'w App"
  assumes "app_ok s" and "\<forall>(now, req) \<in> set calls. matched (objects s) (acc_store (accounts s)) req"
    and "steps (traffic_step (inmemory_wiring limit threshold) calls) k (new_traffic calls s) es t"
  shows "k \<le> 16 * length calls \<and>
    (\<exists>j fs u. steps (traffic_step (inmemory_wiring limit threshold) calls) j t fs u \<and>
       at_rest (traffic_step (inmemory_wiring limit threshold) calls) u) \<and>
    (at_rest (traffic_step (inmemory_wiring limit threshold) calls) t \<longrightarrow> held_keys (locks (service t)) = {} \<and>
       (\<forall>i < length calls. \<exists>r. stages t ! i = Finished r \<and> ((\<exists>x. r = Returns x) \<or> (\<exists>e. r = Throws e))))"
proof -
  note ready = app_ready [OF assms(1,2)]
  have "runs (traffic_step (inmemory_wiring limit threshold) calls) (new_traffic calls s) es t"
    unfolding runs_iff_steps using assms(3) by blast
  note rest = app.rest_finished [OF ready app.traffic_runs_ok [OF ready this]]
  have "\<exists>r. stages t ! i = Finished r \<and> ((\<exists>x. r = Returns x) \<or> (\<exists>e. r = Throws e))"
    if "at_rest (traffic_step (inmemory_wiring limit threshold) calls) t" "i < length calls" for i
  proof -
    from rest(1) [OF that] obtain r where "stages t ! i = Finished r" "r \<noteq> Undefined" "r \<noteq> Blocks" by blast
    then show ?thesis by (cases r) auto
  qed
  moreover have "k \<le> 16 * length calls"
    using traffic_machine.steps_bounded [OF assms(3) TrueI] by (simp add: new_traffic_to_go)
  ultimately show ?thesis using rest(2) traffic_ends by blast
qed

theorem interleavings_end_witness:
  "\<exists>k es t. steps (traffic_step demo_wiring two_calls) k (new_traffic two_calls demo) es t \<and> k \<le> 32 \<and>
     (\<forall>i < 2. \<exists>r. stages t ! i = Finished r)"
proof -
  obtain k es t where t: "steps (traffic_step demo_wiring two_calls) k (new_traffic two_calls demo) es t"
    "runs (traffic_step demo_wiring two_calls) (new_traffic two_calls demo) es t"
    "at_rest (traffic_step demo_wiring two_calls) t" by (rule two_calls_ended)
  have len: "length two_calls = 2" by (simp add: two_calls_def)
  note e = interleavings_end [OF demo_ok two_calls_matched t(1)]
  then have "k \<le> 32" by (simp add: len)
  moreover have "\<forall>i < 2. \<exists>r. stages t ! i = Finished r" using e t(3) unfolding len by blast
  ultimately show ?thesis using t(1) by blast
qed

text \<open>
  C16. The types of the state: through every interleaving the same accounts are registered and every account
  keeps its id, type and currency; a call that is about to debit or credit holds pointers to the accounts
  its request names.
\<close>

theorem accounts_keep_their_type:
  fixes s :: "'w App"
  assumes "app_ok s" and "\<forall>(now, req) \<in> set calls. matched (objects s) (acc_store (accounts s)) req"
    and "runs (traffic_step (inmemory_wiring limit threshold) calls) (new_traffic calls s) es t"
  shows "accounts (service t) = accounts s \<and> registered (objects (service t)) (acc_store (accounts s)) \<and>
    (\<forall>p. map_option (\<lambda>a. (account_id a, account_type a, account_currency a)) (objects (service t) p) =
         map_option (\<lambda>a. (account_id a, account_type a, account_currency a)) (objects s p)) \<and>
    (\<forall>i < length calls. \<forall>a. stages t ! i = Debiting a \<or> stages t ! i = Crediting a \<longrightarrow>
       (\<exists>x y. objects (service t) (from_account a) = Some x \<and> account_id x = payerAccountId (snd (calls ! i)) \<and>
          objects (service t) (to_account a) = Some y \<and> account_id y = payeeAccountId (snd (calls ! i))))"
proof -
  have m: "shape (objects (service t)) = shape (objects s)" "accounts (service t) = accounts s"
    "\<And>i. i < length calls \<Longrightarrow> stage_ok (inmemory_wiring limit threshold :: 'w AppWiring) (acc_store (accounts s)) (objects s) (snd (calls ! i)) (stages t ! i)"
    using app.traffic_runs_ok [OF app_ready [OF assms(1,2)] assms(3)]
    by (simp_all add: app.traffic_ok_def app.knows_def app.preserves_money_def)
  note reg = registered_shape [OF app_ok_parts(1) [OF assms(1)] m(1)]
  have "\<exists>x y. objects (service t) (from_account a) = Some x \<and> account_id x = payerAccountId (snd (calls ! i)) \<and>
      objects (service t) (to_account a) = Some y \<and> account_id y = payeeAccountId (snd (calls ! i))"
    if "i < length calls" "stages t ! i = Debiting a \<or> stages t ! i = Crediting a" for i a
  proof -
    have "attempted (inmemory_wiring limit threshold :: 'w AppWiring) (acc_store (accounts s)) (snd (calls ! i)) a"
      using m(3) [OF that(1)] that(2) by auto
    with reg show ?thesis by (auto simp: attempted_def registered_def)
  qed
  with m(1,2) reg show ?thesis by (simp add: shape_def fun_eq_iff)
qed

theorem accounts_keep_their_type_witness:
  "\<exists>es t. runs (traffic_step demo_wiring two_calls) (new_traffic two_calls demo) es t \<and>
     at_rest (traffic_step demo_wiring two_calls) t \<and>
     map_option (\<lambda>a. (account_id a, account_type a, account_currency a)) (objects (service t) 1) =
       Some (''acc_merchant_7'', MERCHANT, INR)"
proof -
  obtain k es t where t: "steps (traffic_step demo_wiring two_calls) k (new_traffic two_calls demo) es t"
    "runs (traffic_step demo_wiring two_calls) (new_traffic two_calls demo) es t"
    "at_rest (traffic_step demo_wiring two_calls) t" by (rule two_calls_ended)
  have "map_option (\<lambda>a. (account_id a, account_type a, account_currency a)) (objects (service t) 1) =
      map_option (\<lambda>a. (account_id a, account_type a, account_currency a)) (objects demo 1)"
    using accounts_keep_their_type [OF demo_ok two_calls_matched t(2)] by blast
  with t(2,3) show ?thesis by (auto simp: Money_zero_def)
qed

text \<open>
  C17. The steps of a call on its own are \<open>pay\<close>: the small steps are those of the sequential service, for
  every wiring and state. A call that waits for a lock nobody will release is one that \<open>pay\<close> says blocks.
\<close>

theorem call_alone_is_pay:
  assumes "runs (traffic_step W [(now, req)]) (new_traffic [(now, req)] s) es t"
    and "at_rest (traffic_step W [(now, req)]) t"
  shows "(\<exists>r. stages t = [Finished r] \<and> pay W now req s = (r, service t)) \<or>
    (\<exists>txn. stages t = [Locking txn] \<and> locks_acquire (ports W) (lock_key req) (locks (service t)) = None \<and>
       pay W now req s = (Blocks, service t))"
  by (rule steps_pay [OF assms])

theorem call_alone_is_pay_witness:
  "\<exists>es t. runs (traffic_step demo_wiring [(7, main_pay ''a'' 50000 UPI)]) (new_traffic [(7, main_pay ''a'' 50000 UPI)] demo) es t \<and>
     stages t = [Finished (Returns (Result_ok (setStatus CAPTURED (new_txn 7 (main_pay ''a'' 50000 UPI) demo))))] \<and>
     snd (pay demo_wiring 7 (main_pay ''a'' 50000 UPI) demo) = service t"
proof -
  obtain es t where t: "runs (traffic_step demo_wiring [(7, main_pay ''a'' 50000 UPI)]) (new_traffic [(7, main_pay ''a'' 50000 UPI)] demo) es t"
    "at_rest (traffic_step demo_wiring [(7, main_pay ''a'' 50000 UPI)]) t"
    using traffic_ends runs_iff_steps by metis
  obtain s1 where "pay demo_wiring 7 (main_pay ''a'' 50000 UPI) demo =
      (Returns (Result_ok (setStatus CAPTURED (new_txn 7 (main_pay ''a'' 50000 UPI) demo))), s1)"
    by (rule demo_captured)
  with call_alone_is_pay [OF t] t(1) show ?thesis by auto
qed

section \<open>Threads\<close>

text \<open>
  C18. The blocking queue, under every interleaving of any number of threads and every spurious wakeup, is
  a bounded first-in first-out channel: what happened is a run of the channel that ends in the queue's
  content, items leave in the order they came, the capacity holds, and each call answers what happened.
\<close>

theorem queue_refines_a_channel:
  assumes "queue_run (new_monitor c n) es s"
  shows "channel_run c es ([], False) = Some (contents s) \<and> enqueued es = dequeued es @ queue (object s) \<and>
    (c = 0 \<or> length (queue (object s)) \<le> c) \<and> all_answer es (places s)"
proof -
  have run: "channel_run c es ([], False) = Some (contents s)" and cap: "capacity (object s) = c"
    using queue_run_channel [OF assms] by (simp_all add: new_monitor_def new_queue_def contents_def)
  have "monitor_inv s" by (rule queue_run_inv [OF assms new_monitor_inv])
  then have "fits (object s) (places s)" by (simp add: monitor_inv_def)
  with cap have "c = 0 \<or> length (queue (object s)) \<le> c" by (auto simp: fits_def)
  moreover have "enqueued es = dequeued es @ queue (object s)"
    using channel_fifo [of c es "[]" False] run by (simp add: contents_def)
  moreover have "all_answer es (places s)" by (rule queue_run_answers [OF assms new_monitor_answers])
  ultimately show ?thesis using run by blast
qed

theorem queue_refines_a_channel_witness:
  "\<exists>s. queue_run (new_monitor 1 2) [Enqueued 0 (7 :: nat), Dequeued 1 7] s \<and> contents s = ([], False) \<and>
     places s ! 1 = Popped 7"
proof -
  obtain s where s: "queue_run (new_monitor 1 2) [Enqueued 0 (7 :: nat), Dequeued 1 7] s" "places s ! 1 = Popped 7"
    by (rule queue_handover)
  from queue_refines_a_channel [OF s(1)] s show ?thesis by auto
qed

text \<open>
  C19. No wakeup is lost and nothing deadlocks: left to themselves the threads of a queue take a bounded
  number of steps, and when none can move, whoever still sleeps has a reason: a consumer sleeps only on
  an empty open queue, a producer only on a full open queue, all others are out of their calls.
\<close>

theorem no_thread_is_stranded:
  assumes "queue_run (new_monitor c n) es s"
  shows "(steps queue_step k s fs t \<longrightarrow> k \<le> queue_potential s) \<and>
    (steps queue_step k s fs t \<longrightarrow> at_rest queue_step t \<longrightarrow> pl \<in> set (places t) \<longrightarrow>
       idle pl \<or> (pl = Pop_waits \<and> queue (object t) = [] \<and> \<not> closed (object t)) \<or>
       (\<exists>x. pl = Push_waits x \<and> isFullLocked (object t) \<and> \<not> closed (object t)))"
proof (intro conjI impI)
  have inv: "monitor_inv s" by (rule queue_run_inv [OF assms new_monitor_inv])
  assume st: "steps queue_step k s fs t"
  show "k \<le> queue_potential s" using queue_machine.steps_bounded [OF st inv] by simp
  assume "at_rest queue_step t" and pl: "pl \<in> set (places t)"
  then have quiet: "quiet t" by (simp add: quiet_iff)
  note wait = quiet_waiters [OF queue_machine.steps_inv [OF st inv] quiet]
  have "idle pl \<or> waits_on NotEmpty pl \<or> waits_on NotFull pl" using quiet pl by (simp add: quiet_def)
  then show "idle pl \<or> (pl = Pop_waits \<and> queue (object t) = [] \<and> \<not> closed (object t)) \<or>
       (\<exists>x. pl = Push_waits x \<and> isFullLocked (object t) \<and> \<not> closed (object t))"
    using wait pl by (cases pl) auto
qed

theorem no_thread_is_stranded_witness:
  "\<exists>s k fs t. queue_run (new_monitor 1 2) [Enqueued 0 (7 :: nat), Dequeued 1 7] s \<and> steps queue_step k s fs t \<and>
     at_rest queue_step t \<and> (\<forall>pl \<in> set (places t). idle pl \<or> pl = Pop_waits \<or> (\<exists>x. pl = Push_waits x)) \<and> k \<le> queue_potential s"
proof -
  obtain s where s: "queue_run (new_monitor 1 2) [Enqueued 0 (7 :: nat), Dequeued 1 7] s"
    by (rule queue_handover)
  obtain k fs t where t: "steps queue_step k s fs t" "at_rest queue_step t"
    using queue_machine.comes_to_rest [OF queue_run_inv [OF s new_monitor_inv]] by blast
  from no_thread_is_stranded [OF s, of k fs t] s t show ?thesis by blast
qed





text \<open>
  C22. \<open>submit\<close> drops the answer of \<open>push\<close>: after a shutdown it still hands out a future, whose task never
  runs. The future is not set until the task is refused, and then \<open>get\<close> throws a broken promise.
\<close>

theorem late_submission_is_lost:
  assumes "pool_run (new_pool ws clients w) es p" "closed (object (tasks p))"
    and "workers p \<le> i" "i < length (places (tasks p))" "free (place p i)"
    and "submit i f p = (fut, q)" "pool_run q fs r"
  shows "future_get fut (futures r) \<in> {Blocks, Throws (Logic_error ''broken promise'')} \<and>
    (at_rest pool_step r \<longrightarrow> future_get fut (futures r) = Throws (Logic_error ''broken promise''))"
proof -
  note q = pool_run.call [OF assms(1) submits [OF assms(3-6)]]
  have "orphan fut q" by (rule late_task_orphan [OF assms(1,2,4,6)])
  then have o: "orphan fut r" by (rule pool_run_orphan [OF assms(7) pool_run_inv [OF q new_pool_inv]])
  have "futures r fut \<noteq> None" if "at_rest pool_step r"
    using rested_futures(2) [OF pool_run_trans [OF assms(7) q] that] o by (simp add: orphan_def)
  with o show ?thesis by (auto simp: orphan_def future_get_def)
qed

theorem late_submission_is_lost_witness:
  "\<exists>(p :: (nat, nat) ThreadPool) q r fs. submit 1 (\<lambda>w. (Returns w, w)) p = (0, q) \<and> pool_run q fs r \<and>
     future_get 0 (futures r) = Throws (Logic_error ''broken promise'')"
proof -
  obtain es and p :: "(nat, nat) ThreadPool" where p: "pool_run (new_pool 1 2 0) es p" "closed (object (tasks p))"
    "workers p \<le> 1" "1 < length (places (tasks p))" "free (place p 1)" "promised p = 0"
    by (rule pool_shut_down)
  obtain q where q: "submit 1 (\<lambda>w. (Returns w, w)) p = (0, q)" using p(6) by (simp add: submit_eq)
  have inv: "pool_inv q"
    by (rule pool_run_inv [OF pool_run.call [OF p(1) submits [OF p(3-5) q]] new_pool_inv])
  obtain k fs r where r: "steps pool_step k q fs r" "at_rest pool_step r"
    using pool_machine.comes_to_rest [OF inv] by blast
  have run: "pool_run q fs r" using pool_run_steps [OF r(1) pool_run.start] by simp
  from late_submission_is_lost [OF p(1-5) q run] r(2) q run show ?thesis by blast
qed

text \<open>
  C23. A pool of calls. However the workers, the queue and the clients interleave, the calls on the pool are an
  interleaving of the calls of C11, and at most as many are under way as the pool has workers; what the tasks
  accumulate and what the futures hold are the answers of the calls whose tasks have run, each of which has ended.
\<close>

theorem pool_interleaves_its_calls:
  assumes "work_run W calls answer tally (work_pool ws clients calls s x) es p"
  shows "runs (traffic_step W calls) (new_traffic calls s) (effects es) (fst (world p)) \<and>
    card (under_way p) \<le> (if ws = 0 then 1 else ws) \<and> distinct (map future_id (submitted (pool_events es))) \<and>
    (\<forall>t \<in> set (ran (pool_events es)). \<exists>r. stages (fst (world p)) ! future_id t = Finished r) \<and>
    snd (world p) = fold (\<lambda>t. tally (result_of (stages (fst (world p)) ! future_id t))) (ran (pool_events es)) x \<and>
    (\<forall>f v. futures p f = Some (Ready v) \<longrightarrow> v = answer (result_of (stages (fst (world p)) ! f)))"
proof -
  note w = work_run_working [OF assms]
  have ended: "\<exists>r. stages (fst (world p)) ! future_id t = Finished r" if "t \<in> set (ran (pool_events es))" for t
    using w that by (fastforce simp: working_def tended_def elim: ended.elims)
  have "distinct (map future_id (submitted (pool_events es)))" "card (under_way p) \<le> (if ws = 0 then 1 else ws)"
    using w under_way_bounded [OF w] work_run_workers [OF assms] by (simp_all add: working_def accounted_def)
  with w ended show ?thesis by (simp add: working_def settled_def)
qed

theorem pool_interleaves_its_calls_witness:
  "\<exists>es p. work_run demo_wiring two_calls forget count_answer (work_pool 8 1 two_calls demo (0, 0)) es p \<and>
     promised p = 2 \<and> runs (traffic_step demo_wiring two_calls) (new_traffic two_calls demo) (effects es) (fst (world p)) \<and>
     card (under_way p) \<le> 8"
proof -
  obtain es p where p: "work_run demo_wiring two_calls forget count_answer (work_pool 8 1 two_calls demo (0, 0)) es p"
    "promised p = 2" by (rule two_calls_pooled)
  from pool_interleaves_its_calls [OF p(1)] p show ?thesis by auto
qed

text \<open>
  C24. No deadlock where the threads of the pool and the locks of the payers meet: a pool of calls takes a bounded
  number of steps, can always come to rest, and at rest every submitted task has run or was refused, every future
  is set, no client is blocked, no lock is held and a pool that was shut down can be joined.
\<close>

theorem pooled_calls_come_to_rest:
  fixes s :: "'w App" and limit threshold :: Money
  defines "W \<equiv> inmemory_wiring limit threshold :: 'w AppWiring"
  assumes "app_ok s" and "\<forall>(now, req) \<in> set calls. matched (objects s) (acc_store (accounts s)) req"
    and "work_run W calls answer tally (work_pool ws clients calls s x) es p"
  shows "(\<exists>k fs q. steps (work_step W calls) k p fs q \<and> at_rest (work_step W calls) q) \<and>
    (\<forall>k fs q. steps (work_step W calls) k p fs q \<longrightarrow> k \<le> work_potential p \<and>
      (at_rest (work_step W calls) q \<longrightarrow> (\<forall>f < promised q. futures q f \<noteq> None) \<and>
         mset (submitted (pool_events (es @ fs))) =
           mset (refused (pool_events (es @ fs))) + mset (ran (pool_events (es @ fs))) \<and>
         held_keys (locks (service (fst (world q)))) = {} \<and> (stopped q \<longrightarrow> joinable q) \<and>
         (\<forall>i. workers q \<le> i \<and> i < length (places (tasks q)) \<longrightarrow> free (place q i))))"
proof -
  have ready: "app.ready W s calls" unfolding W_def by (rule app_ready [OF assms(2,3)])
  have inv: "\<exists>es. working W calls answer tally s x es p" using work_run_working [OF assms(4)] by blast
  have "k \<le> work_potential p \<and> (at_rest (work_step W calls) q \<longrightarrow> (\<forall>f < promised q. futures q f \<noteq> None) \<and>
      mset (submitted (pool_events (es @ fs))) =
        mset (refused (pool_events (es @ fs))) + mset (ran (pool_events (es @ fs))) \<and>
      held_keys (locks (service (fst (world q)))) = {} \<and> (stopped q \<longrightarrow> joinable q) \<and>
      (\<forall>i. workers q \<le> i \<and> i < length (places (tasks q)) \<longrightarrow> free (place q i)))"
    if st: "steps (work_step W calls) k p fs q" for k fs q
  proof -
    have w: "working W calls answer tally s x (es @ fs) q" by (rule work_run_working [OF work_run_steps [OF st assms(4)]])
    show ?thesis
      using work_machine.steps_bounded [OF st inv] app.work_futures [OF ready w] app.work_rested [OF ready w]
        app.work_locks [OF ready w] by simp
  qed
  with work_machine.comes_to_rest [OF inv] show ?thesis by blast
qed

theorem pooled_calls_come_to_rest_witness:
  "\<exists>k fs q. steps (work_step demo_wiring two_calls) k
       (work_pool 2 1 two_calls demo (0, 0) :: (unit, unit App Traffic \<times> int \<times> int) ThreadPool) fs q \<and>
     at_rest (work_step demo_wiring two_calls) q \<and> held_keys (locks (service (fst (world q)))) = {}"
proof -
  let ?p = "work_pool 2 1 two_calls demo (0, 0) :: (unit, unit App Traffic \<times> int \<times> int) ThreadPool"
  have run: "work_run demo_wiring two_calls forget count_answer ?p [] ?p" by (rule work_run.start)
  note r = pooled_calls_come_to_rest [OF demo_ok two_calls_matched run]
  from r obtain k fs q where q: "steps (work_step demo_wiring two_calls) k ?p fs q"
    "at_rest (work_step demo_wiring two_calls) q" by blast
  with r show ?thesis by blast
qed

section \<open>Where the code departs from its documentation\<close>

text \<open>
  C25. The status of the payee's credit is dropped. A payee who holds another currency is not credited:
  the call answers with a captured transaction, the payer has paid, the money is gone, and the journal
  claims that the payee received it.
\<close>

theorem cross_currency_payment_loses_money:
  fixes s :: "'w App"
  assumes "app_ok s" "key_store (idempotency s) (idempotencyKey req) = None"
    and "capturable limit threshold req (acc_store (accounts s)) (objects s)"
    and "acc_store (accounts s) (payeeAccountId req) = Some q" "objects s q = Some b"
    and "account_currency b \<noteq> currency (amount req)"
    and "pay (inmemory_wiring limit threshold) now req s = (res, s')"
  shows "res = Returns (Result_ok (setStatus CAPTURED (new_txn now req s))) \<and> objects s' q = Some b \<and>
    total (currency (amount req)) (objects s') = total (currency (amount req)) (objects s) - units (amount req) \<and>
    ledger_balance (currency (amount req)) (payeeAccountId req) (entries (ledger s')) =
      ledger_balance (currency (amount req)) (payeeAccountId req) (entries (ledger s)) + units (amount req)"
proof -
  obtain p where p: "res = Returns (Result_ok (setStatus CAPTURED (new_txn now req s)))"
    "transferred p q (amount req) (objects s) (objects s')"
    "entries (ledger s') = entries (ledger s) @ payment_posting req (new_txn now req s) s"
    using captured_call [OF assms(1-3,7)] assms(4) by (metis option.inject)
  have fin: "finite (dom (objects s))" using assms(1) by (simp add: app_ok_def funded_def)
  have "payeeAccountId req \<noteq> payerAccountId req" using assms(3) by (auto simp: capturable_def)
  with p transferred_mismatch [OF p(2) assms(5,6) fin] show ?thesis
    by (simp add: ledger_balance_append ledger_balance_posting in_currency_def)
qed

theorem cross_currency_payment_loses_money_witness:
  "total INR (objects (snd (pay demo_wiring 7 (main_pay ''a'' 50000 UPI) usd_app))) = total INR (objects usd_app) - 50000"
proof -
  have key: "key_store (idempotency usd_app) (idempotencyKey (main_pay ''a'' 50000 UPI)) = None" by simp
  have cap: "capturable (fromMinor 10000000 INR) (fromMinor 5000000 INR) (main_pay ''a'' 50000 UPI)
      (acc_store (accounts usd_app)) (objects usd_app)"
    by (simp add: capturable_def)
  have q: "acc_store (accounts usd_app) (payeeAccountId (main_pay ''a'' 50000 UPI)) = Some 1"
    "objects usd_app 1 = Some usd_merchant" "account_currency usd_merchant \<noteq> currency (amount (main_pay ''a'' 50000 UPI))"
    by (simp_all add: usd_merchant_def)
  from cross_currency_payment_loses_money [OF usd_app_ok key cap q prod.collapse [symmetric]] show ?thesis
    by simp
qed





text \<open>
  C28. A positive amount in another currency than the limit's is not refused with an error value: the
  comparison in the limit handler throws, and the exception leaves \<open>pay\<close>. The key is claimed by then, so the
  retry is answered with \<open>DUPLICATE_REQUEST\<close>, although no transaction exists.
\<close>

theorem foreign_currency_wedges_the_key:
  fixes s :: "'w App"
  assumes "app_ok s" "key_store (idempotency s) (idempotencyKey req) = None"
    and "payerAccountId req \<noteq> []" "payeeAccountId req \<noteq> []" "payerAccountId req \<noteq> payeeAccountId req"
    and "0 < units (amount req)" "currency (amount req) \<noteq> currency limit"
    and "txn_store (transactions s) (txn_id (new_txn now req s)) = None"
    and "pay (inmemory_wiring limit threshold) now req s = (res, s1)"
    and "pay (inmemory_wiring limit threshold) now2 req s1 = (res2, s2)"
  shows "res = Throws (Invalid_argument (''Money currency mismatch: cannot mix '' @
      toCode (currency (amount req)) @ '' and '' @ toCode (currency limit))) \<and>
    res2 = Returns (Result_fail DUPLICATE_REQUEST (''duplicate request for idempotency key: '' @ idempotencyKey req))"
proof -
  note thrown = foreign_currency_call [OF assms(1-7,9)]
  show ?thesis
    using thrown_request_is_wedged [OF inmemory_wiring_sel(1) app_ok_parts(1) [OF assms(1)] assms(2,8)
      assms(9) [unfolded thrown] assms(10)] thrown by blast
qed

theorem foreign_currency_wedges_the_key_witness:
  "let r = (main_pay ''a'' 0 UPI)\<lparr>amount := fromMinor 100 USD\<rparr>
   in fst (pay demo_wiring 7 r demo) = Throws (Invalid_argument ''Money currency mismatch: cannot mix USD and INR'') \<and>
     (\<exists>m. fst (pay demo_wiring 8 r (snd (pay demo_wiring 7 r demo))) = Returns (Result_fail DUPLICATE_REQUEST m))"
proof -
  let ?r = "(main_pay ''a'' 0 UPI)\<lparr>amount := fromMinor 100 USD\<rparr>"
  have r: "key_store (idempotency demo) (idempotencyKey ?r) = None" "payerAccountId ?r \<noteq> []" "payeeAccountId ?r \<noteq> []"
    "payerAccountId ?r \<noteq> payeeAccountId ?r" "0 < units (amount ?r)"
    "currency (amount ?r) \<noteq> currency (fromMinor 10000000 INR)" by (simp_all add: main_pay_def)
  have t: "txn_store (transactions demo) (txn_id (new_txn 7 ?r demo)) = None"
    by (simp add: demo_def seeded_def new_txn_repo_def)
  from foreign_currency_wedges_the_key [OF demo_ok r t prod.collapse [symmetric] prod.collapse [symmetric], where ?now2.0 = 8]
  show ?thesis by (simp add: Let_def)
qed



section \<open>The demo\<close>

text \<open>
  C30. What \<open>main.cpp\<close> writes until the end of scenario 4, byte for byte and for any clock: the payment is
  captured and announced, the retry is answered with the same transaction, the big payment is refused by the
  limit and the third held for review.
\<close>

theorem scenarios_print_this_text:
  "\<exists>s. main_to_scenario_4 clock = Returns s \<and> console s = lines_text (
    [''=== Payment System :: End-to-End Demo (Phases 1-5) ==='', '''',
     ''### 1. Happy path '' @ dash @ '' a UPI payment of 500 INR ###'', rule_text,
     ''  [event] PaymentCaptured for txn_1 '' @ event_json ''500.00 INR'' ''CAPTURED'',
     ''  OK  txn=txn_1 status=CAPTURED'', ''  payer balance:    1500.00 INR'', ''  merchant balance: 500.00 INR'', '''',
     ''### 2. Idempotency '' @ dash @ '' retry the SAME key, must NOT charge twice ###'', rule_text,
     ''  replayed txn: txn_1'', ''  payer balance UNCHANGED: 1500.00 INR'', '''',
     ''### 3. Insufficient funds '' @ dash @ '' debit larger than balance is rejected ###'', rule_text,
     ''  [event] PaymentFailed for txn_3 '' @ event_json ''999999.00 INR'' ''FAILED'',
     ''  result: amount 999999.00 INR exceeds per-txn limit 100000.00 INR'', '''',
     ''### 4. Fraud rejection '' @ dash @ '' amount over the review threshold is held ###'', rule_text,
     ''  [event] PaymentFailed for txn_4 '' @ event_json ''60000.00 INR'' ''FAILED'',
     ''  result: amount 60000.00 INR held for fraud review''])"
proof -
  obtain s where s: "main_to_scenario_4 clock = Returns s"
    "shown s {''idem-key-001'', ''idem-key-002'', ''idem-key-003''} (150000, 50000) [(CREDIT, fromMinor 50000 INR)] 5
      (lines_text (banner @ text_1 @ text_2 @ text_3 @ text_4))"
    by (rule scenarios_shown)
  then have "console s = lines_text (banner @ text_1 @ text_2 @ text_3 @ text_4)" by (simp add: shown_def)
  with s(1) show ?thesis
    by (simp add: banner_def text_1_def text_2_def text_3_def text_4_def heading_1_def heading_2_def heading_3_def heading_4_def)
qed



text \<open>
  C32. Scenario 5 on the pool, step by step: eight workers drive the fifty calls of \<open>pay\<close> in any way, each call
  one access to shared state at a time. Once the fifty futures are set, twelve payments have succeeded, 38 were
  rejected, the wallet is empty, and no \<open>get\<close> throws.
\<close>

theorem pooled_stress_succeeds_exactly_twelve_times:
  fixes printer :: "'w Subscriber"
  assumes "main_run printer w now = Returns (outs, s)" "open_wallet s = Returns s1"
    and "work_run main_chain_wiring (stress_traffic clock) forget count_answer
      (work_pool 8 1 (stress_traffic clock) s1 (0, 0)) es p"
    and "promised p = 50" "\<forall>f < 50. futures p f \<noteq> None" "\<not> stopped p"
  shows "snd (world p) = (12, 38) \<and> (\<exists>a. objects (service (fst (world p))) 2 = Some a \<and> funds a = 0) \<and>
    (\<forall>f < 50. future_get f (futures p) = Returns ())"
  using pooled_stress [OF main_ready(1) [OF assms(1)] assms(2-6)] by blast

theorem pooled_stress_succeeds_exactly_twelve_times_witness:
  "\<exists>outs s s1 es p. main_run (\<lambda>_ w. w) () 7 = Returns (outs, s) \<and> open_wallet s = Returns s1 \<and>
     work_run main_chain_wiring (stress_traffic (\<lambda>_. 8)) forget count_answer
       (work_pool 8 1 (stress_traffic (\<lambda>_. 8)) s1 (0, 0)) es p \<and> snd (world p) = (12, 38)"
proof -
  obtain outs s where s: "main_run (\<lambda>_ w. w) () 7 = Returns (outs, s)"
    using main_scenarios_run [of "\<lambda>_ w. w" "()" 7] by metis
  obtain s1 where s1: "open_wallet s = Returns s1"
    by (simp add: open_wallet_def main_amounts open_account_def mem_acc_save_def)
  have ready: "app.ready main_chain_wiring s1 (stress_traffic (\<lambda>_. 8))"
    by (rule stress_app_ready [OF main_ready(1) [OF s] s1])
  have n: "50 \<le> length (stress_traffic (\<lambda>_. 8))" by (simp add: stress_traffic_sel(1))
  from app.work_can_run [OF ready zero_less_one n, of forget count_answer 8 "(0, 0)"] obtain es p
    where p: "work_run main_chain_wiring (stress_traffic (\<lambda>_. 8)) forget count_answer
        (work_pool 8 1 (stress_traffic (\<lambda>_. 8)) s1 (0, 0)) es p"
      "promised p = 50" "at_rest (work_step main_chain_wiring (stress_traffic (\<lambda>_. 8))) p" "\<not> stopped p"
    by blast
  have "\<forall>f < 50. futures p f \<noteq> None"
    using app.work_futures [OF ready work_run_working [OF p(1)] p(3)] p(2) by simp
  from pooled_stress_succeeds_exactly_twelve_times [OF s s1 p(1,2) this p(4)] s s1 p(1) show ?thesis by blast
qed





section \<open>Components\<close>

text \<open>
  C35. As long as no running sum overflows, the ledger accepts a posting exactly when it is not empty, has
  one currency and nets to zero; it appends an accepted posting and ignores a rejected one.
\<close>

theorem ledger_accepts_iff_balanced:
  assumes "sums_fit 0 es" and "mem_post es r = Returns (st, r')"
  shows "(Status_isOk st \<longleftrightarrow> balanced es) \<and> r' = (if balanced es then r\<lparr>entries := entries r @ es\<rparr> else r)"
proof (cases "balanced es")
  case True
  then show ?thesis using mem_post_accepts [OF True assms(1), of r] assms(2) by simp
next
  case False
  with mem_post_ok [OF assms(2)] mem_post_err [OF assms(2)] show ?thesis by (auto simp: Status_isErr_def)
qed

theorem ledger_accepts_iff_balanced_witness:
  "let es = [mkLedgerEntry ''le_1'' ''t'' ''a'' DEBIT (fromMinor 5 INR) 1, mkLedgerEntry ''le_2'' ''t'' ''b'' CREDIT (fromMinor 4 INR) 2]
   in \<exists>st. mem_post es new_ledger = Returns (st, new_ledger) \<and> \<not> Status_isOk st"
proof -
  let ?es = "[mkLedgerEntry ''le_1'' ''t'' ''a'' DEBIT (fromMinor 5 INR) 1, mkLedgerEntry ''le_2'' ''t'' ''b'' CREDIT (fromMinor 4 INR) 2]"
  have f: "sums_fit 0 ?es" by (simp add: in_int64_def signed_units_def)
  have b: "\<not> balanced ?es" by (simp add: balanced_def signed_units_def)
  obtain st r' where p: "mem_post ?es new_ledger = Returns (st, r')"
    by (simp add: mem_post_def signedAmount_def Money_times_def mul64_def add64_def checked64_def in_int64_def)
  from ledger_accepts_iff_balanced [OF f p] b p show ?thesis by (simp add: Let_def)
qed


text \<open>
  C37. The ids of up to \<open>2 ^ 64\<close> consecutive calls of one generator are pairwise different, and the
  next call after that repeats the first id.
\<close>

theorem ids_are_unique:
  "(k \<le> 2 ^ 64 \<longrightarrow> distinct (fst (next_ids k g))) \<and>
   fst (next_id (snd (next_ids (2 ^ 64) g))) = fst (next_id g)"
  using next_ids_distinct [of k g] by (simp add: next_ids_closed)

theorem ids_are_unique_witness:
  "distinct (fst (next_ids 3 (mkIdGenerator ''txn'' 1)))"
  using ids_are_unique [of 3 "mkIdGenerator ''txn'' 1"] by simp

text \<open>
  C38. A line of the file gives back the transaction it was written from, when its text fields hold no
  separator and its enumerators are named.
\<close>

theorem line_round_trip:
  assumes "storable t"
  shows "deserialize now (serialize t) = Returns (Some t)"
  by (rule deserialize_serialize [OF assms])

theorem line_round_trip_witness:
  "let t = new_txn 7 (main_pay ''idem-key-001'' 50000 UPI) demo_boot in deserialize 9 (serialize t) = Returns (Some t)"
  unfolding Let_def by (rule line_round_trip [OF demo_storable])




end
